(* ===== verification/Atap_Prelude.thy ===== *)
theory Atap_Prelude
  imports Main "HOL-Library.Word"
begin

text \<open>
  What every component of the development shares: the machine integers of the
  source, the atomic read-modify-write primitives of \<open>std::sync::atomic\<close> as pure
  functions on the value of one word, and the generic facts about them.

  A retry loop around \<open>compare_exchange\<close> is modelled by \<open>cas_loop\<close>. Its second
  argument lists what other threads do to the word between each load and the exchange
  that follows it. The lemma \<open>cas_loop_linearizable\<close> shows that such a loop always
  acts as one undisturbed pass over some value the word really held, which is why the
  components can use the undisturbed pass (\<open>atomically\<close>) as the meaning of the loop.
\<close>

unbundle bit_operations_syntax

named_theorems atap_consts \<open>the constants of the crate, unfolded\<close>
named_theorems atap_defs \<open>operations whose definition is unfolded by default in proofs\<close>

type_synonym u8 = "8 word"
type_synonym u32 = "32 word"
type_synonym u64 = "64 word"

section \<open>Atomic primitives\<close>

definition compare_exchange :: "'a \<Rightarrow> 'a \<Rightarrow> 'a \<Rightarrow> bool \<times> 'a" where
  "compare_exchange current expected new =
     (if current = expected then (True, new) else (False, current))"

datatype 'a interference = Undisturbed | Spurious | Overwritten 'a

text \<open>
  The body of a loop either returns without writing (\<open>Inl\<close>) or asks for an exchange
  to a new value and says what is returned once it lands (\<open>Inr\<close>).
\<close>

fun cas_loop :: "('a \<Rightarrow> 'r + 'a \<times> 'r) \<Rightarrow> 'a interference list \<Rightarrow> 'a \<Rightarrow> 'r \<times> 'a" where
  "cas_loop body [] current =
     (case body current of Inl r \<Rightarrow> (r, current) | Inr (new, r) \<Rightarrow> (r, new))"
| "cas_loop body (e # es) current =
     (case body current of
        Inl r \<Rightarrow> (r, current)
      | Inr (new, r) \<Rightarrow>
          (case e of
             Undisturbed \<Rightarrow> (r, new)
           | Spurious \<Rightarrow> cas_loop body es current
           | Overwritten v \<Rightarrow> if v = current then (r, new) else cas_loop body es v))"

definition atomically :: "('a \<Rightarrow> 'r + 'a \<times> 'r) \<Rightarrow> 'a \<Rightarrow> 'r \<times> 'a" where
  "atomically body = cas_loop body []"

definition fetch_update :: "('a \<Rightarrow> 'a option) \<Rightarrow> 'a \<Rightarrow> bool \<times> 'a" where
  "fetch_update f = atomically (\<lambda>v. case f v of None \<Rightarrow> Inl False | Some v' \<Rightarrow> Inr (v', True))"

definition saturating_sub :: "'a::len word \<Rightarrow> 'a word \<Rightarrow> 'a word" where
  "saturating_sub a b = (if a < b then 0 else a - b)"

section \<open>Facts about the primitives\<close>

lemma compare_exchange_hit [simp]: "compare_exchange v v w = (True, w)"
  by (simp add: compare_exchange_def)

lemma compare_exchange_fst [simp]: "fst (compare_exchange v e w) \<longleftrightarrow> v = e"
  by (simp add: compare_exchange_def)

lemma compare_exchange_snd: "snd (compare_exchange v e w) = (if v = e then w else v)"
  by (simp add: compare_exchange_def)

lemma atomically_simp [simp]:
  "atomically body v = (case body v of Inl r \<Rightarrow> (r, v) | Inr (new, r) \<Rightarrow> (r, new))"
  by (simp add: atomically_def)

lemma fetch_update_simp [simp]:
  "fetch_update f v = (case f v of None \<Rightarrow> (False, v) | Some w \<Rightarrow> (True, w))"
  by (simp add: fetch_update_def split: option.splits)

text \<open>Every disturbed run of a loop is an undisturbed pass over a value the word held.\<close>

lemma cas_loop_linearizable:
  "\<exists>v. (v = current \<or> Overwritten v \<in> set es) \<and> cas_loop body es current = atomically body v"
proof (induction es arbitrary: current)
  case Nil
  show ?case by (auto simp: atomically_def)
next
  case (Cons e es)
  show ?case
  proof (cases "body current")
    case (Inl r)
    then show ?thesis by auto
  next
    case (Inr p)
    obtain new r where p: "p = (new, r)" by (cases p)
    show ?thesis
    proof (cases e)
      case Undisturbed
      with Inr p show ?thesis by auto
    next
      case Spurious
      with Inr p Cons.IH [of current] show ?thesis by auto
    next
      case (Overwritten v)
      with Inr p Cons.IH [of v] show ?thesis by auto
    qed
  qed
qed

text \<open>A property of every undisturbed pass is a property of every run of the loop.\<close>

lemma cas_loop_inv:
  assumes "P current" and "\<And>v. Overwritten v \<in> set es \<Longrightarrow> P v"
    and "\<And>v. P v \<Longrightarrow> Q (atomically body v)"
  shows "Q (cas_loop body es current)"
  using cas_loop_linearizable [of current es body] assms by metis

lemma unat_saturating_sub [simp]: "unat (saturating_sub a b) = unat a - unat b"
  by (auto simp: saturating_sub_def word_less_nat_alt unat_sub_if')

lemma word_cases_sub_one: "w \<noteq> 0 \<Longrightarrow> unat (w - 1) = unat w - 1" for w :: "'a::len word"
  using unat_minus_one by blast

lemma unat_plus_one:
  "Suc (unat w) < 2 ^ LENGTH('a) \<Longrightarrow> unat (w + 1) = Suc (unat w)" for w :: "'a::len word"
  by (simp add: unat_word_ariths)

lemma unat_u32_bound: "unat w < 4294967296" for w :: u32
  by (rule order_less_le_trans [OF unsigned_less]) simp

lemma unat_u64_bound: "unat w < 18446744073709551616" for w :: u64
  by (rule order_less_le_trans [OF unsigned_less]) simp

section \<open>Lists and functions\<close>

lemma distinct_subset_length:
  "distinct xs \<Longrightarrow> set xs \<subseteq> {..<n} \<Longrightarrow> length xs \<le> (n::nat)"
  using card_mono [of "{..<n}" "set xs"] by (simp add: distinct_card)

section \<open>Program counters\<close>

text \<open>
  The step relations give every thread a program counter. \<open>none P f\<close> says no thread is
  at a counter in \<open>P\<close>, \<open>uniq P f\<close> that at most one is; moving one thread changes them
  as follows.
\<close>

definition none :: "('p \<Rightarrow> bool) \<Rightarrow> ('i \<Rightarrow> 'p) \<Rightarrow> bool" where
  "none P f \<longleftrightarrow> (\<forall>x. \<not> P (f x))"

definition uniq :: "('p \<Rightarrow> bool) \<Rightarrow> ('i \<Rightarrow> 'p) \<Rightarrow> bool" where
  "uniq P f \<longleftrightarrow> (\<forall>x y. P (f x) \<longrightarrow> P (f y) \<longrightarrow> x = y)"

lemma none_keep: "P (f t) = P c \<Longrightarrow> none P (f(t := c)) = none P f"
  by (auto simp: none_def)

lemma none_drop: "\<not> P c \<Longrightarrow> none P f \<Longrightarrow> none P (f(t := c))"
  by (auto simp: none_def)

lemma none_leave: "uniq P f \<Longrightarrow> P (f t) \<Longrightarrow> \<not> P c \<Longrightarrow> none P (f(t := c))"
  by (auto simp: none_def uniq_def)

lemma none_set: "P c \<Longrightarrow> \<not> none P (f(t := c))"
  by (auto simp: none_def)

lemma not_none: "P (f t) \<Longrightarrow> \<not> none P f"
  by (auto simp: none_def)

lemma none_mono: "none P f \<Longrightarrow> (\<And>p. Q p \<Longrightarrow> P p) \<Longrightarrow> none Q f"
  by (auto simp: none_def)

lemma noneD: "none P f \<Longrightarrow> \<not> P (f t)"
  by (auto simp: none_def)

lemma uniq_keep: "P (f t) = P c \<Longrightarrow> uniq P (f(t := c)) = uniq P f"
  by (auto simp: uniq_def)

lemma uniq_drop: "\<not> P c \<Longrightarrow> uniq P f \<Longrightarrow> uniq P (f(t := c))"
  by (auto simp: uniq_def)

lemma uniq_take: "none P f \<Longrightarrow> uniq P (f(t := c))"
  by (auto simp: uniq_def none_def)

lemma uniqD: "uniq P f \<Longrightarrow> P (f t) \<Longrightarrow> P (f u) \<Longrightarrow> t = u"
  by (auto simp: uniq_def)

lemma none_init [simp]: "none P (\<lambda>_. c) \<longleftrightarrow> \<not> P c"
  by (simp add: none_def)

lemma uniq_init: "\<not> P c \<Longrightarrow> uniq P (\<lambda>_. c)"
  by (simp add: uniq_def)

lemmas pc_keep = none_keep uniq_keep
lemmas pc_move = none_drop none_leave none_set uniq_drop uniq_take uniq_init

section \<open>Reaching a state\<close>

definition leads :: "('s \<Rightarrow> 's \<Rightarrow> bool) \<Rightarrow> 's \<Rightarrow> ('s \<Rightarrow> bool) \<Rightarrow> bool" where
  "leads step s P \<longleftrightarrow> (\<exists>s'. step\<^sup>*\<^sup>* s s' \<and> P s')"

lemma leads_step: "step s s' \<Longrightarrow> leads step s' P \<Longrightarrow> leads step s P"
  unfolding leads_def by (blast intro: converse_rtranclp_into_rtranclp)

lemma leads_here: "P s \<Longrightarrow> leads step s P"
  by (auto simp: leads_def)

lemma leads_trans: "leads step s P \<Longrightarrow> (\<And>s'. P s' \<Longrightarrow> leads step s' Q) \<Longrightarrow> leads step s Q"
  unfolding leads_def by (blast intro: rtranclp_trans)

end
