(* ===== verification/Atap_Constants.thy ===== *)
theory Atap_Constants
  imports Atap_Prelude
begin

text \<open>
  The constants of \<open>src/constants.rs\<close>. Sizes and counts are \<open>nat\<close>, durations are
  nanoseconds as \<open>nat\<close>, masks are words of the width they are applied at. All
  definitions are collected in \<open>atap_consts\<close>.
\<close>

definition SLEEP_TOLERANCE :: nat where [atap_consts]: "SLEEP_TOLERANCE = 500 * 1000"
definition KEVENT_COUNT :: nat where [atap_consts]: "KEVENT_COUNT = 16"
definition RESTART_BACKOFF :: nat where [atap_consts]: "RESTART_BACKOFF = 10 * 1000000"
definition RESTART_WINDOW :: nat where [atap_consts]: "RESTART_WINDOW = 5 * 1000000000"
definition RESTART_LIMIT :: nat where [atap_consts]: "RESTART_LIMIT = 5"
definition DEAD_KQUEUE_ID :: int where [atap_consts]: "DEAD_KQUEUE_ID = -1"
definition PAYLOAD_OFFSET :: nat where [atap_consts]: "PAYLOAD_OFFSET = 128"
definition SLOT_SIZE :: nat where [atap_consts]: "SLOT_SIZE = 256"
definition INLINE_PAYLOAD :: nat where [atap_consts]: "INLINE_PAYLOAD = SLOT_SIZE - PAYLOAD_OFFSET"
definition FIRST_BLOCK :: nat where [atap_consts]: "FIRST_BLOCK = 256"
definition FIRST_BLOCK_LOG2 :: nat where [atap_consts]: "FIRST_BLOCK_LOG2 = 8"
definition TABLE_BLOCKS :: nat where [atap_consts]: "TABLE_BLOCKS = 23"
definition TAG_SHIFT :: nat where [atap_consts]: "TAG_SHIFT = 48"
definition INDEX_MASK :: u64 where [atap_consts]: "INDEX_MASK = push_bit TAG_SHIFT 1 - 1"
definition MAX_TASK_ID :: nat where
  [atap_consts]: "MAX_TASK_ID = FIRST_BLOCK * 2 ^ TABLE_BLOCKS - FIRST_BLOCK"
definition UNSTARTED_TASK_ID :: nat where [atap_consts]: "UNSTARTED_TASK_ID = MAX_TASK_ID + 1"
definition WAKE_IDENT :: nat where [atap_consts]: "WAKE_IDENT = 0"
definition LOCAL_QUEUE :: nat where [atap_consts]: "LOCAL_QUEUE = 256"
definition LOCAL_QUEUE_MASK :: u32 where [atap_consts]: "LOCAL_QUEUE_MASK = 255"
definition MAX_WORKERS :: nat where [atap_consts]: "MAX_WORKERS = 4096"
definition WORKER_MULTIPLIER :: nat where [atap_consts]: "WORKER_MULTIPLIER = 4"
definition SLEEP_MULTIPLIER :: nat where [atap_consts]: "SLEEP_MULTIPLIER = 8"
definition MANAGER_TICK :: nat where [atap_consts]: "MANAGER_TICK = 10 * 1000000"
definition IDLE_REAP :: nat where [atap_consts]: "IDLE_REAP = 500 * 1000000"
definition IDLE_REAP_OVER :: nat where [atap_consts]: "IDLE_REAP_OVER = 50 * 1000000"
definition OVERLOAD_RATIO :: nat where [atap_consts]: "OVERLOAD_RATIO = 64"
definition THREAD_RESERVE :: nat where [atap_consts]: "THREAD_RESERVE = 256"
definition HELP_DEPTH :: nat where [atap_consts]: "HELP_DEPTH = 64"
definition LIFO_STREAK :: u32 where [atap_consts]: "LIFO_STREAK = 3"
definition HELP_POLL :: nat where [atap_consts]: "HELP_POLL = 10 * 1000000"
definition STRANDED_POLL :: nat where [atap_consts]: "STRANDED_POLL = 1000000000"
definition WORKER_STACK :: nat where [atap_consts]: "WORKER_STACK = 8 * 1024 * 1024"
definition MIN_WORKER_STACK :: nat where [atap_consts]: "MIN_WORKER_STACK = 16 * 1024"
definition STARVE_AGE :: u64 where [atap_consts]: "STARVE_AGE = 1000000"
definition STARVE_RELIEF :: u32 where [atap_consts]: "STARVE_RELIEF = 64"
definition PRIORITY_BANDS :: nat where [atap_consts]: "PRIORITY_BANDS = 4"
definition PRIORITY_BAND_SHIFT :: nat where [atap_consts]: "PRIORITY_BAND_SHIFT = 6"
definition PRIORITY_CLASS_SHIFT :: nat where [atap_consts]: "PRIORITY_CLASS_SHIFT = 56"
definition PRIORITY_SEQUENCE_MASK :: u64 where
  [atap_consts]: "PRIORITY_SEQUENCE_MASK = push_bit PRIORITY_CLASS_SHIFT 1 - 1"
definition DEFAULT_PRIORITY :: u8 where [atap_consts]: "DEFAULT_PRIORITY = 128"
definition TRIM_THRESHOLD :: nat where [atap_consts]: "TRIM_THRESHOLD = 4096"
definition TRIM_KEEP_PERCENT :: nat where [atap_consts]: "TRIM_KEEP_PERCENT = 80"
definition TRIM_MINIMUM :: nat where [atap_consts]: "TRIM_MINIMUM = 100"
definition TRIM_INTERVAL :: nat where [atap_consts]: "TRIM_INTERVAL = 500"
definition NOT_WAITING :: int where [atap_consts]: "NOT_WAITING = -1"
definition NO_SELECT :: int where [atap_consts]: "NO_SELECT = -1"
definition SELECT_IDENT :: nat where [atap_consts]: "SELECT_IDENT = 1"
definition CANCELLING :: int where [atap_consts]: "CANCELLING = - (2 ^ 31)"
definition NO_TASK :: nat where [atap_consts]: "NO_TASK = 2 ^ 64 - 1"
definition SCHEDULE_IDENT_BASE :: nat where [atap_consts]: "SCHEDULE_IDENT_BASE = 2"
definition TIMEOUT_IDENT_BASE :: nat where
  [atap_consts]: "TIMEOUT_IDENT_BASE = SCHEDULE_IDENT_BASE + MAX_TASK_ID + 1"
definition MANAGER_TICK_IDENT :: nat where [atap_consts]: "MANAGER_TICK_IDENT = 1"
definition PARK_TIMER :: nat where [atap_consts]: "PARK_TIMER = 1"

text \<open>An id plus one always fits the 32 bit links, and every sentinel id is past every real one.\<close>

lemma MAX_TASK_ID_val: "MAX_TASK_ID = 2147483392"
  by (simp add: atap_consts)

lemma id_plus_one_fits_u32: "i < MAX_TASK_ID \<Longrightarrow> Suc i < 2 ^ 32"
  by (simp add: MAX_TASK_ID_val)

lemma INDEX_MASK_mask: "INDEX_MASK = mask TAG_SHIFT"
  by (simp add: INDEX_MASK_def mask_eq_exp_minus_1 push_bit_eq_mult)

lemma PRIORITY_SEQUENCE_MASK_mask: "PRIORITY_SEQUENCE_MASK = mask PRIORITY_CLASS_SHIFT"
  by (simp add: PRIORITY_SEQUENCE_MASK_def mask_eq_exp_minus_1 push_bit_eq_mult)

end
