(* ===== verification/Atap_States.thy ===== *)
theory Atap_States
  imports Atap_Constants
begin

text \<open>
  The enumerations and plain records the rest of the runtime is written in terms of:
  \<open>src/modules/task_state.rs\<close>, \<open>worker_state.rs\<close>, \<open>task_kind.rs\<close>,
  \<open>task_setup.rs\<close>, \<open>errors.rs\<close> and \<open>join_policy.rs\<close>.
\<close>

section \<open>Task states\<close>

datatype task_state =
  Free | Pending | Running | Ready | Taken | Cancelled | Failed | TimedOut

fun task_state_as_u32 :: "task_state \<Rightarrow> u32" where
  "task_state_as_u32 Free = 0"
| "task_state_as_u32 Pending = 1"
| "task_state_as_u32 Running = 2"
| "task_state_as_u32 Ready = 3"
| "task_state_as_u32 Taken = 4"
| "task_state_as_u32 Cancelled = 5"
| "task_state_as_u32 Failed = 6"
| "task_state_as_u32 TimedOut = 7"

definition task_state_from_u32 :: "u32 \<Rightarrow> task_state" where
  "task_state_from_u32 raw =
     (if raw = 0 then Free
      else if raw = 1 then Pending
      else if raw = 2 then Running
      else if raw = 3 then Ready
      else if raw = 4 then Taken
      else if raw = 5 then Cancelled
      else if raw = 7 then TimedOut
      else Failed)"

definition terminal :: "task_state \<Rightarrow> bool" where
  "terminal s \<longleftrightarrow> \<not> (s = Pending \<or> s = Running)"

definition stopped_state :: "task_state \<Rightarrow> bool" where
  "stopped_state s \<longleftrightarrow> s = Cancelled \<or> s = TimedOut"

section \<open>Worker states\<close>

datatype worker_state =
  Empty | Starting | Idle | WRunning | Parked | Stopping | Dead | Recovering

fun worker_state_as_u32 :: "worker_state \<Rightarrow> u32" where
  "worker_state_as_u32 Empty = 0"
| "worker_state_as_u32 Starting = 1"
| "worker_state_as_u32 Idle = 2"
| "worker_state_as_u32 WRunning = 3"
| "worker_state_as_u32 Parked = 4"
| "worker_state_as_u32 Stopping = 5"
| "worker_state_as_u32 Dead = 6"
| "worker_state_as_u32 Recovering = 7"

definition worker_state_from_u32 :: "u32 \<Rightarrow> worker_state" where
  "worker_state_from_u32 raw =
     (if raw = 0 then Empty
      else if raw = 1 then Starting
      else if raw = 2 then Idle
      else if raw = 3 then WRunning
      else if raw = 4 then Parked
      else if raw = 5 then Stopping
      else if raw = 7 then Recovering
      else Dead)"

definition alive :: "worker_state \<Rightarrow> bool" where
  "alive s \<longleftrightarrow> s = Starting \<or> s = Idle \<or> s = WRunning \<or> s = Parked \<or> s = Stopping"

definition busy :: "worker_state \<Rightarrow> bool" where
  "busy s \<longleftrightarrow> s = WRunning"

definition needs_recovery :: "worker_state \<Rightarrow> bool" where
  "needs_recovery s \<longleftrightarrow> s = Dead"

section \<open>Task kinds\<close>

datatype task_kind = Once | Repeating | RepeatEvery | Series

definition WAITS :: u8 where
  "WAITS = 0x80"

fun task_kind_as_u8 :: "task_kind \<Rightarrow> u8" where
  "task_kind_as_u8 Once = 0"
| "task_kind_as_u8 Repeating = 1"
| "task_kind_as_u8 RepeatEvery = 2"
| "task_kind_as_u8 Series = 3"

definition task_kind_from_u8 :: "u8 \<Rightarrow> task_kind" where
  "task_kind_from_u8 raw =
     (let k = raw AND NOT WAITS in
      if k = 1 then Repeating else if k = 2 then RepeatEvery else if k = 3 then Series else Once)"

definition repeats :: "task_kind \<Rightarrow> bool" where
  "repeats k \<longleftrightarrow> k \<noteq> Once"

definition kind_waits :: "task_kind \<Rightarrow> bool" where
  "kind_waits k \<longleftrightarrow> k = RepeatEvery"

definition schedules :: "task_kind \<Rightarrow> bool" where
  "schedules k \<longleftrightarrow> k = Series"

section \<open>Errors\<close>

datatype runtime_error =
    CheckError "int option"
  | AddressLock | AlreadyInit | NotInitialised | AlreadyTaken | Finished | ECancelled
  | NoSuchTask | TaskFailed | NotReady | StillInUse | BadPath | BadArgument | BadVariable
  | BadDirectory | ETimedOut | BadAddress | Closed | TooLong | BadCertificate | TlsFailed
  | BadSignal

type_synonym 'a res = "runtime_error + 'a"

fun raw_os_error :: "runtime_error \<Rightarrow> int option" where
  "raw_os_error (CheckError errno) = errno"
| "raw_os_error _ = None"

datatype join_policy = JoinCancel | PassBack | JoinDrop

section \<open>Task setup\<close>

text \<open>
  Instants and durations are nanoseconds. \<open>checked_add\<close> on an instant fails past
  \<open>limit\<close>, the last instant the platform's clock can hold, which is a parameter.
\<close>

datatype deadline = NoDeadline | Span nat | At nat

record task_setup =
  su_kind :: task_kind
  su_interval :: nat
  su_start_delay :: nat
  su_deadline :: deadline
  su_runs :: u32
  su_priority :: u8
  su_blocking :: bool
  su_gives :: u32
  su_waits :: bool
  su_timeout :: "nat option"
  su_parent :: nat

definition u32_MAX :: u32 where
  "u32_MAX = - 1"

definition setup_default :: task_setup where
  "setup_default =
     \<lparr>su_kind = Once, su_interval = 0, su_start_delay = 0, su_deadline = NoDeadline,
      su_runs = u32_MAX, su_priority = DEFAULT_PRIORITY, su_blocking = False,
      su_gives = u32_MAX, su_waits = False, su_timeout = None, su_parent = NO_TASK\<rparr>"

definition setup_once :: "u8 \<Rightarrow> task_setup" where
  "setup_once priority =
     \<lparr>su_kind = Once, su_interval = 0, su_start_delay = 0, su_deadline = NoDeadline,
      su_runs = u32_MAX, su_priority = priority, su_blocking = False,
      su_gives = u32_MAX, su_waits = False, su_timeout = None, su_parent = NO_TASK\<rparr>"

definition instant_checked_add :: "nat \<Rightarrow> nat \<Rightarrow> nat \<Rightarrow> nat option" where
  "instant_checked_add limit t d = (if t + d \<le> limit then Some (t + d) else None)"

definition setup_until :: "nat \<Rightarrow> nat \<Rightarrow> task_setup \<Rightarrow> nat option" where
  "setup_until limit now su =
     (case su_deadline su of
        NoDeadline \<Rightarrow> None
      | At when \<Rightarrow> Some when
      | Span span \<Rightarrow>
          Option.bind (instant_checked_add limit now (su_start_delay su))
            (\<lambda>start. instant_checked_add limit start span))"

definition setup_blocking :: "task_setup \<Rightarrow> bool \<Rightarrow> task_setup" where
  "setup_blocking su b = su\<lparr>su_blocking := b\<rparr>"

section \<open>Facts\<close>

lemma unat_u32_MAX [simp]: "unat u32_MAX = 4294967295"
  by (simp add: u32_MAX_def unsigned_minus_1_eq_mask mask_eq_exp_minus_1)

lemma u32_MAX_nonzero [simp]: "u32_MAX \<noteq> 0"
  by (simp add: u32_MAX_def)

lemma below_u32_MAX: "unat w < 4294967295 \<Longrightarrow> w \<noteq> u32_MAX" for w :: u32
  by auto

lemma task_state_roundtrip [simp]: "task_state_from_u32 (task_state_as_u32 s) = s"
  by (cases s) (simp_all add: task_state_from_u32_def)

lemma task_state_as_u32_inj [simp]: "task_state_as_u32 a = task_state_as_u32 b \<longleftrightarrow> a = b"
  by (metis task_state_roundtrip)

lemma task_state_unknown: "7 < raw \<Longrightarrow> task_state_from_u32 raw = Failed"
  by (auto simp: task_state_from_u32_def)

lemma worker_state_roundtrip [simp]: "worker_state_from_u32 (worker_state_as_u32 s) = s"
  by (cases s) (simp_all add: worker_state_from_u32_def)

lemma terminal_simps [simp]:
  "terminal Free" "\<not> terminal Pending" "\<not> terminal Running" "terminal Ready"
  "terminal Taken" "terminal Cancelled" "terminal Failed" "terminal TimedOut"
  by (simp_all add: terminal_def)

lemma stopped_state_simps [simp]:
  "\<not> stopped_state Free" "\<not> stopped_state Pending" "\<not> stopped_state Running"
  "\<not> stopped_state Ready" "\<not> stopped_state Taken" "stopped_state Cancelled"
  "\<not> stopped_state Failed" "stopped_state TimedOut"
  by (simp_all add: stopped_state_def)

lemma repeats_simps [simp]:
  "\<not> repeats Once" "repeats Repeating" "repeats RepeatEvery" "repeats Series"
  by (simp_all add: repeats_def)

lemma kind_waits_simps [simp]:
  "\<not> kind_waits Once" "\<not> kind_waits Repeating" "kind_waits RepeatEvery" "\<not> kind_waits Series"
  by (simp_all add: kind_waits_def)

lemma schedules_simps [simp]:
  "\<not> schedules Once" "\<not> schedules Repeating" "\<not> schedules RepeatEvery" "schedules Series"
  by (simp_all add: schedules_def)

text \<open>The kind and the wait bit share a byte and neither disturbs the other.\<close>

definition kind_byte :: "task_kind \<Rightarrow> bool \<Rightarrow> u8" where
  "kind_byte k waits = (task_kind_as_u8 k OR (if waits then WAITS else 0))"

lemma kind_byte_kind [simp]: "task_kind_from_u8 (kind_byte k w) = k"
  by (cases k; cases w) (simp_all add: kind_byte_def task_kind_from_u8_def WAITS_def Let_def)

lemma kind_byte_waits [simp]: "kind_byte k w AND WAITS = (if w then WAITS else 0)"
  by (cases k; cases w) (simp_all add: kind_byte_def WAITS_def)

lemma WAITS_nonzero [simp]: "WAITS \<noteq> 0"
  by (simp add: WAITS_def)

text \<open>Without a deadline there is none, and a span counts from the end of the start delay.\<close>

lemma setup_until_span:
  "su_deadline su = Span span \<Longrightarrow> now + su_start_delay su + span \<le> limit \<Longrightarrow>
   setup_until limit now su = Some (now + su_start_delay su + span)"
  by (simp add: setup_until_def instant_checked_add_def)

lemma setup_until_too_long:
  "su_deadline su = Span span \<Longrightarrow> limit < now + su_start_delay su + span \<Longrightarrow>
   setup_until limit now su = None"
  by (simp add: setup_until_def instant_checked_add_def)

end
