(* ===== verification/Gate.thy ===== *)
theory Gate
  imports Atap_States
begin

text \<open>
  \<open>src/modules/gate.rs\<close>: whether a give starts a waiting task's next run, and what
  follows once a run, or a series of runs, is over. The operations here are the methods
  of \<open>Gate\<close>, each run without interference; the interleavings of their single memory
  accesses are the subject of \<open>Gate_Race\<close>.
\<close>

datatype gate_phase = WAITING | QUEUED | RUNNING | PENDING | FINISHED

datatype trigger = Start | Replaced | TriggerClosed

datatype after_run = Wait | Again | Finish

record gate =
  g_state :: gate_phase
  g_gives_left :: u32
  g_givers :: u64
  g_runs :: u32
  g_deadline :: deadline
  g_delay :: u64
  g_series :: bool

definition gate_new :: "u32 \<Rightarrow> u32 \<Rightarrow> deadline \<Rightarrow> nat \<Rightarrow> bool \<Rightarrow> gate" where
  "gate_new gives runs deadline delay series =
     \<lparr>g_state = WAITING, g_gives_left = gives, g_givers = 1, g_runs = runs,
      g_deadline = deadline, g_delay = of_nat (min delay (2 ^ 64 - 1)), g_series = series\<rparr>"

definition gate_detached :: gate where
  "gate_detached =
     \<lparr>g_state = FINISHED, g_gives_left = 0, g_givers = 1, g_runs = u32_MAX,
      g_deadline = NoDeadline, g_delay = 0, g_series = False\<rparr>"

definition add_giver :: "gate \<Rightarrow> gate" where
  "add_giver g = g\<lparr>g_givers := g_givers g + 1\<rparr>"

definition drop_giver :: "gate \<Rightarrow> bool \<times> gate" where
  "drop_giver g = (g_givers g = 1, g\<lparr>g_givers := g_givers g - 1\<rparr>)"

definition gate_until :: "nat \<Rightarrow> nat \<Rightarrow> gate \<Rightarrow> nat option" where
  "gate_until limit now g =
     (case g_deadline g of
        NoDeadline \<Rightarrow> None
      | At when \<Rightarrow> Some when
      | Span span \<Rightarrow>
          Option.bind (instant_checked_add limit now (unat (g_delay g)))
            (\<lambda>start. instant_checked_add limit start span))"

definition gate_waiting :: "gate \<Rightarrow> bool" where
  "gate_waiting g \<longleftrightarrow> g_state g = WAITING"

definition gate_finished :: "gate \<Rightarrow> bool" where
  "gate_finished g \<longleftrightarrow> g_state g = FINISHED"

definition gate_finish :: "gate \<Rightarrow> gate" where
  "gate_finish g = g\<lparr>g_state := FINISHED\<rparr>"

definition spend_give_step :: "u32 \<Rightarrow> u32 option" where
  "spend_give_step left = (if left = u32_MAX \<or> left = 0 then None else Some (left - 1))"

definition spend_give :: "gate \<Rightarrow> gate" where
  "spend_give g = g\<lparr>g_gives_left := snd (fetch_update spend_give_step (g_gives_left g))\<rparr>"

text \<open>Where a give in some phase asks the gate to go, or what it answers at once.\<close>

fun trigger_target :: "bool \<Rightarrow> gate_phase \<Rightarrow> trigger + gate_phase" where
  "trigger_target series WAITING = Inr QUEUED"
| "trigger_target series RUNNING = (if \<not> series then Inr PENDING else Inl Replaced)"
| "trigger_target series QUEUED = Inl Replaced"
| "trigger_target series PENDING = Inl Replaced"
| "trigger_target series FINISHED = Inl TriggerClosed"

definition trigger_answer :: "gate_phase \<Rightarrow> trigger" where
  "trigger_answer to = (if to = QUEUED then Start else Replaced)"

definition gate_trigger :: "gate \<Rightarrow> trigger \<times> gate" where
  "gate_trigger g =
     (case trigger_target (g_series g) (g_state g) of
        Inl answer \<Rightarrow> (answer, g)
      | Inr to \<Rightarrow>
          if g_gives_left g = 0 then (TriggerClosed, g)
          else (trigger_answer to, spend_give (g\<lparr>g_state := to\<rparr>)))"

definition gate_begin :: "gate \<Rightarrow> gate" where
  "gate_begin g = g\<lparr>g_state := snd (compare_exchange (g_state g) QUEUED RUNNING)\<rparr>"

definition has_givers :: "gate \<Rightarrow> bool" where
  "has_givers g \<longleftrightarrow> g_givers g \<noteq> 0"

definition close_waiting :: "gate \<Rightarrow> bool \<times> gate" where
  "close_waiting g =
     (let (ok, s) = compare_exchange (g_state g) WAITING FINISHED in (ok, g\<lparr>g_state := s\<rparr>))"

definition gate_over :: "gate \<Rightarrow> bool" where
  "gate_over g \<longleftrightarrow> g_gives_left g = 0 \<or> \<not> has_givers g"

definition gate_after_run :: "gate \<Rightarrow> after_run \<times> gate" where
  "gate_after_run g =
     (case g_state g of
        PENDING \<Rightarrow> (Again, g\<lparr>g_state := QUEUED\<rparr>)
      | WAITING \<Rightarrow> (Wait, g)
      | FINISHED \<Rightarrow> (Finish, g)
      | _ \<Rightarrow>
          (let over = gate_over g;
               g1 = g\<lparr>g_state := if over then FINISHED else WAITING\<rparr> in
           if over then (Finish, g1)
           else if \<not> has_givers g1 then
             (let (closed, g2) = close_waiting g1 in (if closed then Finish else Wait, g2))
           else (Wait, g1)))"

section \<open>What each operation does\<close>

lemmas gate_ops_defs = add_giver_def drop_giver_def gate_finish_def spend_give_def
  gate_trigger_def gate_begin_def close_waiting_def gate_after_run_def Let_def

lemma gate_begin_state:
  "g_state (gate_begin g) = (if g_state g = QUEUED then RUNNING else g_state g)"
  by (simp add: gate_begin_def compare_exchange_def)

lemma close_waiting_iff: "fst (close_waiting g) \<longleftrightarrow> g_state g = WAITING"
  by (simp add: close_waiting_def compare_exchange_def)

lemma spend_give_state [simp]: "g_state (spend_give g) = g_state g"
  "g_givers (spend_give g) = g_givers g" "g_series (spend_give g) = g_series g"
  by (simp_all add: spend_give_def)

lemma unat_spend_give:
  "g_gives_left g \<noteq> 0 \<Longrightarrow> g_gives_left g \<noteq> u32_MAX \<Longrightarrow>
   unat (g_gives_left (spend_give g)) = unat (g_gives_left g) - 1"
  by (simp add: spend_give_def spend_give_step_def word_cases_sub_one)

lemma spend_give_unlimited:
  "g_gives_left g = u32_MAX \<Longrightarrow> g_gives_left (spend_give g) = u32_MAX"
  by (simp add: spend_give_def spend_give_step_def)

section \<open>The contract a waiting task relies on\<close>

text \<open>
  What the executor relies on: once a gate is finished, no operation opens it again and
  no give starts or replaces anything.
\<close>

datatype gate_op = Give | Begin | AfterRun | CloseWaiting | AddGiver | DropGiver | FinishOp

fun gate_do :: "gate_op \<Rightarrow> gate \<Rightarrow> gate" where
  "gate_do Give g = snd (gate_trigger g)"
| "gate_do Begin g = gate_begin g"
| "gate_do AfterRun g = snd (gate_after_run g)"
| "gate_do CloseWaiting g = snd (close_waiting g)"
| "gate_do AddGiver g = add_giver g"
| "gate_do DropGiver g = snd (drop_giver g)"
| "gate_do FinishOp g = gate_finish g"

fun taken_by :: "gate_op \<Rightarrow> gate \<Rightarrow> nat" where
  "taken_by Give g =
     (case trigger_target (g_series g) (g_state g) of
        Inl _ \<Rightarrow> 0
      | Inr _ \<Rightarrow> if g_gives_left g = 0 then 0 else 1)"
| "taken_by _ g = 0"

fun gives_taken :: "gate_op list \<Rightarrow> gate \<Rightarrow> nat" where
  "gives_taken [] g = 0"
| "gives_taken (x # xs) g = taken_by x g + gives_taken xs (gate_do x g)"

locale closing_gate =
  fixes op :: "'o \<Rightarrow> 'g \<Rightarrow> 'g"
    and give :: "'g \<Rightarrow> trigger"
    and finished :: "'g \<Rightarrow> bool"
    and finish :: "'g \<Rightarrow> 'g"
  assumes finish_finished: "finished (finish g)"
    and finished_absorbs: "finished g \<Longrightarrow> finished (op x g)"
    and finished_refuses: "finished g \<Longrightarrow> give g = TriggerClosed"
begin

lemma finished_forever: "finished g \<Longrightarrow> finished (fold op xs g)"
  by (induction xs arbitrary: g) (auto intro: finished_absorbs)

lemma refused_forever: "give (fold op xs (finish g)) = TriggerClosed"
  by (intro finished_refuses finished_forever finish_finished)

end

lemma gate_do_finished: "gate_finished g \<Longrightarrow> gate_finished (gate_do x g)"
  by (cases x) (auto simp: gate_finished_def gate_ops_defs compare_exchange_def)

interpretation gate_if: closing_gate gate_do "\<lambda>g. fst (gate_trigger g)" gate_finished gate_finish
  by unfold_locales
    (simp_all add: gate_do_finished [unfolded gate_finished_def] gate_finish_def
      gate_finished_def gate_trigger_def)

section \<open>The limit on gives\<close>

lemma gate_do_gives_left:
  assumes "g_gives_left g \<noteq> u32_MAX"
  shows "unat (g_gives_left (gate_do x g)) + taken_by x g = unat (g_gives_left g)
    \<and> g_gives_left (gate_do x g) \<noteq> u32_MAX"
proof (cases x)
  case Give
  show ?thesis
  proof (cases "trigger_target (g_series g) (g_state g)")
    case (Inl a)
    with Give assms show ?thesis by (simp add: gate_trigger_def)
  next
    case (Inr to)
    show ?thesis
    proof (cases "g_gives_left g = 0")
      case True
      with Give Inr assms show ?thesis by (simp add: gate_trigger_def)
    next
      case False
      then have pos: "0 < unat (g_gives_left g)" by (simp add: unat_gt_0)
      from False assms
      have dec: "unat (g_gives_left (spend_give (g\<lparr>g_state := to\<rparr>))) = unat (g_gives_left g) - 1"
        by (subst unat_spend_give) simp_all
      then have "g_gives_left (spend_give (g\<lparr>g_state := to\<rparr>)) \<noteq> u32_MAX"
        using pos unat_u32_bound [of "g_gives_left g"]
        by (intro below_u32_MAX) simp
      with Give Inr False dec pos show ?thesis by (simp add: gate_trigger_def)
    qed
  qed
qed (use assms in \<open>auto simp: gate_ops_defs split: gate_phase.splits prod.splits\<close>)

lemma gate_run_gives_left:
  "g_gives_left g \<noteq> u32_MAX \<Longrightarrow>
   unat (g_gives_left (fold gate_do xs g)) + gives_taken xs g = unat (g_gives_left g)"
proof (induction xs arbitrary: g)
  case Nil
  then show ?case by simp
next
  case (Cons x xs)
  from gate_do_gives_left [OF Cons.prems, of x] Cons.IH [of "gate_do x g"] show ?case by simp
qed

text \<open>
  with a limit on its gives, and whatever sequence of whole operations a gate goes
  through, the gives that started something and the gives still left always add up to
  the limit, so no more than the limit are ever taken.
\<close>
theorem gate_gives_exact:
  assumes "gives \<noteq> u32_MAX"
  shows "gives_taken xs (gate_new gives runs until delay series) +
    unat (g_gives_left (fold gate_do xs (gate_new gives runs until delay series))) = unat gives"
proof -
  have "g_gives_left (gate_new gives runs until delay series) = gives"
    by (simp add: gate_new_def)
  with assms gate_run_gives_left [of "gate_new gives runs until delay series" xs]
  show ?thesis by simp
qed

lemma two_gives_left:
  "g_gives_left (fold gate_do [Give, Begin, Give, AfterRun, Begin, AfterRun, Give]
     (gate_new 2 u32_MAX NoDeadline 0 False)) = 0"
  by (simp add: gate_ops_defs gate_new_def compare_exchange_def spend_give_step_def
      trigger_answer_def gate_over_def has_givers_def u32_MAX_def)

theorem gate_gives_exact_witness:
  "gives_taken [Give, Begin, Give, AfterRun, Begin, AfterRun, Give]
     (gate_new 2 u32_MAX NoDeadline 0 False) = 2"
proof -
  have "(2 :: u32) \<noteq> u32_MAX" by (simp add: u32_MAX_def)
  from gate_gives_exact [OF this,
      of "[Give, Begin, Give, AfterRun, Begin, AfterRun, Give]" u32_MAX NoDeadline 0 False]
  show ?thesis unfolding two_gives_left by simp
qed

text \<open>
  once a gate is finished it stays finished through every later operation, and every
  give after that is answered with closed.
\<close>
theorem gate_closed_forever:
  "gate_finished (fold gate_do xs (gate_finish g)) \<and>
   fst (gate_trigger (fold gate_do xs (gate_finish g))) = TriggerClosed"
  by (intro conjI gate_if.refused_forever gate_if.finished_forever gate_if.finish_finished)

end
