(* ===== verification/Gate_Race.thy ===== *)
theory Gate_Race
  imports Gate
begin

text \<open>
  The races on one gate (\<open>src/modules/gate.rs\<close>): any number of threads hold handles
  that give, clone themselves, cancel and go away, while runs of the task begin and
  end. Every rule is one memory access of \<open>trigger\<close>, \<open>begin\<close>, \<open>after_run\<close>,
  \<open>close_waiting\<close>, \<open>add_giver\<close> or \<open>drop_giver\<close>, so a step relation over the rules
  is every interleaving. Handles borrow the gate while they give, so a handle is only
  dropped when no call on it is under way.

  Left out is the unconditional store of \<open>finish\<close>, which the executor makes only on
  its failure paths.
\<close>

section \<open>States\<close>

text \<open>A thread giving: between which two accesses of \<open>trigger\<close>, or of its handle's drop.\<close>

datatype give_pc =
    Gone                       \<comment> \<open>no handle\<close>
  | Holding                    \<comment> \<open>a handle, and no call under way\<close>
  | Loaded gate_phase          \<comment> \<open>the state was read, and a move is wanted\<close>
  | Checked gate_phase         \<comment> \<open>and gives were left\<close>
  | Won gate_phase             \<comment> \<open>the exchange to this phase landed, the give isn't spent\<close>
  | LastGone                   \<comment> \<open>dropped the last handle, the close is still to come\<close>

text \<open>A run, or a series: between which two accesses of \<open>begin\<close> and \<open>after_run\<close>.\<close>

datatype run_pc =
    NoRun
  | RunQueued                  \<comment> \<open>queued or delayed\<close>
  | RunUnderWay                \<comment> \<open>past \<open>begin\<close>\<close>
  | RunOver                    \<comment> \<open>at the top of the loop of \<open>after_run\<close>\<close>
  | Saw gate_phase             \<comment> \<open>read this state\<close>
  | SawGives gate_phase        \<comment> \<open>and then gives were left\<close>
  | Decided gate_phase bool    \<comment> \<open>and then whether it is over\<close>
  | Recheck                    \<comment> \<open>moved to waiting, looks at the givers again\<close>
  | Reclose                    \<comment> \<open>saw none, closes\<close>

record gate_race =
  r_phase :: gate_phase
  r_left :: u32
  r_givers :: nat
  r_series :: bool
  r_give :: "nat \<Rightarrow> give_pc"
  r_run :: "nat \<Rightarrow> run_pc"
  r_taken :: nat               \<comment> \<open>gives whose exchange landed\<close>
  r_released :: nat            \<comment> \<open>times somebody was told to let the task go\<close>

definition race_init :: "u32 \<Rightarrow> bool \<Rightarrow> gate_race" where
  "race_init gives series =
     \<lparr>r_phase = WAITING, r_left = gives, r_givers = 1, r_series = series,
      r_give = (\<lambda>_. Gone)(0 := Holding), r_run = (\<lambda>_. NoRun), r_taken = 0, r_released = 0\<rparr>"

abbreviation set_give :: "nat \<Rightarrow> give_pc \<Rightarrow> gate_race \<Rightarrow> gate_race" where
  "set_give t pc s \<equiv> s\<lparr>r_give := (r_give s)(t := pc)\<rparr>"

abbreviation set_run :: "nat \<Rightarrow> run_pc \<Rightarrow> gate_race \<Rightarrow> gate_race" where
  "set_run r pc s \<equiv> s\<lparr>r_run := (r_run s)(r := pc)\<rparr>"

abbreviation let_go :: "gate_race \<Rightarrow> gate_race" where
  "let_go s \<equiv> s\<lparr>r_released := r_released s + 1\<rparr>"

section \<open>Steps\<close>

inductive race_step :: "gate_race \<Rightarrow> gate_race \<Rightarrow> bool" where
  clone: "r_give s t = Holding \<Longrightarrow> r_give s u = Gone \<Longrightarrow>
    race_step s (set_give u Holding (s\<lparr>r_givers := r_givers s + 1\<rparr>))"
| drop: "r_give s t = Holding \<Longrightarrow>
    race_step s (set_give t (if r_givers s = 1 then LastGone else Gone)
      (s\<lparr>r_givers := r_givers s - 1\<rparr>))"
| last_closes: "r_give s t = LastGone \<Longrightarrow> r_phase s = WAITING \<Longrightarrow>
    race_step s (let_go (set_give t Gone (s\<lparr>r_phase := FINISHED\<rparr>)))"
| last_leaves: "r_give s t = LastGone \<Longrightarrow> r_phase s \<noteq> WAITING \<Longrightarrow>
    race_step s (set_give t Gone s)"
| cancel: "r_phase s = WAITING \<Longrightarrow> race_step s (let_go (s\<lparr>r_phase := FINISHED\<rparr>))"
| give_load: "r_give s t = Holding \<Longrightarrow> trigger_target (r_series s) (r_phase s) = Inr to \<Longrightarrow>
    race_step s (set_give t (Loaded (r_phase s)) s)"
| give_none: "r_give s t = Loaded p \<Longrightarrow> r_left s = 0 \<Longrightarrow> race_step s (set_give t Holding s)"
| give_check: "r_give s t = Loaded p \<Longrightarrow> r_left s \<noteq> 0 \<Longrightarrow>
    race_step s (set_give t (Checked p) s)"
| give_win: "r_give s t = Checked p \<Longrightarrow> r_phase s = p \<Longrightarrow>
    trigger_target (r_series s) p = Inr to \<Longrightarrow>
    race_step s (set_give t (Won to) (s\<lparr>r_phase := to, r_taken := r_taken s + 1\<rparr>))"
| give_lose: "r_give s t = Checked p \<Longrightarrow> r_phase s \<noteq> p \<Longrightarrow> race_step s (set_give t Holding s)"
| give_start: "r_give s t = Won QUEUED \<Longrightarrow> r_run s r = NoRun \<Longrightarrow>
    race_step s (set_run r RunQueued (set_give t Holding
      (s\<lparr>r_left := snd (fetch_update spend_give_step (r_left s))\<rparr>)))"
| give_replace: "r_give s t = Won p \<Longrightarrow> p \<noteq> QUEUED \<Longrightarrow>
    race_step s (set_give t Holding (s\<lparr>r_left := snd (fetch_update spend_give_step (r_left s))\<rparr>))"
| run_begin: "r_run s r = RunQueued \<or> r_run s r = RunUnderWay \<Longrightarrow>
    race_step s (set_run r RunUnderWay
      (s\<lparr>r_phase := snd (compare_exchange (r_phase s) QUEUED RUNNING)\<rparr>))"
| run_over: "r_run s r = RunQueued \<or> r_run s r = RunUnderWay \<Longrightarrow>
    race_step s (set_run r RunOver s)"
| over_load: "r_run s r = RunOver \<Longrightarrow> race_step s (set_run r (Saw (r_phase s)) s)"
| saw_again: "r_run s r = Saw PENDING \<Longrightarrow> r_phase s = PENDING \<Longrightarrow>
    race_step s (set_run r RunQueued (s\<lparr>r_phase := QUEUED\<rparr>))"
| saw_again_lost: "r_run s r = Saw PENDING \<Longrightarrow> r_phase s \<noteq> PENDING \<Longrightarrow>
    race_step s (set_run r RunOver s)"
| saw_waiting: "r_run s r = Saw WAITING \<Longrightarrow> race_step s (set_run r NoRun s)"
| saw_finished: "r_run s r = Saw FINISHED \<Longrightarrow> race_step s (let_go (set_run r NoRun s))"
| saw_gives: "r_run s r = Saw p \<Longrightarrow> p = QUEUED \<or> p = RUNNING \<Longrightarrow>
    race_step s (set_run r (if r_left s = 0 then Decided p True else SawGives p) s)"
| saw_givers: "r_run s r = SawGives p \<Longrightarrow>
    race_step s (set_run r (Decided p (r_givers s = 0)) s)"
| decided_lost: "r_run s r = Decided p over \<Longrightarrow> r_phase s \<noteq> p \<Longrightarrow>
    race_step s (set_run r RunOver s)"
| decided_over: "r_run s r = Decided p True \<Longrightarrow> r_phase s = p \<Longrightarrow>
    race_step s (let_go (set_run r NoRun (s\<lparr>r_phase := FINISHED\<rparr>)))"
| decided_wait: "r_run s r = Decided p False \<Longrightarrow> r_phase s = p \<Longrightarrow>
    race_step s (set_run r Recheck (s\<lparr>r_phase := WAITING\<rparr>))"
| recheck: "r_run s r = Recheck \<Longrightarrow>
    race_step s (set_run r (if r_givers s = 0 then Reclose else NoRun) s)"
| reclose: "r_run s r = Reclose \<Longrightarrow> r_phase s = WAITING \<Longrightarrow>
    race_step s (let_go (set_run r NoRun (s\<lparr>r_phase := FINISHED\<rparr>)))"
| reclose_lost: "r_run s r = Reclose \<Longrightarrow> r_phase s \<noteq> WAITING \<Longrightarrow>
    race_step s (set_run r NoRun s)"

definition race_reachable :: "u32 \<Rightarrow> bool \<Rightarrow> gate_race \<Rightarrow> bool" where
  "race_reachable gives series s \<longleftrightarrow> race_step\<^sup>*\<^sup>* (race_init gives series) s"

section \<open>Who owns the run\<close>

fun active_phase :: "gate_phase \<Rightarrow> bool" where
  "active_phase WAITING = False"
| "active_phase FINISHED = False"
| "active_phase _ = True"

fun active_run :: "run_pc \<Rightarrow> bool" where
  "active_run NoRun = False"
| "active_run Recheck = False"
| "active_run Reclose = False"
| "active_run _ = True"

fun holds_handle :: "give_pc \<Rightarrow> bool" where
  "holds_handle Gone = False"
| "holds_handle LastGone = False"
| "holds_handle _ = True"

text \<open>
  What has the right to the task's slot: a give that won the move to \<open>QUEUED\<close> and hasn't
  yet queued its run, or a run.
\<close>

definition owns :: "(nat \<Rightarrow> give_pc) \<Rightarrow> (nat \<Rightarrow> run_pc) \<Rightarrow> nat + nat \<Rightarrow> bool" where
  "owns give run x = (case x of Inl t \<Rightarrow> give t = Won QUEUED | Inr r \<Rightarrow> active_run (run r))"

abbreviation owner :: "gate_race \<Rightarrow> nat + nat \<Rightarrow> bool" where
  "owner s \<equiv> owns (r_give s) (r_run s)"

fun saw_ok :: "run_pc \<Rightarrow> bool" where
  "saw_ok (Saw p) = active_phase p"
| "saw_ok (SawGives p) = (p = QUEUED \<or> p = RUNNING)"
| "saw_ok (Decided p _) = (p = QUEUED \<or> p = RUNNING)"
| "saw_ok _ = True"

text \<open>What will still look at whether the gate has to be closed.\<close>

definition closes :: "(nat \<Rightarrow> give_pc) \<Rightarrow> (nat \<Rightarrow> run_pc) \<Rightarrow> nat + nat \<Rightarrow> bool" where
  "closes give run x =
     (case x of Inl t \<Rightarrow> give t = LastGone | Inr r \<Rightarrow> run r = Recheck \<or> run r = Reclose)"

abbreviation closer :: "gate_race \<Rightarrow> bool" where
  "closer s \<equiv> \<exists>x. closes (r_give s) (r_run s) x"

definition holders :: "(nat \<Rightarrow> give_pc) \<Rightarrow> nat set" where
  "holders give = {t. holds_handle (give t)}"

definition handles_inv :: "gate_race \<Rightarrow> bool" where
  "handles_inv s \<longleftrightarrow>
     finite (holders (r_give s)) \<and> r_givers s = card (holders (r_give s))"

definition sole :: "('a \<Rightarrow> bool) \<Rightarrow> bool \<Rightarrow> bool" where
  "sole own active \<longleftrightarrow> (\<forall>x y. own x \<longrightarrow> own y \<longrightarrow> x = y) \<and> (active \<longleftrightarrow> (\<exists>x. own x))"

definition owner_inv :: "gate_race \<Rightarrow> bool" where
  "owner_inv s \<longleftrightarrow> sole (owner s) (active_phase (r_phase s)) \<and> (\<forall>r. saw_ok (r_run s r))"

definition closer_inv :: "gate_race \<Rightarrow> bool" where
  "closer_inv s \<longleftrightarrow> (r_givers s = 0 \<and> r_phase s = WAITING \<longrightarrow> closer s)"

definition released_inv :: "gate_race \<Rightarrow> bool" where
  "released_inv s \<longleftrightarrow> r_released s = (if r_phase s = FINISHED then 1 else 0)"

section \<open>Preservation\<close>

lemma owns_simps [simp]:
  "owns give run (Inl t) \<longleftrightarrow> give t = Won QUEUED"
  "owns give run (Inr r) \<longleftrightarrow> active_run (run r)"
  by (simp_all add: owns_def)

lemma owns_update [simp]:
  "owns (give(t := pc)) run = (owns give run)(Inl t := (pc = Won QUEUED))"
  "owns give (run(r := rpc)) = (owns give run)(Inr r := active_run rpc)"
  by (auto simp: owns_def fun_eq_iff split: sum.splits)

lemma sole_keep: "sole own a \<Longrightarrow> own x = b \<Longrightarrow> sole (own(x := b)) a"
  by (simp add: fun_upd_idem)

lemma sole_take: "sole own False \<Longrightarrow> sole (own(x := True)) True"
  by (auto simp: sole_def)

lemma sole_leave: "sole own a \<Longrightarrow> own x \<Longrightarrow> sole (own(x := False)) False"
  by (auto simp: sole_def)

lemma sole_move: "sole own a \<Longrightarrow> own x \<Longrightarrow> \<not> own y \<Longrightarrow> sole (own(x := False, y := True)) True"
  by (auto simp: sole_def)

lemma sole_active: "sole own a \<Longrightarrow> own x \<Longrightarrow> a"
  by (auto simp: sole_def)

lemma trigger_target_Inr:
  "trigger_target b p = Inr q \<longleftrightarrow> p = WAITING \<and> q = QUEUED \<or> p = RUNNING \<and> \<not> b \<and> q = PENDING"
  by (cases p) auto

lemma holders_update [simp]:
  "holders (f(t := pc)) = (if holds_handle pc then insert t (holders f) else holders f - {t})"
  by (auto simp: holders_def)

lemma in_holders [simp]: "t \<in> holders f \<longleftrightarrow> holds_handle (f t)"
  by (simp add: holders_def)

lemma handles_step: "race_step s s' \<Longrightarrow> handles_inv s \<Longrightarrow> handles_inv s'"
  by (induction rule: race_step.induct)
    (auto simp: handles_inv_def insert_absorb card_insert_if)

lemma owner_active: "owner_inv s \<Longrightarrow> owner s x \<Longrightarrow> active_phase (r_phase s)"
  by (auto simp: owner_inv_def intro: sole_active)

lemma owner_step: "race_step s s' \<Longrightarrow> owner_inv s \<Longrightarrow> owner_inv s'"
proof (induction rule: race_step.induct)
  case (give_win s t p to)
  then show ?case
    by (auto simp: owner_inv_def trigger_target_Inr intro: sole_take sole_keep)
next
  case (give_start s t r)
  then have "active_phase (r_phase s)" by (auto dest: owner_active [of _ "Inl t"])
  with give_start show ?case
    by (auto simp: owner_inv_def intro!: sole_move)
next
  case (run_begin s r)
  then have "active_phase (r_phase s)" by (auto dest: owner_active [of _ "Inr r"])
  with run_begin show ?case
    by (auto simp: owner_inv_def compare_exchange_snd intro!: sole_keep)
next
  case (decided_over s r p)
  then show ?case
    by (auto simp: owner_inv_def intro!: sole_leave)
next
  case (decided_wait s r p)
  then show ?case
    by (auto simp: owner_inv_def intro!: sole_leave)
next
  case (over_load s r)
  then have "active_phase (r_phase s)" by (auto dest: owner_active [of _ "Inr r"])
  with over_load show ?case
    by (auto simp: owner_inv_def intro!: sole_keep)
next
  case (saw_waiting s r)
  then show ?case by (metis owner_inv_def saw_ok.simps(1) active_phase.simps(1))
next
  case (saw_finished s r)
  then show ?case by (metis owner_inv_def saw_ok.simps(1) active_phase.simps(2))
next
  case (saw_givers s r p)
  then have "saw_ok (SawGives p)" by (metis owner_inv_def)
  with saw_givers show ?case
    by (auto simp: owner_inv_def intro!: sole_keep)
qed (auto simp: owner_inv_def intro!: sole_keep)

lemma closes_simps [simp]:
  "closes give run (Inl t) \<longleftrightarrow> give t = LastGone"
  "closes give run (Inr r) \<longleftrightarrow> run r = Recheck \<or> run r = Reclose"
  by (simp_all add: closes_def)

lemma closes_update [simp]:
  "closes (give(t := pc)) run = (closes give run)(Inl t := (pc = LastGone))"
  "closes give (run(r := rpc)) = (closes give run)(Inr r := (rpc = Recheck \<or> rpc = Reclose))"
  by (auto simp: closes_def fun_eq_iff split: sum.splits)

lemma ex_keep: "Ex f \<Longrightarrow> f x = b \<Longrightarrow> Ex (f(x := b))"
  by (simp add: fun_upd_idem)

lemma ex_set: "Ex (f(x := True))"
  by (rule exI [of _ x]) simp

lemma holding_counted: "handles_inv s \<Longrightarrow> holds_handle (r_give s t) \<Longrightarrow> 0 < r_givers s"
  by (auto simp: handles_inv_def card_gt_0_iff)

lemma closer_step:
  "race_step s s' \<Longrightarrow> handles_inv s \<Longrightarrow> owner_inv s \<Longrightarrow> closer_inv s \<Longrightarrow> closer_inv s'"
proof (induction rule: race_step.induct)
  case (drop s t)
  then have "0 < r_givers s" by (auto dest: holding_counted [of _ t])
  with drop show ?case by (auto simp: closer_inv_def intro: ex_set)
next
  case (decided_wait s r p)
  show ?case by (simp add: closer_inv_def ex_set del: fun_upd_apply)
next
  case (give_start s t r)
  then have "0 < r_givers s" by (auto dest: holding_counted [of _ t])
  then show ?case by (simp add: closer_inv_def)
qed (auto simp: closer_inv_def compare_exchange_snd trigger_target_Inr
       simp del: fun_upd_apply intro!: ex_keep)

lemma saw_ok_run: "owner_inv s \<Longrightarrow> r_run s r = pc \<Longrightarrow> saw_ok pc"
  by (auto simp: owner_inv_def)

lemma released_step: "race_step s s' \<Longrightarrow> owner_inv s \<Longrightarrow> released_inv s \<Longrightarrow> released_inv s'"
  by (induction rule: race_step.induct)
    (auto simp: released_inv_def compare_exchange_snd trigger_target_Inr dest!: saw_ok_run)

section \<open>Every reachable state\<close>

lemma race_init_inv:
  "handles_inv (race_init gives series)" "owner_inv (race_init gives series)"
  "closer_inv (race_init gives series)" "released_inv (race_init gives series)"
  by (auto simp: race_init_def handles_inv_def owner_inv_def closer_inv_def released_inv_def
      sole_def owns_def holders_def split: sum.splits)

lemma race_reachable_inv:
  assumes "race_reachable gives series s"
  shows "handles_inv s \<and> owner_inv s \<and> closer_inv s \<and> released_inv s"
  using assms unfolding race_reachable_def
  by (induction rule: rtranclp_induct)
    (auto intro: race_init_inv handles_step owner_step closer_step released_step)

definition race_quiet :: "gate_race \<Rightarrow> bool" where
  "race_quiet s \<longleftrightarrow>
     (\<forall>t. r_give s t = Gone \<or> r_give s t = Holding) \<and> (\<forall>r. r_run s r = NoRun)"

section \<open>A give that is slow to be counted\<close>

lemmas race_chain = leads_step [where step = race_step]

lemmas race_simps = compare_exchange_snd spend_give_step_def u32_MAX_def

text \<open>
  A give that won the exchange and hasn't yet been taken off the count is invisible to a
  run that ends meanwhile: with a limit of two, the gate is back at waiting after the
  second give's run, with one give still to be counted.
\<close>

definition uncounted :: "gate_race \<Rightarrow> bool" where
  "uncounted s \<longleftrightarrow> r_phase s = WAITING \<and> r_left s = 1 \<and> r_taken s = 2 \<and> \<not> r_series s \<and>
     r_give s = (\<lambda>t. if t = 0 then Holding else if t = 1 then Won PENDING else Gone) \<and>
     r_run s = (\<lambda>_. NoRun)"

lemma uncounted_give: "leads race_step (race_init 2 False) uncounted"
  unfolding race_init_def
  apply (rule race_chain [OF race_step.clone [where t = 0 and u = 1]], (simp; fail)+, simp add: race_simps)
  apply (rule race_chain [OF race_step.give_load [where t = 0 and to = QUEUED]], (simp; fail)+, simp add: race_simps)
  apply (rule race_chain [OF race_step.give_check [where t = 0]], (simp; fail)+, simp add: race_simps)
  apply (rule race_chain [OF race_step.give_win [where t = 0 and to = QUEUED]], (simp; fail)+, simp add: race_simps)
  apply (rule race_chain [OF race_step.give_start [where t = 0 and r = 0]], (simp; fail)+, simp add: race_simps)
  apply (rule race_chain [OF race_step.run_begin [where r = 0]], (simp; fail)+, simp add: race_simps)
  apply (rule race_chain [OF race_step.give_load [where t = 1 and to = PENDING]], (simp; fail)+, simp add: race_simps)
  apply (rule race_chain [OF race_step.give_check [where t = 1]], (simp; fail)+, simp add: race_simps)
  apply (rule race_chain [OF race_step.give_win [where t = 1 and to = PENDING]], (simp; fail)+, simp add: race_simps)
  apply (rule race_chain [OF race_step.run_over [where r = 0]], (simp; fail)+, simp add: race_simps)
  apply (rule race_chain [OF race_step.over_load [where r = 0]], (simp; fail)+, simp add: race_simps)
  apply (rule race_chain [OF race_step.saw_again [where r = 0]], (simp; fail)+, simp add: race_simps)
  apply (rule race_chain [OF race_step.run_begin [where r = 0]], (simp; fail)+, simp add: race_simps)
  apply (rule race_chain [OF race_step.run_over [where r = 0]], (simp; fail)+, simp add: race_simps)
  apply (rule race_chain [OF race_step.over_load [where r = 0]], (simp; fail)+, simp add: race_simps)
  apply (rule race_chain [OF race_step.saw_gives [where r = 0]], (simp; fail)+, simp add: race_simps)
  apply (rule race_chain [OF race_step.saw_givers [where r = 0]], (simp; fail)+, simp add: race_simps)
  apply (rule race_chain [OF race_step.decided_wait [where r = 0]], (simp; fail)+, simp add: race_simps)
  apply (rule race_chain [OF race_step.recheck [where r = 0]], (simp; fail)+, simp add: race_simps)
  apply (rule leads_here)
  apply (auto simp: uncounted_def)
  done

text \<open>If that give is counted now, the gate waits with none left; if a third give comes first, it is taken.\<close>

lemma uncounted_stuck: "uncounted s \<Longrightarrow>
   leads race_step s (\<lambda>s. r_left s = 0 \<and> r_phase s = WAITING \<and> race_quiet s)"
  apply (rule race_chain [OF race_step.give_replace [where t = 1]], simp add: uncounted_def)
   apply simp
  apply (rule leads_here)
  apply (auto simp: uncounted_def race_simps race_quiet_def)
  done

lemma uncounted_third: "uncounted s \<Longrightarrow> leads race_step s (\<lambda>s. r_taken s = 3)"
  apply (rule race_chain [OF race_step.give_load [where t = 0 and to = QUEUED]],
      (simp add: uncounted_def; fail)+)
  apply (rule race_chain [OF race_step.give_check [where t = 0]], (simp add: uncounted_def; fail)+)
  apply (rule race_chain [OF race_step.give_win [where t = 0 and to = QUEUED]],
      (simp add: uncounted_def; fail)+)
  apply (rule leads_here)
  apply (simp add: uncounted_def)
  done

section \<open>Properties\<close>

text \<open>
  C4: in every interleaving of gives, runs, cancels, clones and drops, the gate is in an
  active phase exactly when one give that has still to queue its run, or one run, owns
  the task's slot, and there is never a second owner. The arms of \<open>after_run\<close> for a
  gate found waiting or finished are never taken.
\<close>
theorem gate_single_owner:
  assumes "race_reachable gives series s"
  shows "(active_phase (r_phase s) \<longleftrightarrow> (\<exists>x. owner s x)) \<and>
    (\<forall>x y. owner s x \<and> owner s y \<longrightarrow> x = y) \<and>
    (\<forall>r. r_run s r \<noteq> Saw WAITING \<and> r_run s r \<noteq> Saw FINISHED)"
proof -
  from race_reachable_inv [OF assms] have inv: "owner_inv s" by simp
  then have "\<forall>r. r_run s r \<noteq> Saw WAITING \<and> r_run s r \<noteq> Saw FINISHED"
    using saw_ok_run by fastforce
  with inv show ?thesis by (auto simp: owner_inv_def sole_def)
qed

lemma race_init_reachable: "race_reachable gives series (race_init gives series)"
  by (simp add: race_reachable_def)

theorem gate_single_owner_witness:
  "active_phase (r_phase (race_init 3 True)) \<longleftrightarrow> (\<exists>x. owner (race_init 3 True) x)"
  using gate_single_owner [OF race_init_reachable [of 3 True]] by blast

text \<open>
  C5: a waiting task is never orphaned. When no handle that could give is left and
  nothing is under way, the gate is finished, and exactly one of the racing sides was
  told to let the task go.
\<close>
theorem gate_no_orphan:
  assumes "race_reachable gives series s"
    and "\<forall>t. r_give s t = Gone" and "\<forall>r. r_run s r = NoRun"
  shows "r_phase s = FINISHED \<and> r_released s = 1"
proof -
  from race_reachable_inv [OF assms(1)]
  have "handles_inv s" "owner_inv s" "closer_inv s" and rel: "released_inv s" by auto
  with assms have "r_givers s = 0" "\<not> closer s" "\<not> (\<exists>x. owner s x)"
    by (auto simp: handles_inv_def holders_def closes_def owns_def split: sum.splits)
  with \<open>owner_inv s\<close> \<open>closer_inv s\<close> have "r_phase s \<noteq> WAITING" "\<not> active_phase (r_phase s)"
    by (auto simp: closer_inv_def owner_inv_def sole_def)
  then have "r_phase s = FINISHED" by (cases "r_phase s") auto
  with rel show ?thesis by (simp add: released_inv_def)
qed

lemma drop_to_end:
  "race_reachable 1 False (let_go (set_give 0 Gone ((set_give 0 LastGone
     ((race_init 1 False)\<lparr>r_givers := 0\<rparr>))\<lparr>r_phase := FINISHED\<rparr>)))"
proof -
  have "race_step (race_init 1 False) (set_give 0 LastGone ((race_init 1 False)\<lparr>r_givers := 0\<rparr>))"
    using race_step.drop [of "race_init 1 False" 0] by (simp add: race_init_def)
  moreover have "race_step (set_give 0 LastGone ((race_init 1 False)\<lparr>r_givers := 0\<rparr>))
     (let_go (set_give 0 Gone ((set_give 0 LastGone
       ((race_init 1 False)\<lparr>r_givers := 0\<rparr>))\<lparr>r_phase := FINISHED\<rparr>)))"
    by (rule race_step.last_closes) (simp_all add: race_init_def)
  ultimately show ?thesis
    unfolding race_reachable_def by (rule rtranclp.rtrancl_into_rtrancl [OF r_into_rtranclp])
qed

theorem gate_no_orphan_witness:
  "r_released (let_go (set_give 0 Gone ((set_give 0 LastGone
     ((race_init 1 False)\<lparr>r_givers := 0\<rparr>))\<lparr>r_phase := FINISHED\<rparr>))) = 1"
  using gate_no_orphan [OF drop_to_end] by (simp add: race_init_def)

text \<open>
  C36: the limit on gives is not kept under races. With a limit of two, an interleaving
  takes a third give, and another leaves the gate waiting for ever with no give left
  and nothing under way, because a give is counted after the exchange that takes it.
\<close>
theorem gate_count_races:
  "leads race_step (race_init 2 False) (\<lambda>s. r_taken s = 3) \<and>
   leads race_step (race_init 2 False) (\<lambda>s. r_left s = 0 \<and> r_phase s = WAITING \<and> race_quiet s)"
  using leads_trans [OF uncounted_give uncounted_third]
    leads_trans [OF uncounted_give uncounted_stuck] by simp

end
