(* ===== verification/Receivers.thy ===== *)
theory Receivers
  imports Atap_States "HOL-Library.Multiset"
begin

text \<open>
  \<open>src/modules/receivers.rs\<close>: every registration on a task's outputs, and the walk that
  hands each output to them. The far end of a registration is a \<open>Forward\<close> object; what
  its code does is a parameter: \<open>panics f v\<close> says that handing \<open>v\<close> to \<open>f\<close> unwinds, and
  \<open>finished f\<close> is what \<open>f\<close> answers when asked. What a walk does to the far ends is
  returned as the list of calls it makes, in order.

  The task the walk reads from is seen through its \<open>view\<close>: \<open>Some v\<close> when \<open>enter_read\<close>
  succeeds and the payload holds \<open>v\<close>, \<open>None\<close> when it doesn't.
\<close>

definition LOCKED :: u8 where "LOCKED = 1"
definition REWALK :: u8 where "REWALK = 2"
definition CLOSED :: u8 where "CLOSED = 4"
definition NONE_HANDED :: u64 where "NONE_HANDED = - 1"

record 'f node =
  n_handed :: u64
  n_forward :: 'f

record 'f receivers =
  rc_head :: "'f node list"
  rc_generation :: u64
  rc_flags :: u8

datatype ('f, 'v) far_call = Deliver 'f 'v | FailFar 'f | LetGo 'f

definition receivers_new :: "'f receivers" where
  "receivers_new = \<lparr>rc_head = [], rc_generation = 0, rc_flags = 0\<rparr>"

definition flag_set :: "u8 \<Rightarrow> 'f receivers \<Rightarrow> bool" where
  "flag_set bits r \<longleftrightarrow> rc_flags r AND bits \<noteq> 0"

definition fetch_or :: "u8 \<Rightarrow> 'f receivers \<Rightarrow> 'f receivers" where
  "fetch_or bits r = r\<lparr>rc_flags := rc_flags r OR bits\<rparr>"

definition fetch_and_not :: "u8 \<Rightarrow> 'f receivers \<Rightarrow> 'f receivers" where
  "fetch_and_not bits r = r\<lparr>rc_flags := rc_flags r AND NOT bits\<rparr>"

definition note_output :: "'f receivers \<Rightarrow> 'f receivers" where
  "note_output r = r\<lparr>rc_generation := rc_generation r + 1\<rparr>"

section \<open>One pass over the registrations\<close>

definition unseen :: "u64 \<Rightarrow> 'f node \<Rightarrow> bool" where
  "unseen generation n \<longleftrightarrow> n_handed n = NONE_HANDED \<or> n_handed n < generation"

definition visit ::
  "('f \<Rightarrow> 'v \<Rightarrow> bool) \<Rightarrow> ('f \<Rightarrow> bool) \<Rightarrow> 'v option \<Rightarrow> u64 \<Rightarrow> bool \<Rightarrow> 'f node
    \<Rightarrow> bool \<times> 'f node \<times> ('f, 'v) far_call list" where
  "visit panics finished view generation closed n =
     (case view of
        Some v \<Rightarrow>
          if unseen generation n then
            (let n' = n\<lparr>n_handed := generation\<rparr> in
             if panics (n_forward n) v
             then (False, n', [Deliver (n_forward n) v, FailFar (n_forward n)])
             else (\<not> closed \<and> \<not> finished (n_forward n), n', [Deliver (n_forward n) v]))
          else (\<not> closed \<and> \<not> finished (n_forward n), n, [])
      | None \<Rightarrow> (\<not> closed \<and> \<not> finished (n_forward n), n, []))"

text \<open>The kept nodes are linked in front of one another, so they come back reversed.\<close>

fun pass_nodes ::
  "('f \<Rightarrow> 'v \<Rightarrow> bool) \<Rightarrow> ('f \<Rightarrow> bool) \<Rightarrow> 'v option \<Rightarrow> u64 \<Rightarrow> bool \<Rightarrow> 'f node list \<Rightarrow> 'f node list
    \<Rightarrow> 'f node list \<times> ('f, 'v) far_call list" where
  "pass_nodes panics finished view generation closed kept [] = (kept, [])"
| "pass_nodes panics finished view generation closed kept (n # ns) =
     (let (keep, n', calls) = visit panics finished view generation closed n in
      if keep then
        (let (kept', more) = pass_nodes panics finished view generation closed (n' # kept) ns
         in (kept', calls @ more))
      else
        (let (kept', more) = pass_nodes panics finished view generation closed kept ns
         in (kept', calls @ LetGo (n_forward n) # more)))"

definition pass ::
  "('f \<Rightarrow> 'v \<Rightarrow> bool) \<Rightarrow> ('f \<Rightarrow> bool) \<Rightarrow> 'v option \<Rightarrow> 'f receivers
    \<Rightarrow> 'f receivers \<times> ('f, 'v) far_call list" where
  "pass panics finished view r =
     (let closed = flag_set CLOSED r in
      case rc_head r of
        [] \<Rightarrow> (r, [])
      | nodes \<Rightarrow>
          (let (kept, calls) = pass_nodes panics finished view (rc_generation r) closed [] nodes
           in (r\<lparr>rc_head := kept\<rparr>, calls)))"

section \<open>Walks\<close>

text \<open>
  What other threads do meanwhile: registrations they push, an output they note, flags they
  raise, and the view the next pass reads through. While a pass is under way the head is
  empty, so what is pushed ends up behind what the pass kept; in the window between the
  last look at the flags and letting go of the lock it goes in front. A rewalk asked for in
  that window is seen after the lock is gone, and the walk, or whoever took the lock
  first, passes again.
\<close>

record ('f, 'v) meanwhile =
  mw_pushed :: "'f node list"
  mw_noted :: bool
  mw_flags :: u8
  mw_view :: "'v option"

definition noted_meanwhile :: "('f, 'v) meanwhile \<Rightarrow> 'f receivers \<Rightarrow> 'f receivers" where
  "noted_meanwhile m r =
     r\<lparr>rc_generation := rc_generation r + (if mw_noted m then 1 else 0),
       rc_flags := rc_flags r OR (mw_flags m AND (REWALK OR CLOSED))\<rparr>"

definition during_pass :: "('f, 'v) meanwhile \<Rightarrow> 'f receivers \<Rightarrow> 'f receivers" where
  "during_pass m r = noted_meanwhile m (r\<lparr>rc_head := rc_head r @ mw_pushed m\<rparr>)"

definition before_unlock :: "('f, 'v) meanwhile \<Rightarrow> 'f receivers \<Rightarrow> 'f receivers" where
  "before_unlock m r = noted_meanwhile m (r\<lparr>rc_head := mw_pushed m @ rc_head r\<rparr>)"

fun walk_passes ::
  "('f \<Rightarrow> 'v \<Rightarrow> bool) \<Rightarrow> ('f \<Rightarrow> bool) \<Rightarrow> ('f, 'v) meanwhile list \<Rightarrow> 'v option \<Rightarrow> 'f receivers
    \<Rightarrow> 'f receivers \<times> ('f, 'v) far_call list" where
  "walk_passes panics finished [] view r =
     (if flag_set REWALK r then pass panics finished view (fetch_and_not REWALK r) else (r, []))"
| "walk_passes panics finished (m # ms) view r =
     (if flag_set REWALK r then
        (let (r1, calls) = pass panics finished view (fetch_and_not REWALK r);
             (r2, more) = walk_passes panics finished ms (mw_view m) (during_pass m r1)
         in (r2, calls @ more))
      else
        (let r1 = before_unlock m r
         in if flag_set REWALK r1 then walk_passes panics finished ms (mw_view m) r1 else (r1, [])))"

definition walk ::
  "('f \<Rightarrow> 'v \<Rightarrow> bool) \<Rightarrow> ('f \<Rightarrow> bool) \<Rightarrow> ('f, 'v) meanwhile list \<Rightarrow> 'v option \<Rightarrow> 'f receivers
    \<Rightarrow> 'f receivers \<times> ('f, 'v) far_call list" where
  "walk panics finished ms view r =
     (let r0 = fetch_or REWALK r in
      if rc_head r0 = [] \<and> \<not> flag_set LOCKED r0 then (r0, [])
      else if flag_set LOCKED r0 then (r0, [])
      else
        (let (r1, calls) = walk_passes panics finished ms view (fetch_or LOCKED r0)
         in (fetch_and_not LOCKED r1, calls)))"

definition register ::
  "('f \<Rightarrow> 'v \<Rightarrow> bool) \<Rightarrow> ('f \<Rightarrow> bool) \<Rightarrow> ('f, 'v) meanwhile list \<Rightarrow> bool \<Rightarrow> 'v option \<Rightarrow> 'f
    \<Rightarrow> 'f receivers \<Rightarrow> 'f receivers \<times> ('f, 'v) far_call list" where
  "register panics finished ms nothing_more view f r =
     (let r0 = r\<lparr>rc_head := \<lparr>n_handed = NONE_HANDED, n_forward = f\<rparr> # rc_head r\<rparr>;
          r1 = if nothing_more then fetch_or CLOSED r0 else r0
      in walk panics finished ms view r1)"

definition close ::
  "('f \<Rightarrow> 'v \<Rightarrow> bool) \<Rightarrow> ('f \<Rightarrow> bool) \<Rightarrow> ('f, 'v) meanwhile list \<Rightarrow> 'v option
    \<Rightarrow> 'f receivers \<Rightarrow> 'f receivers \<times> ('f, 'v) far_call list" where
  "close panics finished ms view r =
     walk panics finished ms view (fetch_or (CLOSED OR REWALK) r)"

definition drop_receivers :: "'f receivers \<Rightarrow> ('f, 'v) far_call list" where
  "drop_receivers r = map (\<lambda>n. LetGo (n_forward n)) (rc_head r)"

section \<open>What a pass hands out, keeps and lets go\<close>

text \<open>The values handed to one far end, and the far ends let go, in a list of calls.\<close>

fun handed_to :: "'f \<Rightarrow> ('f, 'v) far_call list \<Rightarrow> 'v list" where
  "handed_to f [] = []"
| "handed_to f (Deliver g v # cs) = (if g = f then [v] else []) @ handed_to f cs"
| "handed_to f (c # cs) = handed_to f cs"

fun let_go_of :: "('f, 'v) far_call list \<Rightarrow> 'f list" where
  "let_go_of [] = []"
| "let_go_of (LetGo f # cs) = f # let_go_of cs"
| "let_go_of (c # cs) = let_go_of cs"

lemma handed_to_append [simp]: "handed_to f (as @ bs) = handed_to f as @ handed_to f bs"
  by (induction as rule: handed_to.induct) auto

lemma let_go_of_append [simp]: "let_go_of (as @ bs) = let_go_of as @ let_go_of bs"
  by (induction as rule: let_go_of.induct) auto

lemma visit_forward [simp]:
  "n_forward (fst (snd (visit panics finished view generation closed n))) = n_forward n"
  by (simp add: visit_def Let_def split: option.splits)

lemma visit_let_go [simp]:
  "let_go_of (snd (snd (visit panics finished view generation closed n))) = []"
  by (simp add: visit_def Let_def split: option.splits)

lemma visit_handed [simp]:
  "handed_to f (snd (snd (visit panics finished view generation closed n))) =
     (if n_forward n = f \<and> unseen generation n then (case view of None \<Rightarrow> [] | Some v \<Rightarrow> [v]) else [])"
  by (simp add: visit_def Let_def split: option.splits)

lemma visit_closed: "\<not> fst (visit panics finished view generation True n)"
  by (simp add: visit_def Let_def split: option.splits)

lemma visit_kept:
  "\<not> finished (n_forward n) \<Longrightarrow> (\<And>v. \<not> panics (n_forward n) v) \<Longrightarrow>
   fst (visit panics finished view generation False n)"
  by (simp add: visit_def Let_def split: option.splits)

lemma visit_marks:
  "fst (snd (visit panics finished view generation closed n)) =
     (if view \<noteq> None \<and> unseen generation n then n\<lparr>n_handed := generation\<rparr> else n)"
  by (simp add: visit_def Let_def split: option.splits)

lemma pass_nodes_conserve:
  "mset (map n_forward (fst (pass_nodes panics finished view generation closed kept ns))) +
   mset (let_go_of (snd (pass_nodes panics finished view generation closed kept ns))) =
   mset (map n_forward kept) + mset (map n_forward ns)"
  by (induction ns arbitrary: kept) (simp_all add: Let_def split_beta)

lemma pass_nodes_handed:
  "handed_to f (snd (pass_nodes panics finished view generation closed kept ns)) =
   concat (map (\<lambda>n. if n_forward n = f \<and> unseen generation n
     then (case view of None \<Rightarrow> [] | Some v \<Rightarrow> [v]) else []) ns)"
  by (induction ns arbitrary: kept) (simp_all add: Let_def split_beta)

lemma pass_nodes_closed: "fst (pass_nodes panics finished view generation True kept ns) = kept"
  by (induction ns arbitrary: kept) (simp_all add: Let_def split_beta visit_closed)

text \<open>What is kept was there before, marked with the generation when it was readable.\<close>

definition mark :: "'v option \<Rightarrow> u64 \<Rightarrow> 'f node \<Rightarrow> 'f node" where
  "mark view generation n =
     (if view \<noteq> None \<and> unseen generation n then n\<lparr>n_handed := generation\<rparr> else n)"

lemma pass_nodes_kept:
  "set (fst (pass_nodes panics finished view generation closed kept ns)) \<subseteq>
   set kept \<union> mark view generation ` set ns"
proof (induction ns arbitrary: kept)
  case (Cons m ns)
  have "fst (snd (visit panics finished view generation closed m)) = mark view generation m"
    by (simp add: visit_marks mark_def)
  with Cons [of kept] Cons [of "mark view generation m # kept"] show ?case
    by (auto simp: Let_def split_beta)
qed simp

text \<open>A far end that never finishes or panics keeps every registration it has.\<close>

lemma pass_nodes_keeps:
  assumes "\<not> finished f" and "\<And>v. \<not> panics f v"
  shows "length (filter (\<lambda>n. n_forward n = f)
      (fst (pass_nodes panics finished view generation False kept ns))) =
    length (filter (\<lambda>n. n_forward n = f) kept) + length (filter (\<lambda>n. n_forward n = f) ns)"
proof (induction ns arbitrary: kept)
  case (Cons m ns)
  then show ?case
    using visit_kept [of finished m panics view generation] assms
    by (simp add: Let_def split_beta)
qed simp

section \<open>Flags\<close>

lemma flag_set_or [simp]: "flag_set b (fetch_or c r) \<longleftrightarrow> flag_set b r \<or> c AND b \<noteq> 0"
  by (simp add: flag_set_def fetch_or_def or_eq_0_iff bit.conj_disj_distrib2)

lemma flag_set_cleared [simp]: "\<not> flag_set b (fetch_and_not b r)"
  by (simp add: flag_set_def fetch_and_not_def and.assoc)

lemma flag_set_other [simp]: "c AND b = 0 \<Longrightarrow> flag_set b (fetch_and_not c r) \<longleftrightarrow> flag_set b r"
proof -
  assume "c AND b = 0"
  then have "\<not> (bit c n \<and> bit b n)" for n
    by (metis bit_and_iff bit_0_eq bot_apply bot_bool_def)
  then have "NOT c AND b = b"
    by (intro bit_eqI) (auto simp: bit_simps)
  then show ?thesis by (simp add: flag_set_def fetch_and_not_def and.assoc)
qed

lemma flags_apart [simp]:
  "LOCKED AND REWALK = 0" "LOCKED AND CLOSED = 0" "REWALK AND LOCKED = 0" "REWALK AND CLOSED = 0"
  "CLOSED AND LOCKED = 0" "CLOSED AND REWALK = 0" "LOCKED \<noteq> 0"
  "REWALK \<noteq> 0" "CLOSED \<noteq> 0" "(CLOSED OR REWALK) AND REWALK \<noteq> 0"
  "(CLOSED OR REWALK) AND CLOSED \<noteq> 0" "(CLOSED OR REWALK) AND LOCKED = 0"
  by (simp_all add: LOCKED_def REWALK_def CLOSED_def)

lemma receivers_frame [simp]:
  "rc_head (fetch_or b r) = rc_head r" "rc_head (fetch_and_not b r) = rc_head r"
  "rc_generation (fetch_or b r) = rc_generation r"
  "rc_generation (fetch_and_not b r) = rc_generation r"
  "flag_set b (r\<lparr>rc_head := h\<rparr>) = flag_set b r"
  "flag_set b (r\<lparr>rc_generation := g\<rparr>) = flag_set b r"
  by (simp_all add: fetch_or_def fetch_and_not_def flag_set_def)

section \<open>Walks and registrations\<close>

lemma pass_eq:
  "pass panics finished view r =
     (r\<lparr>rc_head := fst (pass_nodes panics finished view (rc_generation r) (flag_set CLOSED r) [] (rc_head r))\<rparr>,
      snd (pass_nodes panics finished view (rc_generation r) (flag_set CLOSED r) [] (rc_head r)))"
  by (cases "rc_head r") (simp_all add: pass_def Let_def split_beta)

lemma pass_flags [simp]:
  "flag_set b (fst (pass panics finished view r)) = flag_set b r"
  "rc_generation (fst (pass panics finished view r)) = rc_generation r"
  by (simp_all add: pass_eq)

lemma pass_conserve:
  "mset (map n_forward (rc_head (fst (pass panics finished view r)))) +
   mset (let_go_of (snd (pass panics finished view r))) = mset (map n_forward (rc_head r))"
  using pass_nodes_conserve [of panics finished view "rc_generation r" "flag_set CLOSED r" "[]" "rc_head r"]
  by (simp add: pass_eq)

text \<open>The registrations that others push while a walk is under way.\<close>

fun pushed_during ::
  "('f \<Rightarrow> 'v \<Rightarrow> bool) \<Rightarrow> ('f \<Rightarrow> bool) \<Rightarrow> ('f, 'v) meanwhile list \<Rightarrow> 'v option \<Rightarrow> 'f receivers
    \<Rightarrow> 'f list" where
  "pushed_during panics finished [] view r = []"
| "pushed_during panics finished (m # ms) view r =
     map n_forward (mw_pushed m) @
     (if flag_set REWALK r then
        pushed_during panics finished ms (mw_view m)
          (during_pass m (fst (pass panics finished view (fetch_and_not REWALK r))))
      else
        (let r1 = before_unlock m r in
         if flag_set REWALK r1 then pushed_during panics finished ms (mw_view m) r1 else []))"

lemma head_meanwhile [simp]:
  "rc_head (during_pass m r) = rc_head r @ mw_pushed m"
  "rc_head (before_unlock m r) = mw_pushed m @ rc_head r"
  by (simp_all add: during_pass_def before_unlock_def noted_meanwhile_def)

lemma add_shuffle:
  "A + B = H \<Longrightarrow> K + L = A + P + Q \<Longrightarrow> K + (B + L) = H + (P + Q)" for A :: "'a multiset"
proof -
  assume AB: "A + B = H" and KL: "K + L = A + P + Q"
  have "K + (B + L) = (K + L) + B" by (simp add: ac_simps)
  also have "\<dots> = (A + B) + (P + Q)" by (simp add: KL ac_simps)
  finally show ?thesis by (simp add: AB)
qed

lemma walk_passes_conserve:
  "mset (map n_forward (rc_head (fst (walk_passes panics finished ms view r)))) +
   mset (let_go_of (snd (walk_passes panics finished ms view r))) =
   mset (map n_forward (rc_head r)) + mset (pushed_during panics finished ms view r)"
proof (induction ms arbitrary: view r)
  case Nil
  show ?case using pass_conserve [of panics finished view "fetch_and_not REWALK r"] by simp
next
  case (Cons m ms)
  let ?p = "pass panics finished view (fetch_and_not REWALK r)"
  show ?case
  proof (cases "flag_set REWALK r")
    case True
    have "mset (map n_forward (rc_head (fst ?p))) + mset (let_go_of (snd ?p)) =
        mset (map n_forward (rc_head r))"
      using pass_conserve [of panics finished view "fetch_and_not REWALK r"] by simp
    from add_shuffle [OF this, of _ _ "mset (map n_forward (mw_pushed m))"]
      Cons.IH [of "mw_view m" "during_pass m (fst ?p)"] True
    show ?thesis by (simp add: Let_def split_beta)
  next
    case False
    with Cons.IH [of "mw_view m" "before_unlock m r"] show ?thesis
      by (simp add: Let_def split_beta)
  qed
qed

text \<open>An undisturbed walk is one pass over everything registered.\<close>

lemma walk_undisturbed:
  assumes "\<not> flag_set LOCKED r"
  shows "rc_head (fst (walk panics finished [] view r)) =
      fst (pass_nodes panics finished view (rc_generation r) (flag_set CLOSED r) [] (rc_head r))"
    and "snd (walk panics finished [] view r) =
      snd (pass_nodes panics finished view (rc_generation r) (flag_set CLOSED r) [] (rc_head r))"
    and "rc_generation (fst (walk panics finished [] view r)) = rc_generation r"
    and "\<not> flag_set LOCKED (fst (walk panics finished [] view r))"
    and "flag_set CLOSED (fst (walk panics finished [] view r)) = flag_set CLOSED r"
  using assms by (auto simp: walk_def Let_def split_beta pass_eq)

section \<open>Every output once\<close>

text \<open>
  The life of a task as its registrations see it: it publishes, which is a note, a readable
  output and a walk; somebody registers; or its output stops being readable, because it was
  taken or because the next run began.
\<close>

datatype ('f, 'v) rc_event = Publish 'v | Register 'f | Unreadable

fun rc_do ::
  "('f \<Rightarrow> 'v \<Rightarrow> bool) \<Rightarrow> ('f \<Rightarrow> bool) \<Rightarrow> ('f, 'v) rc_event \<Rightarrow> 'f receivers \<times> 'v option
    \<Rightarrow> ('f receivers \<times> 'v option) \<times> ('f, 'v) far_call list" where
  "rc_do panics finished (Publish v) (r, view) =
     (let (r1, calls) = walk panics finished [] (Some v) (note_output r) in ((r1, Some v), calls))"
| "rc_do panics finished (Register f) (r, view) =
     (let (r1, calls) = register panics finished [] False view f r in ((r1, view), calls))"
| "rc_do panics finished Unreadable (r, view) = ((r, None), [])"

fun rc_run ::
  "('f \<Rightarrow> 'v \<Rightarrow> bool) \<Rightarrow> ('f \<Rightarrow> bool) \<Rightarrow> ('f, 'v) rc_event list \<Rightarrow> 'f receivers \<times> 'v option
    \<Rightarrow> ('f, 'v) far_call list" where
  "rc_run panics finished [] s = []"
| "rc_run panics finished (e # es) s =
     (let (s1, calls) = rc_do panics finished e s in calls @ rc_run panics finished es s1)"

text \<open>What one far end is owed: what was readable when it registered, and everything after.\<close>

fun owed :: "'f \<Rightarrow> bool \<Rightarrow> 'v option \<Rightarrow> ('f, 'v) rc_event list \<Rightarrow> 'v list" where
  "owed f registered view [] = []"
| "owed f registered view (Publish v # es) =
     (if registered then [v] else []) @ owed f registered (Some v) es"
| "owed f registered view (Register g # es) =
     (if g = f then (case view of None \<Rightarrow> [] | Some v \<Rightarrow> [v]) else []) @
     owed f (registered \<or> g = f) view es"
| "owed f registered view (Unreadable # es) = owed f registered None es"

fun publishes :: "('f, 'v) rc_event list \<Rightarrow> nat" where
  "publishes [] = 0"
| "publishes (Publish v # es) = Suc (publishes es)"
| "publishes (e # es) = publishes es"

fun registers_of :: "'f \<Rightarrow> ('f, 'v) rc_event list \<Rightarrow> nat" where
  "registers_of f [] = 0"
| "registers_of f (Register g # es) = (if g = f then 1 else 0) + registers_of f es"
| "registers_of f (e # es) = registers_of f es"

definition node_ok :: "'v option \<Rightarrow> u64 \<Rightarrow> 'f node \<Rightarrow> bool" where
  "node_ok view g n \<longleftrightarrow>
     (if view = None then n_handed n = NONE_HANDED \<or> n_handed n \<le> g else n_handed n = g)"

definition rc_ok :: "'f receivers \<Rightarrow> 'v option \<Rightarrow> bool" where
  "rc_ok r view \<longleftrightarrow> \<not> flag_set LOCKED r \<and> \<not> flag_set CLOSED r \<and>
     (\<forall>n\<in>set (rc_head r). node_ok view (rc_generation r) n)"

definition count_of :: "'f \<Rightarrow> 'f receivers \<Rightarrow> nat" where
  "count_of f r = length (filter (\<lambda>n. n_forward n = f) (rc_head r))"

lemma concat_replicate_filter:
  "(\<And>n. n \<in> set ns \<Longrightarrow> P n) \<Longrightarrow>
   concat (map (\<lambda>n. if n_forward n = f \<and> P n then xs else []) ns) =
   concat (replicate (length (filter (\<lambda>n. n_forward n = f) ns)) xs)"
  by (induction ns) auto

lemma note_output_simps [simp]:
  "rc_generation (note_output r) = rc_generation r + 1" "rc_head (note_output r) = rc_head r"
  "flag_set b (note_output r) = flag_set b r"
  by (simp_all add: note_output_def flag_set_def)

lemma node_ok_unseen:
  assumes "node_ok view g n" and "unat g < 2 ^ 64 - 2"
  shows "unseen (g + 1) n"
proof -
  have "g < g + 1" using assms(2) by (simp add: word_less_nat_alt unat_plus_one)
  with assms(1) show ?thesis by (auto simp: node_ok_def unseen_def split: if_splits)
qed

lemma mark_ok: "unseen g n \<Longrightarrow> node_ok (Some v) g (mark (Some v) g n)"
  by (simp add: mark_def node_ok_def)

lemma walk_marks_all:
  assumes "\<not> flag_set LOCKED r" "\<not> flag_set CLOSED r"
    and "\<forall>n\<in>set (rc_head r). unseen (rc_generation r) n \<or> n_handed n = rc_generation r"
  shows "rc_ok (fst (walk panics finished [] (Some v) r)) (Some v)"
proof -
  have "node_ok (Some v) (rc_generation r) (mark (Some v) (rc_generation r) n)"
    if "n \<in> set (rc_head r)" for n
    using assms(3) that by (auto simp: mark_def node_ok_def)
  with pass_nodes_kept [of panics finished "Some v" "rc_generation r" False "[]" "rc_head r"] assms
  show ?thesis by (auto simp: rc_ok_def walk_undisturbed)
qed

lemma walk_unreadable:
  fixes view :: "'v option"
  assumes "rc_ok r view" and "view = None"
  shows "rc_ok (fst (walk panics finished [] view r)) view"
  using pass_nodes_kept [of panics finished view "rc_generation r" False "[]" "rc_head r"] assms
  by (auto simp: rc_ok_def walk_undisturbed mark_def)

lemma walk_count:
  assumes "\<not> flag_set LOCKED r" "\<not> flag_set CLOSED r" "\<not> finished f" "\<And>v. \<not> panics f v"
  shows "count_of f (fst (walk panics finished [] view r)) = count_of f r"
  using pass_nodes_keeps [of finished f panics, OF assms(3,4)] assms(1,2)
  by (simp add: count_of_def walk_undisturbed)

lemma publish_step:
  assumes ok: "rc_ok r view" and g: "unat (rc_generation r) < 2 ^ 64 - 2"
    and f: "\<not> finished f" "\<And>v. \<not> panics f v"
  shows "rc_ok (fst (walk panics finished [] (Some v) (note_output r))) (Some v)"
    and "count_of f (fst (walk panics finished [] (Some v) (note_output r))) = count_of f r"
    and "handed_to f (snd (walk panics finished [] (Some v) (note_output r))) =
      replicate (count_of f r) v"
    and "unat (rc_generation (fst (walk panics finished [] (Some v) (note_output r)))) =
      Suc (unat (rc_generation r))"
proof -
  have unseen: "\<forall>n\<in>set (rc_head r). unseen (rc_generation r + 1) n"
    using ok g node_ok_unseen by (auto simp: rc_ok_def)
  then show "rc_ok (fst (walk panics finished [] (Some v) (note_output r))) (Some v)"
    using ok by (intro walk_marks_all) (auto simp: rc_ok_def)
  show "count_of f (fst (walk panics finished [] (Some v) (note_output r))) = count_of f r"
    using walk_count [of "note_output r" finished f panics "Some v"] ok f
    by (simp add: rc_ok_def count_of_def)
  show "handed_to f (snd (walk panics finished [] (Some v) (note_output r))) =
      replicate (count_of f r) v"
    using ok unseen
    by (simp add: rc_ok_def walk_undisturbed pass_nodes_handed concat_replicate_filter count_of_def)
  show "unat (rc_generation (fst (walk panics finished [] (Some v) (note_output r)))) =
      Suc (unat (rc_generation r))"
    using ok g by (simp add: rc_ok_def walk_undisturbed unat_plus_one)
qed

lemma seen_once: "unat g < 2 ^ 64 - 1 \<Longrightarrow> n_handed n = g \<Longrightarrow> \<not> unseen g n"
  by (auto simp: unseen_def NONE_HANDED_def unsigned_minus_1_eq_mask mask_eq_exp_minus_1)

lemma unseen_fresh [simp]: "unseen g \<lparr>n_handed = NONE_HANDED, n_forward = f\<rparr>"
  by (simp add: unseen_def)

lemma register_step:
  fixes view :: "'v option"
  assumes ok: "rc_ok r view" and g: "unat (rc_generation r) < 2 ^ 64 - 1"
    and f: "\<not> finished f" "\<And>v. \<not> panics f v"
  shows "rc_ok (fst (register panics finished [] False view h r)) view"
    and "count_of f (fst (register panics finished [] False view h r)) =
      (if h = f then 1 else 0) + count_of f r"
    and "handed_to f (snd (register panics finished [] False view h r)) =
      (if h = f then (case view of None \<Rightarrow> [] | Some v \<Rightarrow> [v]) else [])"
    and "rc_generation (fst (register panics finished [] False view h r)) = rc_generation r"
proof -
  let ?r = "r\<lparr>rc_head := \<lparr>n_handed = NONE_HANDED, n_forward = h\<rparr> # rc_head r\<rparr>"
  have reg: "register panics finished [] False view h r = walk panics finished [] view ?r"
    by (simp add: register_def)
  from ok have idle: "\<not> flag_set LOCKED ?r" "\<not> flag_set CLOSED ?r" by (simp_all add: rc_ok_def)
  show "rc_ok (fst (register panics finished [] False view h r)) view"
  proof (cases view)
    case None
    with ok have "rc_ok ?r view" by (simp add: rc_ok_def node_ok_def)
    with None show ?thesis unfolding reg by (simp add: walk_unreadable)
  next
    case (Some v)
    with ok idle show ?thesis unfolding reg
      by (simp, intro walk_marks_all) (auto simp: rc_ok_def node_ok_def)
  qed
  show "count_of f (fst (register panics finished [] False view h r)) =
      (if h = f then 1 else 0) + count_of f r"
    unfolding reg using walk_count [of ?r finished f panics view] idle f by (simp add: count_of_def)
  have old: "concat (map (\<lambda>n. if n_forward n = f \<and> unseen (rc_generation r) n
      then (case view of None \<Rightarrow> [] | Some v \<Rightarrow> [v]) else []) (rc_head r)) = []"
    using ok g seen_once by (cases view) (auto simp: rc_ok_def node_ok_def)
  show "handed_to f (snd (register panics finished [] False view h r)) =
      (if h = f then (case view of None \<Rightarrow> [] | Some v \<Rightarrow> [v]) else [])"
    unfolding reg using idle old
    by (simp add: walk_undisturbed pass_nodes_handed del: pass_nodes.simps concat_eq_Nil_conv)
  show "rc_generation (fst (register panics finished [] False view h r)) = rc_generation r"
    unfolding reg using idle by (simp add: walk_undisturbed)
qed

lemma rc_run_handed:
  assumes "\<not> finished f" "\<And>v. \<not> panics f v"
  shows "rc_ok r view \<Longrightarrow> unat (rc_generation r) + publishes es < 2 ^ 64 - 1 \<Longrightarrow>
    count_of f r + registers_of f es \<le> 1 \<Longrightarrow>
    handed_to f (rc_run panics finished es (r, view)) = owed f (count_of f r = 1) view es"
proof (induction es arbitrary: r view)
  case Nil
  show ?case by simp
next
  case (Cons e es)
  show ?case
  proof (cases e)
    case (Publish v)
    with Cons assms publish_step [of r view finished f panics v] show ?thesis
      by (auto simp: split_beta le_Suc_eq)
  next
    case (Register h)
    with Cons assms register_step [of r view finished f panics h] show ?thesis
      by (auto simp: split_beta)
  next
    case Unreadable
    from Cons.prems(1) have "rc_ok r (None :: 'b option)"
      by (auto simp: rc_ok_def node_ok_def split: if_splits)
    with Unreadable Cons show ?thesis by simp
  qed
qed

lemma rc_ok_new: "rc_ok receivers_new view"
  by (simp add: rc_ok_def receivers_new_def flag_set_def)



text \<open>
  whatever other threads push, note or ask for while a walk is under way, no
  registration is lost, doubled or let go twice: those kept and those let go are together
  exactly those there were and those pushed meanwhile.
\<close>
theorem receivers_conserved:
  assumes "\<not> flag_set LOCKED r" and "rc_head r \<noteq> []"
  shows "mset (map n_forward (rc_head (fst (walk panics finished ms view r)))) +
    mset (let_go_of (snd (walk panics finished ms view r))) =
    mset (map n_forward (rc_head r)) +
    mset (pushed_during panics finished ms view (fetch_or LOCKED (fetch_or REWALK r)))"
  using walk_passes_conserve [of panics finished ms view "fetch_or LOCKED (fetch_or REWALK r)"] assms
  by (simp add: walk_def Let_def split_beta)

theorem receivers_conserved_witness:
  "mset (map n_forward (rc_head (fst (walk (\<lambda>f v. f = 8) (\<lambda>f. False) [] (Some (5 :: nat))
      \<lparr>rc_head = [\<lparr>n_handed = 0, n_forward = 7\<rparr>, \<lparr>n_handed = 0, n_forward = 8 :: nat\<rparr>],
       rc_generation = 1, rc_flags = 0\<rparr>)))) +
    mset (let_go_of (snd (walk (\<lambda>f v. f = 8) (\<lambda>f. False) [] (Some (5 :: nat))
      \<lparr>rc_head = [\<lparr>n_handed = 0, n_forward = 7\<rparr>, \<lparr>n_handed = 0, n_forward = 8 :: nat\<rparr>],
       rc_generation = 1, rc_flags = 0\<rparr>))) = {#7, 8#}"
  using receivers_conserved [of "\<lparr>rc_head = [\<lparr>n_handed = 0, n_forward = 7\<rparr>, \<lparr>n_handed = 0, n_forward = 8\<rparr>],
       rc_generation = 1, rc_flags = 0\<rparr>" "\<lambda>f v. f = 8" "\<lambda>f. False" "[]" "Some 5"]
  by (simp add: flag_set_def)

text \<open>
  closing an idle set of registrations hands each of them what it hasn't seen of the
  readable output, lets every one of them go, and leaves the set closed and empty.
\<close>
theorem close_lets_all_go:
  assumes "\<not> flag_set LOCKED r"
  shows "rc_head (fst (close panics finished [] view r)) = [] \<and>
    mset (let_go_of (snd (close panics finished [] view r))) = mset (map n_forward (rc_head r)) \<and>
    handed_to f (snd (close panics finished [] view r)) =
      concat (map (\<lambda>n. if n_forward n = f \<and> unseen (rc_generation r) n
        then (case view of None \<Rightarrow> [] | Some v \<Rightarrow> [v]) else []) (rc_head r)) \<and>
    flag_set CLOSED (fst (close panics finished [] view r))"
proof -
  let ?r = "fetch_or (CLOSED OR REWALK) r"
  have closed: "flag_set CLOSED ?r" and idle: "\<not> flag_set LOCKED ?r" using assms by simp_all
  have "mset (let_go_of (snd (pass_nodes panics finished view (rc_generation r) True [] (rc_head r)))) =
      mset (map n_forward (rc_head r))"
    using pass_nodes_conserve [of panics finished view "rc_generation r" True "[]" "rc_head r"]
    by (simp add: pass_nodes_closed)
  with closed walk_undisturbed [OF idle, of panics finished view] show ?thesis
    by (simp add: close_def pass_nodes_closed pass_nodes_handed)
qed

theorem close_lets_all_go_witness:
  "let_go_of (snd (close (\<lambda>f v. False) (\<lambda>f. False) [] (Some (5 :: nat))
      \<lparr>rc_head = [\<lparr>n_handed = NONE_HANDED, n_forward = 7 :: nat\<rparr>], rc_generation = 1, rc_flags = 2\<rparr>)) = [7]"
  using close_lets_all_go [of "\<lparr>rc_head = [\<lparr>n_handed = NONE_HANDED, n_forward = 7 :: nat\<rparr>],
      rc_generation = 1, rc_flags = 2\<rparr>" "\<lambda>f v. False" "\<lambda>f. False" "Some (5 :: nat)"]
  by (simp add: flag_set_def LOCKED_def mset_single_iff)

end
