(* ===== verification/Task_Data.thy ===== *)
theory Task_Data
  imports Gate Receivers
begin

text \<open>
  \<open>src/modules/task_data.rs\<close> and \<open>src/modules/extras.rs\<close>: the memory one spawned task
  owns. A slot is a record with the fields of \<open>TaskData\<close> in their order; each operation
  below is one method, run without interference. The type of erased tasks \<open>'t\<close>, of
  outputs \<open>'v\<close> and of far ends \<open>'f\<close> are the program's own, so they are parameters.

  Not in the header but in the memory behind it is \<open>td_cell\<close>, the bytes of the payload,
  which hold a live value exactly when \<open>td_filled\<close> says so. A method that waits for
  readers to leave returns with no reader left, so \<open>td_readers\<close> is zero in its result; the
  wait itself is the subject of \<open>Read_Take_Race\<close>.
\<close>

section \<open>The clock\<close>

record clock =
  ck_now :: nat
  ck_epoch :: nat
  ck_limit :: nat

definition encode_until :: "clock \<Rightarrow> nat option \<Rightarrow> u64" where
  "encode_until ck until =
     (case until of
        None \<Rightarrow> 0
      | Some when \<Rightarrow> of_nat (min (when - ck_epoch ck) (2 ^ 64 - 1 - 1)) + 1)"

definition decode_until :: "clock \<Rightarrow> u64 \<Rightarrow> nat option" where
  "decode_until ck raw =
     (if raw = 0 then None else instant_checked_add (ck_limit ck) (ck_epoch ck) (unat (raw - 1)))"

section \<open>Extras\<close>

record ('t, 'f) extras =
  ex_prototype :: "'t option"
  ex_gate :: "gate option"
  ex_receivers :: "'f receivers"
  ex_held :: "nat list"
  ex_timeout :: "nat option"
  ex_parent :: nat

definition extras_new :: "gate option \<Rightarrow> ('t, 'f) extras" where
  "extras_new g =
     \<lparr>ex_prototype = None, ex_gate = g, ex_receivers = receivers_new, ex_held = [],
      ex_timeout = None, ex_parent = NO_TASK\<rparr>"

definition extras_timed :: "nat option \<Rightarrow> nat \<Rightarrow> ('t, 'f) extras \<Rightarrow> ('t, 'f) extras" where
  "extras_timed timeout parent ex = ex\<lparr>ex_timeout := timeout, ex_parent := parent\<rparr>"

definition extras_hold :: "nat list \<Rightarrow> ('t, 'f) extras \<Rightarrow> ('t, 'f) extras" where
  "extras_hold claims ex = ex\<lparr>ex_held := ex_held ex @ claims\<rparr>"

definition release_held :: "('t, 'f) extras \<Rightarrow> nat list \<times> ('t, 'f) extras" where
  "release_held ex = (ex_held ex, ex\<lparr>ex_held := []\<rparr>)"

section \<open>The slot\<close>

record ('t, 'v, 'f) task_data =
  td_state :: task_state
  td_listeners :: u32
  td_readers :: u32
  td_size :: u32
  td_next :: u32
  td_queue_next :: u32
  td_filled :: bool
  td_kind :: u8
  td_blocking :: bool
  td_held :: bool
  td_armed :: bool
  td_parked :: bool
  td_park_filter :: int
  td_park_timed :: bool
  td_queued :: u8
  td_runs_left :: u32
  td_park_ident :: int
  td_until :: u64
  td_start_delay :: u64
  td_interval :: u64
  td_run_deadline :: u64
  td_waiting :: int
  td_select :: int
  td_priority :: u64
  td_task :: "'t option"
  td_payload :: bool
  td_extras :: "('t, 'f) extras option"
  td_cell :: "'v option"

definition QUEUED_NOWHERE :: u8 where "QUEUED_NOWHERE = 0"
definition QUEUED_SHARED :: u8 where "QUEUED_SHARED = 1"
definition QUEUED_LOCAL :: u8 where "QUEUED_LOCAL = 2"

definition pack :: "u8 \<Rightarrow> u64 \<Rightarrow> u64" where
  "pack class sequence =
     (push_bit PRIORITY_CLASS_SHIFT (ucast class) OR (sequence AND PRIORITY_SEQUENCE_MASK))"

definition set_priority :: "u8 \<Rightarrow> u64 \<Rightarrow> ('t, 'v, 'f) task_data \<Rightarrow> ('t, 'v, 'f) task_data" where
  "set_priority class sequence d = d\<lparr>td_priority := pack class sequence\<rparr>"

text \<open>
  Filling in a slot panics when the output type is aligned past the payload's offset, and
  fails when an oversized output can't be mapped. \<open>mapped n\<close> says whether the kernel gives
  a mapping of \<open>n\<close> bytes.
\<close>

datatype 'a init_outcome = InitPanics | InitRefused | InitReady 'a

definition init ::
  "clock \<Rightarrow> (nat \<Rightarrow> bool) \<Rightarrow> nat \<Rightarrow> nat \<Rightarrow> 't option \<Rightarrow> task_state \<Rightarrow> task_setup \<Rightarrow> u64
    \<Rightarrow> ('t, 'v, 'f) task_data init_outcome" where
  "init ck mapped bytes align task state su sequence =
     (if \<not> align \<le> PAYLOAD_OFFSET then InitPanics
      else
        (let oversized = bytes > INLINE_PAYLOAD in
         if oversized \<and> \<not> mapped bytes then InitRefused
         else InitReady
           ((set_priority (su_priority su) sequence
             \<lparr>td_state = Free, td_listeners = 2, td_readers = 0, td_size = of_nat bytes,
              td_next = 0, td_queue_next = 0, td_filled = False,
              td_kind = kind_byte (su_kind su) (su_waits su),
              td_blocking = su_blocking su, td_held = True, td_armed = False,
              td_parked = False, td_park_filter = 0, td_park_timed = False,
              td_queued = QUEUED_NOWHERE, td_runs_left = su_runs su, td_park_ident = -1,
              td_until = encode_until ck (setup_until (ck_limit ck) (ck_now ck) su),
              td_start_delay = of_nat (su_start_delay su),
              td_interval = of_nat (su_interval su), td_run_deadline = 0,
              td_waiting = NOT_WAITING, td_select = NO_SELECT, td_priority = 0,
              td_task = task, td_payload = oversized, td_extras = None, td_cell = None\<rparr>)
            \<lparr>td_state := state\<rparr>)))"

text \<open>A slot nothing was ever put in: the zeroes of a fresh mapping.\<close>

definition zero_slot :: "('t, 'v, 'f) task_data" where
  "zero_slot =
     \<lparr>td_state = Free, td_listeners = 0, td_readers = 0, td_size = 0,
      td_next = 0, td_queue_next = 0, td_filled = False, td_kind = 0,
      td_blocking = False, td_held = False, td_armed = False, td_parked = False,
      td_park_filter = 0, td_park_timed = False, td_queued = 0, td_runs_left = 0,
      td_park_ident = 0, td_until = 0, td_start_delay = 0, td_interval = 0,
      td_run_deadline = 0, td_waiting = 0, td_select = 0, td_priority = 0,
      td_task = None, td_payload = False, td_extras = None, td_cell = None\<rparr>"

section \<open>States, links and priority\<close>

definition try_state ::
  "task_state \<Rightarrow> task_state \<Rightarrow> ('t, 'v, 'f) task_data \<Rightarrow> bool \<times> ('t, 'v, 'f) task_data" where
  "try_state from to d =
     (let (ok, st) = compare_exchange (td_state d) from to in (ok, d\<lparr>td_state := st\<rparr>))"

definition set_state :: "task_state \<Rightarrow> ('t, 'v, 'f) task_data \<Rightarrow> ('t, 'v, 'f) task_data" where
  "set_state st d = d\<lparr>td_state := st\<rparr>"

definition next_link :: "('t, 'v, 'f) task_data \<Rightarrow> nat" where
  "next_link d = unat (td_next d)"

definition set_next :: "nat \<Rightarrow> ('t, 'v, 'f) task_data \<Rightarrow> ('t, 'v, 'f) task_data" where
  "set_next n d = d\<lparr>td_next := of_nat n\<rparr>"

definition queue_next :: "('t, 'v, 'f) task_data \<Rightarrow> nat" where
  "queue_next d = unat (td_queue_next d)"

definition set_queue_next :: "nat \<Rightarrow> ('t, 'v, 'f) task_data \<Rightarrow> ('t, 'v, 'f) task_data" where
  "set_queue_next n d = d\<lparr>td_queue_next := of_nat n\<rparr>"

definition priority_class :: "('t, 'v, 'f) task_data \<Rightarrow> u8" where
  "priority_class d = ucast (drop_bit PRIORITY_CLASS_SHIFT (td_priority d))"

definition priority_sequence :: "('t, 'v, 'f) task_data \<Rightarrow> u64" where
  "priority_sequence d = (td_priority d AND PRIORITY_SEQUENCE_MASK)"

definition band :: "('t, 'v, 'f) task_data \<Rightarrow> nat" where
  "band d = unat (drop_bit PRIORITY_BAND_SHIFT (priority_class d))"

definition age :: "u64 \<Rightarrow> ('t, 'v, 'f) task_data \<Rightarrow> u64" where
  "age now d = saturating_sub now (priority_sequence d)"

section \<open>Reading and taking the output\<close>

definition enter_read :: "('t, 'v, 'f) task_data \<Rightarrow> bool \<times> ('t, 'v, 'f) task_data" where
  "enter_read d =
     (let d1 = d\<lparr>td_readers := td_readers d + 1\<rparr> in
      if td_state d1 = Ready then (True, d1)
      else (False, d1\<lparr>td_readers := td_readers d1 - 1\<rparr>))"

definition leave_read :: "('t, 'v, 'f) task_data \<Rightarrow> ('t, 'v, 'f) task_data" where
  "leave_read d = d\<lparr>td_readers := td_readers d - 1\<rparr>"

definition claim_result :: "('t, 'v, 'f) task_data \<Rightarrow> bool \<times> ('t, 'v, 'f) task_data" where
  "claim_result d =
     (let (ok, d1) = try_state Ready Taken d in
      if \<not> ok then (False, d1) else (True, d1\<lparr>td_readers := 0\<rparr>))"

definition fill :: "('t, 'v, 'f) task_data \<Rightarrow> ('t, 'v, 'f) task_data" where
  "fill d = d\<lparr>td_filled := True\<rparr>"

definition empty :: "('t, 'v, 'f) task_data \<Rightarrow> ('t, 'v, 'f) task_data" where
  "empty d = d\<lparr>td_filled := False\<rparr>"

text \<open>
  \<open>recycle\<close> returns the output it dropped, if there was one, and leaves the bytes of the
  payload unspecified, which the model clears.
\<close>

definition recycle :: "('t, 'v, 'f) task_data \<Rightarrow> 'v option \<times> ('t, 'v, 'f) task_data" where
  "recycle d =
     (let d1 = d\<lparr>td_readers := 0\<rparr> in
      if td_filled d1 then (td_cell d1, d1\<lparr>td_filled := False, td_cell := None\<rparr>)
      else (None, d1))"

section \<open>Waits\<close>

definition set_waiting :: "int \<Rightarrow> ('t, 'v, 'f) task_data \<Rightarrow> ('t, 'v, 'f) task_data" where
  "set_waiting queue d = d\<lparr>td_waiting := snd (compare_exchange (td_waiting d) NOT_WAITING queue)\<rparr>"

definition set_select :: "int \<Rightarrow> ('t, 'v, 'f) task_data \<Rightarrow> bool \<times> ('t, 'v, 'f) task_data" where
  "set_select queue d =
     (let (ok, q) = compare_exchange (td_select d) NO_SELECT queue in (ok, d\<lparr>td_select := q\<rparr>))"

definition clear_select :: "int \<Rightarrow> ('t, 'v, 'f) task_data \<Rightarrow> ('t, 'v, 'f) task_data" where
  "clear_select queue d = d\<lparr>td_select := snd (compare_exchange (td_select d) queue NO_SELECT)\<rparr>"

text \<open>The spin of \<open>clear_waiting\<close> ends once the canceller has let go, which leaves no wait.\<close>

definition clear_waiting :: "('t, 'v, 'f) task_data \<Rightarrow> ('t, 'v, 'f) task_data" where
  "clear_waiting d = d\<lparr>td_waiting := NOT_WAITING\<rparr>"

definition claim_waiting :: "('t, 'v, 'f) task_data \<Rightarrow> int option \<times> ('t, 'v, 'f) task_data" where
  "claim_waiting d =
     (let (r, w) = atomically (\<lambda>current. if current < 0 then Inl None
        else Inr (CANCELLING, Some current)) (td_waiting d)
      in (r, d\<lparr>td_waiting := w\<rparr>))"

definition release_waiting :: "('t, 'v, 'f) task_data \<Rightarrow> ('t, 'v, 'f) task_data" where
  "release_waiting d = d\<lparr>td_waiting := NOT_WAITING\<rparr>"

section \<open>Kinds, queues and gates\<close>

definition kind :: "('t, 'v, 'f) task_data \<Rightarrow> task_kind" where
  "kind d = task_kind_from_u8 (td_kind d)"

definition mark_queued :: "u8 \<Rightarrow> ('t, 'v, 'f) task_data \<Rightarrow> ('t, 'v, 'f) task_data" where
  "mark_queued place d = d\<lparr>td_queued := place\<rparr>"

definition claim_queued :: "u8 \<Rightarrow> ('t, 'v, 'f) task_data \<Rightarrow> bool \<times> ('t, 'v, 'f) task_data" where
  "claim_queued place d =
     (let (ok, q) = compare_exchange (td_queued d) place QUEUED_NOWHERE in (ok, d\<lparr>td_queued := q\<rparr>))"

definition takes_input :: "('t, 'v, 'f) task_data \<Rightarrow> bool" where
  "takes_input d \<longleftrightarrow> td_kind d AND WAITS \<noteq> 0"

definition td_gate :: "('t, 'v, 'f) task_data \<Rightarrow> gate option" where
  "td_gate d = Option.bind (td_extras d) ex_gate"

definition publishes_nothing_more :: "('t, 'v, 'f) task_data \<Rightarrow> bool" where
  "publishes_nothing_more d =
     (case td_state d of
        Cancelled \<Rightarrow> True | TimedOut \<Rightarrow> True | Failed \<Rightarrow> True | Free \<Rightarrow> True
      | Pending \<Rightarrow> False | Running \<Rightarrow> False
      | _ \<Rightarrow>
          if td_kind d AND WAITS \<noteq> 0 then (case td_gate d of Some g \<Rightarrow> gate_finished g | None \<Rightarrow> False)
          else task_kind_from_u8 (td_kind d) = Once)"

definition open_for_gives :: "('t, 'v, 'f) task_data \<Rightarrow> bool" where
  "open_for_gives d \<longleftrightarrow>
     takes_input d \<and> (case td_gate d of Some g \<Rightarrow> \<not> gate_finished g | None \<Rightarrow> False)"

section \<open>Runs, series and deadlines\<close>

definition count_run :: "('t, 'v, 'f) task_data \<Rightarrow> bool \<times> ('t, 'v, 'f) task_data" where
  "count_run d =
     (let (r, left) = atomically (\<lambda>left. if left = u32_MAX then Inl False
        else (let nxt = saturating_sub left 1 in Inr (nxt, nxt = 0))) (td_runs_left d)
      in (r, d\<lparr>td_runs_left := left\<rparr>))"

definition runs_remain :: "('t, 'v, 'f) task_data \<Rightarrow> bool" where
  "runs_remain d \<longleftrightarrow> td_runs_left d \<noteq> 0"

definition past_deadline :: "clock \<Rightarrow> nat \<Rightarrow> ('t, 'v, 'f) task_data \<Rightarrow> bool" where
  "past_deadline ck gap d =
     (case decode_until ck (td_until d) of
        None \<Rightarrow> False
      | Some until \<Rightarrow>
          (case instant_checked_add (ck_limit ck) (ck_now ck) gap of
             Some nxt \<Rightarrow> nxt \<ge> until
           | None \<Rightarrow> True))"

definition spent :: "('t, 'v, 'f) task_data \<Rightarrow> bool" where
  "spent d \<longleftrightarrow> td_runs_left d \<noteq> u32_MAX \<or> td_until d \<noteq> 0"

definition finish_series :: "('t, 'v, 'f) task_data \<Rightarrow> ('t, 'v, 'f) task_data" where
  "finish_series d =
     (let waits = td_kind d AND WAITS in d\<lparr>td_kind := task_kind_as_u8 Once OR waits\<rparr>)"

definition clear_start_delay :: "('t, 'v, 'f) task_data \<Rightarrow> ('t, 'v, 'f) task_data" where
  "clear_start_delay d = d\<lparr>td_start_delay := 0\<rparr>"

definition set_start_delay :: "u64 \<Rightarrow> ('t, 'v, 'f) task_data \<Rightarrow> ('t, 'v, 'f) task_data" where
  "set_start_delay nanos d = d\<lparr>td_start_delay := nanos\<rparr>"

text \<open>Adding the timeout to the clock panics past the last instant, which is \<open>None\<close>.\<close>

definition time_run ::
  "clock \<Rightarrow> nat \<Rightarrow> ('t, 'v, 'f) task_data \<Rightarrow> (u64 \<times> ('t, 'v, 'f) task_data) option" where
  "time_run ck timeout d =
     (case instant_checked_add (ck_limit ck) (ck_now ck) timeout of
        None \<Rightarrow> None
      | Some when \<Rightarrow>
          (let word = encode_until ck (Some when) in Some (word, d\<lparr>td_run_deadline := word\<rparr>)))"

definition run_deadline_at :: "clock \<Rightarrow> ('t, 'v, 'f) task_data \<Rightarrow> nat option" where
  "run_deadline_at ck d = decode_until ck (td_run_deadline d)"

definition untime_run :: "('t, 'v, 'f) task_data \<Rightarrow> bool \<times> ('t, 'v, 'f) task_data" where
  "untime_run d = (td_run_deadline d \<noteq> 0, d\<lparr>td_run_deadline := 0\<rparr>)"

definition reset_series ::
  "clock \<Rightarrow> u32 \<Rightarrow> nat option \<Rightarrow> ('t, 'v, 'f) task_data \<Rightarrow> ('t, 'v, 'f) task_data" where
  "reset_series ck runs until d =
     d\<lparr>td_runs_left := runs, td_until := encode_until ck until\<rparr>"

section \<open>Extras of a slot\<close>

definition prototype :: "('t, 'v, 'f) task_data \<Rightarrow> 't option" where
  "prototype d = Option.bind (td_extras d) ex_prototype"

definition set_prototype :: "'t option \<Rightarrow> ('t, 'v, 'f) task_data \<Rightarrow> ('t, 'v, 'f) task_data" where
  "set_prototype p d = d\<lparr>td_extras := map_option (\<lambda>ex. ex\<lparr>ex_prototype := p\<rparr>) (td_extras d)\<rparr>"

definition attach_extras :: "('t, 'f) extras \<Rightarrow> ('t, 'v, 'f) task_data \<Rightarrow> ('t, 'v, 'f) task_data" where
  "attach_extras ex d = d\<lparr>td_extras := Some ex\<rparr>"

definition extras_or_attach :: "('t, 'v, 'f) task_data \<Rightarrow> ('t, 'f) extras \<times> ('t, 'v, 'f) task_data" where
  "extras_or_attach d =
     (case td_extras d of
        Some ex \<Rightarrow> (ex, d)
      | None \<Rightarrow> (let fresh = extras_new None in (fresh, d\<lparr>td_extras := Some fresh\<rparr>)))"

section \<open>References, wakes and parks\<close>

definition claim_release :: "('t, 'v, 'f) task_data \<Rightarrow> bool \<times> ('t, 'v, 'f) task_data" where
  "claim_release d = (td_held d, d\<lparr>td_held := False\<rparr>)"

definition arm :: "('t, 'v, 'f) task_data \<Rightarrow> ('t, 'v, 'f) task_data" where
  "arm d = d\<lparr>td_armed := True\<rparr>"

definition disarm :: "('t, 'v, 'f) task_data \<Rightarrow> ('t, 'v, 'f) task_data" where
  "disarm d = d\<lparr>td_armed := False\<rparr>"

definition claim_armed :: "('t, 'v, 'f) task_data \<Rightarrow> bool \<times> ('t, 'v, 'f) task_data" where
  "claim_armed d = (td_armed d, d\<lparr>td_armed := False\<rparr>)"

text \<open>A filter is narrowed to eight bits and widened again when it is read.\<close>

definition park :: "int \<Rightarrow> int \<Rightarrow> bool \<Rightarrow> ('t, 'v, 'f) task_data \<Rightarrow> ('t, 'v, 'f) task_data" where
  "park ident filtr timed d =
     d\<lparr>td_park_ident := ident, td_park_filter := signed_take_bit 7 filtr,
       td_park_timed := timed, td_parked := True\<rparr>"

definition claim_parked ::
  "('t, 'v, 'f) task_data \<Rightarrow> (int \<times> int \<times> bool) option \<times> ('t, 'v, 'f) task_data" where
  "claim_parked d =
     (if \<not> td_parked d then (None, d)
      else (Some (td_park_ident d, td_park_filter d, td_park_timed d), d\<lparr>td_parked := False\<rparr>))"

text \<open>Taking a slot for a run returns the output of the run before, if one was thrown away.\<close>

definition begin_run ::
  "('t, 'v, 'f) task_data \<Rightarrow> bool \<times> 'v option \<times> ('t, 'v, 'f) task_data" where
  "begin_run d =
     (let (ok, d1) = try_state Pending Running d in
      if ok then (True, None, d1)
      else if \<not> repeats (kind d) \<and> \<not> takes_input d then (False, None, d)
      else
        (let (ok, d1) = try_state Ready Running d in
         if ok then (True, recycle d1)
         else
           (let (ok, d1) = try_state Taken Running d in
            if ok then (True, recycle d1) else (False, None, d))))"

definition rearm :: "'t option \<Rightarrow> ('t, 'v, 'f) task_data \<Rightarrow> ('t, 'v, 'f) task_data" where
  "rearm task d = d\<lparr>td_task := task\<rparr>"

definition add_listener :: "('t, 'v, 'f) task_data \<Rightarrow> ('t, 'v, 'f) task_data" where
  "add_listener d = d\<lparr>td_listeners := td_listeners d + 1\<rparr>"

definition drop_listener :: "('t, 'v, 'f) task_data \<Rightarrow> bool \<times> ('t, 'v, 'f) task_data" where
  "drop_listener d = (td_listeners d = 1, d\<lparr>td_listeners := td_listeners d - 1\<rparr>)"

definition claim :: "('t, 'v, 'f) task_data \<Rightarrow> 't option \<times> ('t, 'v, 'f) task_data" where
  "claim d = (td_task d, d\<lparr>td_task := None\<rparr>)"

text \<open>
  \<open>destroy\<close> returns everything it drops: the task if it never ran, the output nobody
  took, the extras, with their gate finished, and the length of the mapping it frees.
\<close>

record ('t, 'v, 'f) remains =
  rm_task :: "'t option"
  rm_output :: "'v option"
  rm_extras :: "('t, 'f) extras option"
  rm_mapping :: "nat option"

definition finish_gate :: "('t, 'f) extras \<Rightarrow> ('t, 'f) extras" where
  "finish_gate ex = ex\<lparr>ex_gate := map_option gate_finish (ex_gate ex)\<rparr>"

definition destroy :: "('t, 'v, 'f) task_data \<Rightarrow> ('t, 'v, 'f) remains \<times> ('t, 'v, 'f) task_data" where
  "destroy d =
     (\<lparr>rm_task = td_task d,
       rm_output = (if td_filled d then td_cell d else None),
       rm_extras = map_option finish_gate (td_extras d),
       rm_mapping = (if td_payload d then Some (unat (td_size d)) else None)\<rparr>,
      d\<lparr>td_extras := None, td_task := None, td_cell := None, td_payload := False,
        td_waiting := NOT_WAITING, td_select := NO_SELECT, td_parked := False,
        td_queue_next := 0, td_state := Free\<rparr>)"

section \<open>Claims only one caller wins\<close>

text \<open>
  The executor's reference, the wake, the park, the task itself and the place in a queue are
  each taken by one swap or exchange. What the callers rely on is the same for all five.
\<close>

fun calls :: "('d \<Rightarrow> bool \<times> 'd) \<Rightarrow> nat \<Rightarrow> 'd \<Rightarrow> bool list" where
  "calls tk 0 d = []"
| "calls tk (Suc n) d = fst (tk d) # calls tk n (snd (tk d))"

locale one_winner =
  fixes tk :: "'d \<Rightarrow> bool \<times> 'd"
    and there :: "'d \<Rightarrow> bool"
  assumes won_iff: "fst (tk d) \<longleftrightarrow> there d"
    and gone_after: "\<not> there (snd (tk d))"
begin

lemma none_left: "\<not> there d \<Longrightarrow> calls tk n d = replicate n False"
  by (induction n arbitrary: d) (simp_all add: won_iff gone_after)

lemma first_wins: "calls tk (Suc n) d = there d # replicate n False"
  by (simp add: won_iff none_left gone_after)

end

definition took :: "'a option \<times> 'd \<Rightarrow> bool \<times> 'd" where
  "took r = (fst r \<noteq> None, snd r)"

interpretation release_claim: one_winner claim_release td_held
  by unfold_locales (simp_all add: claim_release_def)

interpretation armed_claim: one_winner claim_armed td_armed
  by unfold_locales (simp_all add: claim_armed_def)

interpretation parked_claim: one_winner "\<lambda>d. took (claim_parked d)" td_parked
  by unfold_locales (simp_all add: claim_parked_def took_def)

interpretation task_claim: one_winner "\<lambda>d. took (claim d)" "\<lambda>d. td_task d \<noteq> None"
  by unfold_locales (simp_all add: claim_def took_def)

interpretation shared_claim: one_winner "claim_queued QUEUED_SHARED" "\<lambda>d. td_queued d = QUEUED_SHARED"
  by unfold_locales
    (simp_all add: claim_queued_def compare_exchange_def QUEUED_SHARED_def QUEUED_NOWHERE_def)

interpretation local_claim: one_winner "claim_queued QUEUED_LOCAL" "\<lambda>d. td_queued d = QUEUED_LOCAL"
  by unfold_locales
    (simp_all add: claim_queued_def compare_exchange_def QUEUED_LOCAL_def QUEUED_NOWHERE_def)

section \<open>Facts about the words\<close>

lemma bit_sequence_mask: "bit PRIORITY_SEQUENCE_MASK n \<longleftrightarrow> n < 56"
  unfolding PRIORITY_SEQUENCE_MASK_mask by (auto simp: bit_mask_iff PRIORITY_CLASS_SHIFT_def)

lemma pack_class: "ucast (drop_bit PRIORITY_CLASS_SHIFT (pack class sequence)) = class"
proof (rule bit_eqI)
  fix n
  assume "possible_bit TYPE(u8) n"
  then have "n < 8" by (simp add: possible_bit_word)
  then show "bit (ucast (drop_bit PRIORITY_CLASS_SHIFT (pack class sequence)) :: u8) n = bit class n"
    by (auto simp: pack_def bit_simps bit_sequence_mask PRIORITY_CLASS_SHIFT_def)
qed

lemma pack_sequence: "(pack class sequence AND PRIORITY_SEQUENCE_MASK) = (sequence AND PRIORITY_SEQUENCE_MASK)"
  by (rule bit_eqI) (auto simp: pack_def bit_simps bit_sequence_mask PRIORITY_CLASS_SHIFT_def)

lemma band_bound: "band d < PRIORITY_BANDS"
proof -
  have "unat (priority_class d) < 256" using unsigned_less [of "priority_class d"] by simp
  then show ?thesis
    by (simp add: band_def drop_bit_eq_div unat_div_distrib PRIORITY_BAND_SHIFT_def PRIORITY_BANDS_def)
qed

lemma encode_until_some:
  "unat (encode_until ck (Some when)) = Suc (min (when - ck_epoch ck) (2 ^ 64 - 2))"
proof -
  let ?n = "min (when - ck_epoch ck) (2 ^ 64 - 2)"
  have "unat (of_nat ?n + 1 :: u64) = Suc ?n"
    by (subst unat_plus_one) (simp_all add: unat_of_nat)
  then show ?thesis by (simp add: encode_until_def)
qed

lemma encode_until_zero_iff: "encode_until ck until = 0 \<longleftrightarrow> until = None"
proof (cases until)
  case (Some t)
  then have "unat (encode_until ck until) \<noteq> 0" by (simp add: encode_until_some)
  with Some show ?thesis by (metis unsigned_0 option.distinct(1))
qed (simp add: encode_until_def)

lemma decode_encode:
  assumes "when - ck_epoch ck < 2 ^ 64 - 1" and "ck_epoch ck + (when - ck_epoch ck) \<le> ck_limit ck"
  shows "decode_until ck (encode_until ck (Some when)) = Some (max when (ck_epoch ck))"
proof -
  have "encode_until ck (Some when) \<noteq> 0" by (simp add: encode_until_zero_iff)
  moreover from this have "unat (encode_until ck (Some when) - 1) = when - ck_epoch ck"
    using assms(1) by (simp add: word_cases_sub_one encode_until_some)
  ultimately show ?thesis using assms(2) by (auto simp: decode_until_def instant_checked_add_def)
qed

section \<open>Facts about the operations\<close>

lemma kind_finish_series [simp]: "kind (finish_series d) = Once"
proof -
  have "(td_kind d AND WAITS) AND NOT WAITS = 0" by (simp add: and.assoc)
  then show ?thesis
    by (simp add: kind_def finish_series_def task_kind_from_u8_def Let_def bit.conj_disj_distrib2)
qed

lemma takes_input_finish_series [simp]: "takes_input (finish_series d) = takes_input d"
  by (simp add: takes_input_def finish_series_def Let_def and.assoc)

lemma try_state_simps:
  "fst (try_state a b d) \<longleftrightarrow> td_state d = a"
  "snd (try_state a b d) = (if td_state d = a then d\<lparr>td_state := b\<rparr> else d)"
  by (simp_all add: try_state_def compare_exchange_def)

lemma begin_run_iff:
  "fst (begin_run d) \<longleftrightarrow> td_state d = Pending \<or>
     (repeats (kind d) \<or> takes_input d) \<and> (td_state d = Ready \<or> td_state d = Taken)"
  by (auto simp: begin_run_def try_state_def compare_exchange_def Let_def)

lemma begin_run_state:
  "td_state (snd (snd (begin_run d))) = (if fst (begin_run d) then Running else td_state d)"
  by (auto simp: begin_run_def try_state_def compare_exchange_def recycle_def Let_def)

lemma unat_count_run:
  "td_runs_left d \<noteq> u32_MAX \<Longrightarrow>
   unat (td_runs_left (snd (count_run d))) = unat (td_runs_left d) - 1 \<and>
   (fst (count_run d) \<longleftrightarrow> unat (td_runs_left d) \<le> 1)"
  by (auto simp: count_run_def Let_def unat_eq_zero [symmetric] simp flip: unat_gt_0)

lemma calls_count_run:
  assumes "td_runs_left d \<noteq> u32_MAX" and "unat (td_runs_left d) = Suc n"
  shows "calls count_run (Suc n) d = replicate n False @ [True]"
  using assms
proof (induction n arbitrary: d)
  case 0
  then show ?case by (simp add: unat_count_run)
next
  case (Suc n)
  from unat_count_run [OF Suc.prems(1)] Suc.prems
  have "unat (td_runs_left (snd (count_run d))) = Suc n" "\<not> fst (count_run d)" by simp_all
  moreover from this have "td_runs_left (snd (count_run d)) \<noteq> u32_MAX"
    using Suc.prems unat_u32_bound [of "td_runs_left d"] by (intro below_u32_MAX) simp
  ultimately have "calls count_run (Suc n) (snd (count_run d)) = replicate n False @ [True]"
    by (intro Suc.IH)
  with \<open>\<not> fst (count_run d)\<close> show ?case by simp
qed

section \<open>Properties\<close>

text \<open>
  the class and the spawn order packed into the priority word both come back out,
  whatever the class, the order only losing what is past fifty six bits, and the band is
  the class over sixty four, always one of the four.
\<close>
theorem priority_roundtrip:
  "priority_class (set_priority class sequence d) = class \<and>
   unat (priority_sequence (set_priority class sequence d)) = unat sequence mod 2 ^ 56 \<and>
   band (set_priority class sequence d) = unat class div 64 \<and>
   band (set_priority class sequence d) < PRIORITY_BANDS"
proof -
  have cl: "priority_class (set_priority class sequence d) = class"
    by (simp add: priority_class_def set_priority_def pack_class)
  have "priority_sequence (set_priority class sequence d) = (sequence AND PRIORITY_SEQUENCE_MASK)"
    by (simp add: priority_sequence_def set_priority_def pack_sequence)
  also have "\<dots> = take_bit 56 sequence"
    by (simp add: PRIORITY_SEQUENCE_MASK_mask PRIORITY_CLASS_SHIFT_def take_bit_eq_mask)
  finally have "priority_sequence (set_priority class sequence d) = take_bit 56 sequence" .
  then have "unat (priority_sequence (set_priority class sequence d)) = unat sequence mod 2 ^ 56"
    by (simp add: take_bit_eq_mod unat_mod_distrib)
  with cl band_bound [of "set_priority class sequence d"] show ?thesis
    by (simp add: band_def drop_bit_eq_div unat_div_distrib PRIORITY_BAND_SHIFT_def)
qed

text \<open>
  a deadline written into its one word and read back is the same moment, or the epoch
  for one that had passed before it, and no deadline is the only one stored as zero.
\<close>
theorem deadline_roundtrip:
  assumes "when - ck_epoch ck < 2 ^ 64 - 1" and "max when (ck_epoch ck) \<le> ck_limit ck"
  shows "decode_until ck (encode_until ck (Some when)) = Some (max when (ck_epoch ck)) \<and>
    decode_until ck (encode_until ck None) = None \<and> encode_until ck (Some when) \<noteq> 0"
  using decode_encode [OF assms(1)] assms(2) encode_until_zero_iff [of ck "Some when"]
  by (auto simp: decode_until_def encode_until_def max_def split: if_splits)

theorem deadline_roundtrip_witness:
  "decode_until \<lparr>ck_now = 50, ck_epoch = 10, ck_limit = 1000\<rparr>
     (encode_until \<lparr>ck_now = 50, ck_epoch = 10, ck_limit = 1000\<rparr> (Some 70)) = Some 70"
  using deadline_roundtrip [of 70 "\<lparr>ck_now = 50, ck_epoch = 10, ck_limit = 1000\<rparr>"] by simp

text \<open>
  a series bounded to some number of runs is told so after exactly that many: every
  count but the last says there are more, and the last says it was the last.
\<close>
theorem series_counts_exactly:
  assumes "td_runs_left d \<noteq> u32_MAX" and "td_runs_left d \<noteq> 0"
  shows "calls count_run (unat (td_runs_left d)) d =
    replicate (unat (td_runs_left d) - 1) False @ [True]"
proof -
  from assms(2) obtain n where "unat (td_runs_left d) = Suc n"
    by (metis not0_implies_Suc unat_eq_zero)
  with calls_count_run [OF assms(1)] show ?thesis by simp
qed

theorem series_counts_exactly_witness:
  "calls count_run 3 ((zero_slot :: (nat, nat, nat) task_data)\<lparr>td_runs_left := 3\<rparr>) = replicate 2 False @ [True]"
  using series_counts_exactly [of "(zero_slot :: (nat, nat, nat) task_data)\<lparr>td_runs_left := 3\<rparr>"]
  by (simp add: u32_MAX_def)


end
