(* ===== verification/Read_Take_Race.thy ===== *)
theory Read_Take_Race
  imports Task_Data
begin

text \<open>
  The races for one task's output, between reads (\<open>enter_read\<close>, \<open>leave_read\<close>), takes
  (\<open>claim_result\<close>, then \<open>empty\<close> and the move out, as in \<open>Executor::poll_take\<close> and
  \<open>take_result_until\<close>) and runs (\<open>begin\<close> with \<open>recycle\<close>, the write, \<open>fill\<close> and the
  move to ready, as in \<open>executor::publish\<close>). Each rule is one memory access on the slot,
  under the sequential consistency the source asks of these accesses.
\<close>

section \<open>States and steps\<close>

datatype rt_pc =
    Away
  | Entered        \<comment> \<open>\<open>enter_read\<close> counted itself, the state is still to be read\<close>
  | Reading        \<comment> \<open>the payload is being cloned\<close>
  | Refused        \<comment> \<open>the output wasn't ready, the count goes back down\<close>
  | Spinning       \<comment> \<open>\<open>claim_result\<close> won the move to taken, and waits for readers\<close>
  | Emptying       \<comment> \<open>\<open>claim_result\<close> returned\<close>
  | Moving         \<comment> \<open>\<open>empty\<close> is done, the payload is being moved out\<close>
  | Respinning     \<comment> \<open>\<open>begin\<close> won a repeat's next run, \<open>recycle\<close> waits for readers\<close>
  | Recycling      \<comment> \<open>no reader was left, the old output is next\<close>
  | Executing      \<comment> \<open>the run is under way\<close>
  | Written        \<comment> \<open>the payload is written\<close>
  | Filled         \<comment> \<open>\<open>fill\<close> is done\<close>

record rt =
  rt_state :: task_state
  rt_readers :: nat
  rt_filled :: bool
  rt_live :: bool       \<comment> \<open>the bytes of the payload hold a value nothing else owns\<close>
  rt_repeats :: bool    \<comment> \<open>the task repeats or waits for gives\<close>
  rt_pc :: "nat \<Rightarrow> rt_pc"
  rt_moved :: nat       \<comment> \<open>values moved out\<close>

definition rt_init :: "bool \<Rightarrow> rt" where
  "rt_init repeating =
     \<lparr>rt_state = Pending, rt_readers = 0, rt_filled = False, rt_live = False,
      rt_repeats = repeating, rt_pc = (\<lambda>_. Away), rt_moved = 0\<rparr>"

abbreviation at :: "nat \<Rightarrow> rt_pc \<Rightarrow> rt \<Rightarrow> rt" where
  "at t pc s \<equiv> s\<lparr>rt_pc := (rt_pc s)(t := pc)\<rparr>"

inductive rt_step :: "rt \<Rightarrow> rt \<Rightarrow> bool" where
  rt_enter: "rt_pc s t = Away \<Longrightarrow> rt_step s (at t Entered (s\<lparr>rt_readers := rt_readers s + 1\<rparr>))"
| rt_enter_ok: "rt_pc s t = Entered \<Longrightarrow> rt_state s = Ready \<Longrightarrow> rt_step s (at t Reading s)"
| rt_enter_no: "rt_pc s t = Entered \<Longrightarrow> rt_state s \<noteq> Ready \<Longrightarrow> rt_step s (at t Refused s)"
| rt_leave: "rt_pc s t = Reading \<or> rt_pc s t = Refused \<Longrightarrow>
    rt_step s (at t Away (s\<lparr>rt_readers := rt_readers s - 1\<rparr>))"
| rt_claim: "rt_pc s t = Away \<Longrightarrow> rt_state s = Ready \<Longrightarrow>
    rt_step s (at t Spinning (s\<lparr>rt_state := Taken\<rparr>))"
| rt_spun: "rt_pc s t = Spinning \<Longrightarrow> rt_readers s = 0 \<Longrightarrow> rt_step s (at t Emptying s)"
| rt_empty: "rt_pc s t = Emptying \<Longrightarrow> rt_step s (at t Moving (s\<lparr>rt_filled := False\<rparr>))"
| rt_move: "rt_pc s t = Moving \<Longrightarrow>
    rt_step s (at t Away (s\<lparr>rt_live := False, rt_moved := rt_moved s + 1\<rparr>))"
| rt_begin: "rt_pc s t = Away \<Longrightarrow> rt_state s = Pending \<Longrightarrow>
    rt_step s (at t Executing (s\<lparr>rt_state := Running\<rparr>))"
| rt_again: "rt_pc s t = Away \<Longrightarrow> rt_repeats s \<Longrightarrow> rt_state s = Ready \<or> rt_state s = Taken \<Longrightarrow>
    rt_step s (at t Respinning (s\<lparr>rt_state := Running\<rparr>))"
| rt_respun: "rt_pc s t = Respinning \<Longrightarrow> rt_readers s = 0 \<Longrightarrow> rt_step s (at t Recycling s)"
| rt_recycle: "rt_pc s t = Recycling \<Longrightarrow> rt_filled s \<Longrightarrow>
    rt_step s (at t Executing (s\<lparr>rt_filled := False, rt_live := False\<rparr>))"
| rt_recycle_none: "rt_pc s t = Recycling \<Longrightarrow> \<not> rt_filled s \<Longrightarrow> rt_step s (at t Executing s)"
| rt_write: "rt_pc s t = Executing \<Longrightarrow> rt_step s (at t Written (s\<lparr>rt_live := True\<rparr>))"
| rt_fill: "rt_pc s t = Written \<Longrightarrow> rt_step s (at t Filled (s\<lparr>rt_filled := True\<rparr>))"
| rt_publish: "rt_pc s t = Filled \<Longrightarrow> rt_state s = Running \<Longrightarrow>
    rt_step s (at t Away (s\<lparr>rt_state := Ready\<rparr>))"
| rt_lost: "rt_pc s t = Filled \<Longrightarrow> rt_state s \<noteq> Running \<Longrightarrow> rt_step s (at t Away s)"
| rt_stop: "stopped_state st \<Longrightarrow> rt_step s (s\<lparr>rt_state := st\<rparr>)"

definition rt_reachable :: "bool \<Rightarrow> rt \<Rightarrow> bool" where
  "rt_reachable repeating s \<longleftrightarrow> rt_step\<^sup>*\<^sup>* (rt_init repeating) s"

section \<open>Invariants\<close>

definition counted :: "rt_pc \<Rightarrow> bool" where
  "counted pc \<longleftrightarrow> pc = Entered \<or> pc = Reading \<or> pc = Refused"

definition runs_it :: "rt_pc \<Rightarrow> bool" where
  "runs_it pc \<longleftrightarrow> pc = Respinning \<or> pc = Recycling \<or> pc = Executing \<or> pc = Written \<or> pc = Filled"

definition takes_it :: "rt_pc \<Rightarrow> bool" where
  "takes_it pc \<longleftrightarrow> pc = Spinning \<or> pc = Emptying \<or> pc = Moving"

text \<open>What may touch the payload alone: past the wait for readers.\<close>

definition owns_payload :: "rt_pc \<Rightarrow> bool" where
  "owns_payload pc \<longleftrightarrow> pc = Emptying \<or> pc = Moving \<or> pc = Recycling \<or> pc = Executing \<or>
     pc = Written \<or> pc = Filled"

lemmas rt_pcs = counted_def runs_it_def takes_it_def owns_payload_def

definition counted_set :: "(nat \<Rightarrow> rt_pc) \<Rightarrow> nat set" where
  "counted_set pc = {t. counted (pc t)}"

definition rt_counts :: "rt \<Rightarrow> bool" where
  "rt_counts s \<longleftrightarrow> finite (counted_set (rt_pc s)) \<and> rt_readers s = card (counted_set (rt_pc s))"

definition past_wait :: "rt_pc \<Rightarrow> bool" where
  "past_wait pc \<longleftrightarrow> pc = Recycling \<or> pc = Executing \<or> pc = Written \<or> pc = Filled"

definition removing :: "rt_pc \<Rightarrow> bool" where
  "removing pc \<longleftrightarrow> pc = Emptying \<or> pc = Moving"

definition reads :: "rt_pc \<Rightarrow> bool" where
  "reads pc \<longleftrightarrow> pc = Reading"

definition wrote :: "rt_pc \<Rightarrow> bool" where
  "wrote pc \<longleftrightarrow> pc = Written \<or> pc = Filled"

definition again :: "rt_pc \<Rightarrow> bool" where
  "again pc \<longleftrightarrow> pc = Respinning \<or> pc = Recycling"

definition rt_runs :: "rt \<Rightarrow> bool" where
  "rt_runs s \<longleftrightarrow>
     uniq runs_it (rt_pc s) \<and>
     (none runs_it (rt_pc s) \<or> rt_state s = Running \<or> stopped_state (rt_state s)) \<and>
     (none past_wait (rt_pc s) \<or> none reads (rt_pc s)) \<and>
     (rt_state s = Pending \<longrightarrow> none reads (rt_pc s))"

text \<open>And, for a task that runs once, about takes.\<close>

definition rt_takes :: "rt \<Rightarrow> bool" where
  "rt_takes s \<longleftrightarrow>
     \<not> rt_repeats s \<and> none again (rt_pc s) \<and> (none wrote (rt_pc s) \<or> rt_live s) \<and>
     uniq takes_it (rt_pc s) \<and>
     (none takes_it (rt_pc s) \<or> none runs_it (rt_pc s)) \<and>
     (none takes_it (rt_pc s) \<or> rt_state s = Taken \<or> stopped_state (rt_state s)) \<and>
     (none removing (rt_pc s) \<or> none reads (rt_pc s)) \<and>
     (none takes_it (rt_pc s) \<or> rt_live s) \<and> (none reads (rt_pc s) \<or> rt_live s) \<and>
     (rt_state s = Ready \<longrightarrow> rt_live s) \<and>
     (rt_state s = Ready \<or> rt_state s = Pending \<or> \<not> none takes_it (rt_pc s) \<or>
       \<not> none runs_it (rt_pc s) \<longrightarrow> rt_moved s = 0) \<and>
     rt_moved s \<le> 1"

lemma counted_set_update [simp]:
  "counted_set (pc(t := c)) = (if counted c then insert t (counted_set pc) else counted_set pc - {t})"
  by (auto simp: counted_set_def)

lemma in_counted_set [simp]: "t \<in> counted_set pc \<longleftrightarrow> counted (pc t)"
  by (simp add: counted_set_def)

lemma counted_simps [simp]:
  "\<not> counted Away" "counted Entered" "counted Reading" "counted Refused" "\<not> counted Spinning"
  "\<not> counted Emptying" "\<not> counted Moving" "\<not> counted Respinning" "\<not> counted Recycling"
  "\<not> counted Executing" "\<not> counted Written" "\<not> counted Filled"
  by (simp_all add: counted_def)

lemma runs_it_simps [simp]:
  "\<not> runs_it Away" "\<not> runs_it Entered" "\<not> runs_it Reading" "\<not> runs_it Refused"
  "\<not> runs_it Spinning" "\<not> runs_it Emptying" "\<not> runs_it Moving" "runs_it Respinning"
  "runs_it Recycling" "runs_it Executing" "runs_it Written" "runs_it Filled"
  by (simp_all add: runs_it_def)

lemma takes_it_simps [simp]:
  "\<not> takes_it Away" "\<not> takes_it Entered" "\<not> takes_it Reading" "\<not> takes_it Refused"
  "takes_it Spinning" "takes_it Emptying" "takes_it Moving" "\<not> takes_it Respinning"
  "\<not> takes_it Recycling" "\<not> takes_it Executing" "\<not> takes_it Written" "\<not> takes_it Filled"
  by (simp_all add: takes_it_def)

lemma rt_counts_step: "rt_step s s' \<Longrightarrow> rt_counts s \<Longrightarrow> rt_counts s'"
  by (induction rule: rt_step.induct) (auto simp: rt_counts_def insert_absorb card_insert_if)

lemma past_wait_simps [simp]:
  "\<not> past_wait Away" "\<not> past_wait Entered" "\<not> past_wait Reading" "\<not> past_wait Refused"
  "\<not> past_wait Spinning" "\<not> past_wait Emptying" "\<not> past_wait Moving" "\<not> past_wait Respinning"
  "past_wait Recycling" "past_wait Executing" "past_wait Written" "past_wait Filled"
  by (simp_all add: past_wait_def)

lemma removing_simps [simp]:
  "\<not> removing Away" "\<not> removing Entered" "\<not> removing Reading" "\<not> removing Refused"
  "\<not> removing Spinning" "removing Emptying" "removing Moving" "\<not> removing Respinning"
  "\<not> removing Recycling" "\<not> removing Executing" "\<not> removing Written" "\<not> removing Filled"
  by (simp_all add: removing_def)

lemma wrote_simps [simp]:
  "\<not> wrote Away" "\<not> wrote Entered" "\<not> wrote Reading" "\<not> wrote Refused"
  "\<not> wrote Spinning" "\<not> wrote Emptying" "\<not> wrote Moving" "\<not> wrote Respinning"
  "\<not> wrote Recycling" "\<not> wrote Executing" "wrote Written" "wrote Filled"
  by (simp_all add: wrote_def)

lemma again_simps [simp]:
  "\<not> again Away" "\<not> again Entered" "\<not> again Reading" "\<not> again Refused"
  "\<not> again Spinning" "\<not> again Emptying" "\<not> again Moving" "again Respinning"
  "again Recycling" "\<not> again Executing" "\<not> again Written" "\<not> again Filled"
  by (simp_all add: again_def)

lemma reads_simps [simp]:
  "\<not> reads Away" "\<not> reads Entered" "reads Reading" "\<not> reads Refused"
  "\<not> reads Spinning" "\<not> reads Emptying" "\<not> reads Moving" "\<not> reads Respinning"
  "\<not> reads Recycling" "\<not> reads Executing" "\<not> reads Written" "\<not> reads Filled"
  by (simp_all add: reads_def)

lemma owns_payload_simps [simp]:
  "\<not> owns_payload Away" "\<not> owns_payload Entered" "\<not> owns_payload Reading" "\<not> owns_payload Refused"
  "\<not> owns_payload Spinning" "owns_payload Emptying" "owns_payload Moving" "\<not> owns_payload Respinning"
  "owns_payload Recycling" "owns_payload Executing" "owns_payload Written" "owns_payload Filled"
  by (simp_all add: owns_payload_def)

lemma no_readers: "rt_counts s \<Longrightarrow> rt_readers s = 0 \<Longrightarrow> none reads (rt_pc s)"
proof -
  assume "rt_counts s" "rt_readers s = 0"
  then have "none counted (rt_pc s)" by (auto simp: rt_counts_def none_def counted_set_def)
  then show ?thesis by (rule none_mono) (simp add: reads_def)
qed

lemma past_wait_runs: "none runs_it pc \<Longrightarrow> none past_wait pc"
  by (erule none_mono) (auto simp: past_wait_def)

lemma removing_takes: "none takes_it pc \<Longrightarrow> none removing pc"
  by (erule none_mono) (auto simp: removing_def)

lemma rt_runs_step: "rt_step s s' \<Longrightarrow> rt_counts s \<Longrightarrow> rt_runs s \<Longrightarrow> rt_runs s'"
  by (induction rule: rt_step.induct)
    (simp_all add: rt_runs_def pc_keep no_readers, (fastforce intro: pc_move past_wait_runs)+)

lemma runner_there: "runs_it (rt_pc s t) \<Longrightarrow> rt_takes s \<Longrightarrow>
    none takes_it (rt_pc s) \<and> rt_moved s = 0 \<and> \<not> none runs_it (rt_pc s)"
  using not_none [of runs_it "rt_pc s" t] by (auto simp: rt_takes_def)

lemma taker_there: "takes_it (rt_pc s t) \<Longrightarrow> rt_takes s \<Longrightarrow>
    none runs_it (rt_pc s) \<and> rt_moved s = 0 \<and> rt_live s \<and> \<not> none takes_it (rt_pc s) \<and>
    (rt_state s = Taken \<or> stopped_state (rt_state s))"
  using not_none [of takes_it "rt_pc s" t] by (auto simp: rt_takes_def)

lemma wrote_runs: "none runs_it pc \<Longrightarrow> none wrote pc"
  by (erule none_mono) (auto simp: wrote_def)

lemma rt_takes_step:
  "rt_step s s' \<Longrightarrow> rt_counts s \<Longrightarrow> rt_runs s \<Longrightarrow> rt_takes s \<Longrightarrow> rt_takes s'"
proof (induction rule: rt_step.induct)
  case (rt_claim s t)
  then show ?case
    by (simp add: rt_takes_def rt_runs_def pc_keep) (auto intro: pc_move removing_takes)
next
  case (rt_spun s t)
  with taker_there [of s t] show ?case
    by (simp add: rt_takes_def pc_keep no_readers)
next
  case (rt_move s t)
  with taker_there [of s t] not_none [of removing "rt_pc s" t] show ?case
    by (auto simp: rt_takes_def pc_keep wrote_runs intro: pc_move)
next
  case (rt_begin s t)
  then show ?case
    by (simp add: rt_takes_def rt_runs_def pc_keep)
next
  case (rt_publish s t)
  with runner_there [of s t] not_none [of wrote "rt_pc s" t] show ?case
    by (auto simp: rt_takes_def rt_runs_def pc_keep intro: pc_move)
next
  case (rt_lost s t)
  with runner_there [of s t] show ?case
    by (auto simp: rt_takes_def rt_runs_def pc_keep intro: pc_move)
next
  case (rt_stop st s)
  then show ?case by (cases st) (auto simp: rt_takes_def)
next
  case (rt_recycle s t)
  with noneD [of again "rt_pc s" t] show ?case by (simp add: rt_takes_def)
next
  case (rt_respun s t)
  with noneD [of again "rt_pc s" t] show ?case by (simp add: rt_takes_def)
next
  case (rt_recycle_none s t)
  with noneD [of again "rt_pc s" t] show ?case by (simp add: rt_takes_def)
next
  case (rt_enter_ok s t)
  then show ?case by (simp add: rt_takes_def rt_runs_def pc_keep removing_takes)
next
  case (rt_leave s t)
  then have "none reads (rt_pc s) \<Longrightarrow> none reads ((rt_pc s)(t := Away))"
    by (simp add: none_drop)
  with rt_leave show ?case
    by (elim disjE) (simp add: rt_takes_def pc_keep; blast)+
qed (simp_all add: rt_takes_def rt_runs_def pc_keep not_none)

lemma rt_init_inv: "rt_counts (rt_init b)" "rt_runs (rt_init b)" "\<not> b \<Longrightarrow> rt_takes (rt_init b)"
  by (auto simp: rt_init_def rt_counts_def rt_runs_def rt_takes_def counted_set_def uniq_init)

lemma rt_reachable_runs:
  assumes "rt_reachable b s"
  shows "rt_counts s \<and> rt_runs s"
  using assms unfolding rt_reachable_def
  by (induction rule: rtranclp_induct) (auto intro: rt_init_inv rt_counts_step rt_runs_step)

lemma rt_reachable_takes:
  assumes "rt_reachable False s"
  shows "rt_counts s \<and> rt_runs s \<and> rt_takes s"
  using assms unfolding rt_reachable_def
  by (induction rule: rtranclp_induct)
    (auto intro: rt_init_inv rt_counts_step rt_runs_step rt_takes_step)

section \<open>A take that races the next run\<close>

lemmas rt_chain = leads_step [where step = rt_step]

lemma take_after_drop: "leads rt_step (rt_init True) (\<lambda>s. rt_pc s 1 = Moving \<and> \<not> rt_live s)"
  unfolding rt_init_def
  apply (rule rt_chain [OF rt_step.rt_begin [where t = 0]], (simp; fail)+, simp)
  apply (rule rt_chain [OF rt_step.rt_write [where t = 0]], (simp; fail)+, simp)
  apply (rule rt_chain [OF rt_step.rt_fill [where t = 0]], (simp; fail)+, simp)
  apply (rule rt_chain [OF rt_step.rt_publish [where t = 0]], (simp; fail)+, simp)
  apply (rule rt_chain [OF rt_step.rt_claim [where t = 1]], (simp; fail)+, simp)
  apply (rule rt_chain [OF rt_step.rt_spun [where t = 1]], (simp; fail)+, simp)
  apply (rule rt_chain [OF rt_step.rt_again [where t = 0]], (simp; fail)+, simp)
  apply (rule rt_chain [OF rt_step.rt_respun [where t = 0]], (simp; fail)+, simp)
  apply (rule rt_chain [OF rt_step.rt_recycle [where t = 0]], (simp; fail)+, simp)
  apply (rule rt_chain [OF rt_step.rt_empty [where t = 1]], (simp; fail)+, simp)
  apply (rule leads_here)
  apply simp
  done

lemma take_of_next: "leads rt_step (rt_init True) (\<lambda>s. rt_state s = Ready \<and> rt_filled s \<and> \<not> rt_live s)"
  unfolding rt_init_def
  apply (rule rt_chain [OF rt_step.rt_begin [where t = 0]], (simp; fail)+, simp)
  apply (rule rt_chain [OF rt_step.rt_write [where t = 0]], (simp; fail)+, simp)
  apply (rule rt_chain [OF rt_step.rt_fill [where t = 0]], (simp; fail)+, simp)
  apply (rule rt_chain [OF rt_step.rt_publish [where t = 0]], (simp; fail)+, simp)
  apply (rule rt_chain [OF rt_step.rt_claim [where t = 1]], (simp; fail)+, simp)
  apply (rule rt_chain [OF rt_step.rt_spun [where t = 1]], (simp; fail)+, simp)
  apply (rule rt_chain [OF rt_step.rt_empty [where t = 1]], (simp; fail)+, simp)
  apply (rule rt_chain [OF rt_step.rt_again [where t = 0]], (simp; fail)+, simp)
  apply (rule rt_chain [OF rt_step.rt_respun [where t = 0]], (simp; fail)+, simp)
  apply (rule rt_chain [OF rt_step.rt_recycle_none [where t = 0]], (simp; fail)+, simp)
  apply (rule rt_chain [OF rt_step.rt_write [where t = 0]], (simp; fail)+, simp)
  apply (rule rt_chain [OF rt_step.rt_fill [where t = 0]], (simp; fail)+, simp)
  apply (rule rt_chain [OF rt_step.rt_publish [where t = 0]], (simp; fail)+, simp)
  apply (rule rt_chain [OF rt_step.rt_move [where t = 1]], (simp; fail)+, simp)
  apply (rule leads_here)
  apply simp
  done

section \<open>Properties\<close>

text \<open>
  C3: for a task that runs once, whoever may write, move out or drop the output does so
  alone: no reader is cloning it and nobody else owns it, what is read or moved is a live
  value, and it is moved out at most once, in every interleaving of reads, takes, the
  run and cancels.
\<close>
theorem output_exclusive:
  assumes "rt_reachable False s"
  shows "(\<forall>t u. owns_payload (rt_pc s t) \<and> (owns_payload (rt_pc s u) \<or> rt_pc s u = Reading) \<longrightarrow> t = u) \<and>
    (\<forall>t. rt_pc s t = Reading \<or> rt_pc s t = Moving \<longrightarrow> rt_live s) \<and> rt_moved s \<le> 1"
proof -
  from rt_reachable_takes [OF assms] have inv: "rt_runs s" "rt_takes s" by auto
  then have uniq: "uniq runs_it (rt_pc s)" "uniq takes_it (rt_pc s)"
    and apart: "none takes_it (rt_pc s) \<or> none runs_it (rt_pc s)"
      "none removing (rt_pc s) \<or> none reads (rt_pc s)" "none past_wait (rt_pc s) \<or> none reads (rt_pc s)"
    and live: "none takes_it (rt_pc s) \<or> rt_live s" "none reads (rt_pc s) \<or> rt_live s"
    and once: "rt_moved s \<le> 1"
    by (simp_all add: rt_runs_def rt_takes_def)
  have "t = u" if "owns_payload (rt_pc s t)" "owns_payload (rt_pc s u)" for t u
  proof -
    from that have "runs_it (rt_pc s t) \<or> takes_it (rt_pc s t)" "runs_it (rt_pc s u) \<or> takes_it (rt_pc s u)"
      by (auto simp: owns_payload_def)
    with apart(1) uniq show ?thesis by (meson noneD uniqD)
  qed
  moreover have "rt_pc s u \<noteq> Reading" if "owns_payload (rt_pc s t)" for t u
  proof -
    from that have "removing (rt_pc s t) \<or> past_wait (rt_pc s t)"
      by (auto simp: owns_payload_def)
    with apart(2,3) have "none reads (rt_pc s)" by (meson noneD)
    then show ?thesis using noneD [of reads "rt_pc s" u] by (auto simp: reads_def)
  qed
  moreover have "rt_live s" if "rt_pc s t = Reading \<or> rt_pc s t = Moving" for t
  proof -
    from that have "reads (rt_pc s t) \<or> takes_it (rt_pc s t)" by auto
    with live show ?thesis by (meson noneD)
  qed
  ultimately show ?thesis using once by blast
qed

lemma rt_init_reachable: "rt_reachable b (rt_init b)"
  by (simp add: rt_reachable_def)

theorem output_exclusive_witness:
  "rt_moved (rt_init False) \<le> 1 \<and> (\<forall>t. \<not> (rt_pc (rt_init False) t = Moving \<and> \<not> rt_live (rt_init False)))"
  using output_exclusive [OF rt_init_reachable [of False]] by blast

text \<open>
  a repeat's next run, and any run, only touches the output once no reader is left:
  from the moment the wait for readers is over until the run publishes, no reader is
  cloning the output, and there is one such run at most.
\<close>
theorem run_excludes_readers:
  assumes "rt_reachable repeating s" and "past_wait (rt_pc s t)"
  shows "rt_pc s u \<noteq> Reading \<and> (runs_it (rt_pc s u) \<longrightarrow> u = t)"
proof -
  from rt_reachable_runs [OF assms(1)]
  have "uniq runs_it (rt_pc s)" "none past_wait (rt_pc s) \<or> none reads (rt_pc s)"
    by (simp_all add: rt_runs_def)
  moreover have "runs_it (rt_pc s t)" using assms(2) by (auto simp: past_wait_def)
  ultimately show ?thesis
    using assms(2) by (metis noneD reads_simps(3) uniqD)
qed

lemma rt_begun: "rt_reachable True (at 3 Executing ((rt_init True)\<lparr>rt_state := Running\<rparr>))"
  unfolding rt_reachable_def using rt_step.rt_begin [of "rt_init True" 3] by (simp add: rt_init_def)

theorem run_excludes_readers_witness:
  "rt_pc (at 3 Executing ((rt_init True)\<lparr>rt_state := Running\<rparr>)) 4 \<noteq> Reading"
  using run_excludes_readers [OF rt_begun, of 3 4] by simp

text \<open>
  C37: for a task that repeats, a take is not safe against the next run. One interleaving
  has the taker move out a value the run has already dropped, and another leaves the
  output marked ready and filled although a slow take has moved it away.
\<close>
theorem take_races_repeat:
  "leads rt_step (rt_init True) (\<lambda>s. rt_pc s 1 = Moving \<and> \<not> rt_live s) \<and>
   leads rt_step (rt_init True) (\<lambda>s. rt_state s = Ready \<and> rt_filled s \<and> \<not> rt_live s)"
  using take_after_drop take_of_next by simp

end
