(* ===== verification/Thread_Slots.thy ===== *)
theory Thread_Slots
  imports Task_Data
begin

text \<open>
  \<open>src/modules/thread_slot.rs\<close>: what a worker and a sleep thread both keep about the
  thread behind them. Every move on the state word is one exchange, update or store of it.
  Sleeping on the word is \<open>park\<close>, whose \<open>meanwhile\<close> is what others do to the slot while
  the thread is asleep.
\<close>

section \<open>The slot\<close>

record thread_slot =
  ts_state :: worker_state
  ts_current :: nat
  ts_idle_ticks :: u32

definition thread_slot_new :: thread_slot where
  "thread_slot_new = \<lparr>ts_state = Empty, ts_current = 0, ts_idle_ticks = 0\<rparr>"

definition exchange :: "worker_state \<Rightarrow> worker_state \<Rightarrow> thread_slot \<Rightarrow> bool \<times> thread_slot" where
  "exchange from to ts =
     (let (ok, st) = compare_exchange (ts_state ts) from to in (ok, ts\<lparr>ts_state := st\<rparr>))"

definition slot_alive :: "thread_slot \<Rightarrow> bool" where
  "slot_alive ts = alive (ts_state ts)"

definition slot_busy :: "thread_slot \<Rightarrow> bool" where
  "slot_busy ts = busy (ts_state ts)"

definition idled :: "thread_slot \<Rightarrow> u32 \<times> thread_slot" where
  "idled ts = (ts_idle_ticks ts + 1, ts\<lparr>ts_idle_ticks := ts_idle_ticks ts + 1\<rparr>)"

definition busied :: "thread_slot \<Rightarrow> thread_slot" where
  "busied ts = ts\<lparr>ts_idle_ticks := 0\<rparr>"

definition slot_claim :: "thread_slot \<Rightarrow> bool \<times> thread_slot" where
  "slot_claim = exchange Empty Starting"

definition slot_empty :: "thread_slot \<Rightarrow> thread_slot" where
  "slot_empty ts = ts\<lparr>ts_state := Empty\<rparr>"

text \<open>\<open>spawned\<close> is whether a thread could be started, which a test or the kernel can refuse.\<close>

definition slot_start :: "bool \<Rightarrow> thread_slot \<Rightarrow> bool \<times> thread_slot" where
  "slot_start spawned ts = (if spawned then (True, ts) else (False, slot_empty ts))"

definition started :: "thread_slot \<Rightarrow> thread_slot" where
  "started ts = snd (exchange Starting Idle ts)"

definition stop_slot :: "thread_slot \<Rightarrow> thread_slot" where
  "stop_slot ts =
     ts\<lparr>ts_state := snd (fetch_update (\<lambda>st. if alive st then Some Stopping else None) (ts_state ts))\<rparr>"

definition wake_slot :: "thread_slot \<Rightarrow> bool \<times> thread_slot" where
  "wake_slot = exchange Parked Idle"

definition hold :: "nat \<Rightarrow> thread_slot \<Rightarrow> thread_slot" where
  "hold i ts = ts\<lparr>ts_current := i + 1\<rparr>"

definition put_down :: "thread_slot \<Rightarrow> thread_slot" where
  "put_down ts = ts\<lparr>ts_current := 0\<rparr>"

definition take_held :: "thread_slot \<Rightarrow> nat \<times> thread_slot" where
  "take_held ts =
     ((if ts_current ts = 0 then NO_TASK else ts_current ts - 1), ts\<lparr>ts_current := 0\<rparr>)"

definition begin_task :: "thread_slot \<Rightarrow> bool \<times> thread_slot" where
  "begin_task = exchange Idle WRunning"

definition end_task :: "thread_slot \<Rightarrow> thread_slot" where
  "end_task ts = snd (exchange WRunning Idle ts)"

definition mark_dead :: "thread_slot \<Rightarrow> thread_slot" where
  "mark_dead ts = ts\<lparr>ts_state := Dead\<rparr>"

definition claim_recovery :: "thread_slot \<Rightarrow> bool \<times> thread_slot" where
  "claim_recovery = exchange Dead Recovering"

definition park_slot :: "bool \<Rightarrow> (thread_slot \<Rightarrow> thread_slot) \<Rightarrow> thread_slot \<Rightarrow> thread_slot" where
  "park_slot has_work meanwhile ts =
     (let (parked, ts1) = exchange Idle Parked ts in
      if \<not> parked then ts1
      else if has_work then snd (exchange Parked Idle ts1)
      else snd (exchange Parked Idle (meanwhile ts1)))"

lemmas slot_ops = exchange_def slot_claim_def slot_empty_def slot_start_def started_def stop_slot_def
  wake_slot_def hold_def put_down_def take_held_def begin_task_def end_task_def mark_dead_def
  claim_recovery_def idled_def busied_def compare_exchange_def

section \<open>One thread per slot\<close>

text \<open>The claim of an empty slot, of a death and of a park each have one winner.\<close>

interpretation start_claim: one_winner slot_claim "\<lambda>ts. ts_state ts = Empty"
  by unfold_locales (simp_all add: slot_ops)

interpretation recovery_claim: one_winner claim_recovery "\<lambda>ts. ts_state ts = Dead"
  by unfold_locales (simp_all add: slot_ops)

interpretation wake_claim: one_winner wake_slot "\<lambda>ts. ts_state ts = Parked"
  by unfold_locales (simp_all add: slot_ops)

section \<open>Lives of a slot\<close>

text \<open>
  The moves made on a slot: by whoever starts a thread in it (\<open>MClaim\<close>, \<open>MStart\<close>), by
  the thread itself (\<open>MStarted\<close> to \<open>MDie\<close>), and by others (\<open>MStop\<close>, \<open>MWake\<close>,
  \<open>MRecover\<close>). The thread's own moves happen only while it is up, and it leaves by emptying
  its slot once it has seen that it should stop. A recovery empties the slot it claimed.
\<close>

datatype slot_act =
    MClaim | MStart bool | MStarted | MBegin | MEnd | MPark bool | MLeave | MDie
  | MStop | MWake | MRecover

fun may_move :: "slot_act \<Rightarrow> worker_state \<Rightarrow> bool" where
  "may_move MClaim st = True"
| "may_move (MStart ok) st = (st = Starting \<or> st = Stopping)"
| "may_move MStarted st = (st = Starting \<or> st = Stopping)"
| "may_move MBegin st = (st = Idle \<or> st = Stopping)"
| "may_move MEnd st = (st = WRunning \<or> st = Stopping)"
| "may_move (MPark work) st = (st = Idle \<or> st = Stopping)"
| "may_move MLeave st = (st = Stopping)"
| "may_move MDie st = alive st"
| "may_move MStop st = True"
| "may_move MWake st = True"
| "may_move MRecover st = True"

text \<open>A park that finds no work is left at its sleep, from where a wake or a stop takes it.\<close>

fun slot_move :: "slot_act \<Rightarrow> thread_slot \<Rightarrow> thread_slot" where
  "slot_move MClaim ts = snd (slot_claim ts)"
| "slot_move (MStart ok) ts = snd (slot_start ok ts)"
| "slot_move MStarted ts = started ts"
| "slot_move MBegin ts = snd (begin_task ts)"
| "slot_move MEnd ts = end_task ts"
| "slot_move (MPark work) ts =
     (if work then park_slot True id ts else snd (exchange Idle Parked ts))"
| "slot_move MLeave ts = slot_empty ts"
| "slot_move MDie ts = mark_dead ts"
| "slot_move MStop ts = stop_slot ts"
| "slot_move MWake ts = snd (wake_slot ts)"
| "slot_move MRecover ts =
     (let (mine, ts1) = claim_recovery ts in if mine then slot_empty ts1 else ts1)"

inductive slot_life :: "slot_act list \<Rightarrow> thread_slot \<Rightarrow> thread_slot \<Rightarrow> bool" where
  life_nil: "slot_life [] ts ts"
| life_move: "may_move m (ts_state ts) \<Longrightarrow> slot_life ms (slot_move m ts) ts' \<Longrightarrow> slot_life (m # ms) ts ts'"

inductive_cases slot_life_consE: "slot_life (m # ms) ts ts'"
inductive_simps slot_life_nil: "slot_life [] ts ts'"

text \<open>
  Asked to stop, a slot stays so until its thread leaves or dies: none of the exchanges the
  thread, a waker or a parker makes writes over the stop. A start that was refused empties
  the slot, which had no thread to stop.
\<close>

lemma stop_sticks:
  "ts_state ts = Stopping \<Longrightarrow> m \<notin> {MLeave, MDie, MStart False} \<Longrightarrow> ts_state (slot_move m ts) = Stopping"
  by (cases m) (auto simp: slot_ops park_slot_def alive_def)

lemma stopping_life:
  assumes "slot_life ms ts ts'" "ts_state ts = Stopping" "set ms \<inter> {MLeave, MDie, MStart False} = {}"
  shows "ts_state ts' = Stopping"
  using assms by (induction rule: slot_life.induct) (auto simp: stop_sticks)

lemma stop_alive: "slot_alive ts \<Longrightarrow> ts_state (stop_slot ts) = Stopping"
  by (simp add: stop_slot_def slot_alive_def)

section \<open>Properties\<close>

text \<open>
  a thread asked to stop can't miss it. Whatever moves are made on its slot after the
  request, by the thread, by wakers or by other callers, the slot still says it is stopping
  when the thread next looks, until the thread leaves or dies, or turns out never to have
  been started.
\<close>
theorem stop_not_lost:
  assumes "slot_alive ts" "slot_life ms (stop_slot ts) ts'" "set ms \<inter> {MLeave, MDie, MStart False} = {}"
  shows "ts_state ts' = Stopping"
  by (rule stopping_life [OF assms(2) stop_alive [OF assms(1)] assms(3)])

theorem stop_not_lost_witness:
  "ts_state (foldl (\<lambda>ts m. slot_move m ts) (stop_slot (thread_slot_new\<lparr>ts_state := Starting\<rparr>))
     [MStart True, MStarted, MWake, MPark False, MWake, MBegin, MEnd]) = Stopping"
proof -
  let ?ts = "thread_slot_new\<lparr>ts_state := Starting\<rparr>"
  let ?ms = "[MStart True, MStarted, MWake, MPark False, MWake, MBegin, MEnd]"
  have "slot_life ?ms (stop_slot ?ts) (foldl (\<lambda>ts m. slot_move m ts) (stop_slot ?ts) ?ms)"
    by (intro slot_life.intros | simp add: slot_ops alive_def)+
  moreover have "slot_alive ?ts" by (simp add: slot_alive_def alive_def)
  ultimately show ?thesis using stop_not_lost [of ?ts ?ms] by simp
qed

text \<open>
  of any number of callers that try to start a thread in a slot, to clear up after a
  death or to take a thread out of its park, exactly the first succeeds, and only when the
  slot is empty, dead or parked.
\<close>
theorem slot_claims_exclusive:
  "calls slot_claim (Suc n) ts = (ts_state ts = Empty) # replicate n False \<and>
   calls claim_recovery (Suc n) ts = (ts_state ts = Dead) # replicate n False \<and>
   calls wake_slot (Suc n) ts = (ts_state ts = Parked) # replicate n False"
  by (intro conjI start_claim.first_wins recovery_claim.first_wins wake_claim.first_wins)

end
