(* ===== verification/Park_Race.thy ===== *)
theory Park_Race
  imports Thread_Slots
begin

text \<open>
  The handshake between a thread that goes to sleep and a caller that queues work for it:
  \<open>ThreadSlot::park\<close> in \<open>src/modules/thread_slot.rs\<close> against \<open>submit\<close> and
  \<open>wake_one\<close> in \<open>src/modules/worker_pool.rs\<close>. Every single access to the count of queued
  tasks, the count of parked threads and a state word is a step, and any number of threads and
  callers take their steps in any order.

  A look for work may miss a task that is there, and the kernel's wait may return without
  reason. A thread is asleep for good only while it waits and its word says parked.
\<close>

section \<open>Threads and callers\<close>

text \<open>
  A parking thread counts itself in (\<open>WCount\<close>), exchanges its word (\<open>WExchange\<close>), looks
  once more (\<open>WCheck\<close>), and either takes the park back (\<open>WUndo\<close>, \<open>WUncount\<close>) or waits
  (\<open>WWait\<close>), counts itself out (\<open>WOut\<close>) and puts its word back (\<open>WBack\<close>).
\<close>

datatype park_pc = WLook | WCount | WExchange | WCheck | WUndo | WUncount | WWait | WOut | WBack

text \<open>A caller queues, reads the count of parked threads, and tries the threads one by one.\<close>

datatype submit_pc = SPush | SRead | SScan "nat list" | SDone

record handshake =
  hs_queue :: nat
  hs_parked :: nat
  hs_slot :: "nat \<Rightarrow> thread_slot"
  hs_pc :: "nat \<Rightarrow> park_pc"
  hs_caller :: "nat \<Rightarrow> submit_pc"

abbreviation word_of :: "handshake \<Rightarrow> nat \<Rightarrow> worker_state" where
  "word_of s t \<equiv> ts_state (hs_slot s t)"

definition goto_pc :: "nat \<Rightarrow> park_pc \<Rightarrow> handshake \<Rightarrow> handshake" where
  "goto_pc t p s = s\<lparr>hs_pc := (hs_pc s)(t := p)\<rparr>"

definition call_pc :: "nat \<Rightarrow> submit_pc \<Rightarrow> handshake \<Rightarrow> handshake" where
  "call_pc c p s = s\<lparr>hs_caller := (hs_caller s)(c := p)\<rparr>"

definition set_slot :: "nat \<Rightarrow> thread_slot \<Rightarrow> handshake \<Rightarrow> handshake" where
  "set_slot t ts s = s\<lparr>hs_slot := (hs_slot s)(t := ts)\<rparr>"

text \<open>One step of thread \<open>t\<close>.\<close>

inductive park_step :: "nat \<Rightarrow> handshake \<Rightarrow> handshake \<Rightarrow> bool" for t where
  look_took: "hs_pc s t = WLook \<Longrightarrow> 0 < hs_queue s \<Longrightarrow> park_step t s (s\<lparr>hs_queue := hs_queue s - 1\<rparr>)"
| look_missed: "hs_pc s t = WLook \<Longrightarrow> park_step t s (goto_pc t WCount s)"
| count_in: "hs_pc s t = WCount \<Longrightarrow>
    park_step t s (goto_pc t WExchange (s\<lparr>hs_parked := hs_parked s + 1\<rparr>))"
| announce: "hs_pc s t = WExchange \<Longrightarrow> exchange Idle Parked (hs_slot s t) = (ok, ts) \<Longrightarrow>
    park_step t s (goto_pc t (if ok then WCheck else WUncount) (set_slot t ts s))"
| check_work: "hs_pc s t = WCheck \<Longrightarrow>
    park_step t s (goto_pc t (if 0 < hs_queue s then WUndo else WWait) s)"
| undo: "hs_pc s t = WUndo \<Longrightarrow>
    park_step t s (goto_pc t WUncount (set_slot t (snd (exchange Parked Idle (hs_slot s t))) s))"
| count_out: "hs_pc s t = WUncount \<Longrightarrow>
    park_step t s (goto_pc t WLook (s\<lparr>hs_parked := hs_parked s - 1\<rparr>))"
| wait_over: "hs_pc s t = WWait \<Longrightarrow> park_step t s (goto_pc t WOut s)"
| woke_out: "hs_pc s t = WOut \<Longrightarrow>
    park_step t s (goto_pc t WBack (s\<lparr>hs_parked := hs_parked s - 1\<rparr>))"
| back_to_idle: "hs_pc s t = WBack \<Longrightarrow>
    park_step t s (goto_pc t WLook (set_slot t (snd (exchange Parked Idle (hs_slot s t))) s))"

text \<open>One step of caller \<open>c\<close>, in a pool of \<open>n\<close> threads. The search starts anywhere.\<close>

inductive submit_step :: "nat \<Rightarrow> nat \<Rightarrow> handshake \<Rightarrow> handshake \<Rightarrow> bool" for n c where
  push_work: "hs_caller s c = SPush \<Longrightarrow>
    submit_step n c s (call_pc c SRead (s\<lparr>hs_queue := hs_queue s + 1\<rparr>))"
| read_none: "hs_caller s c = SRead \<Longrightarrow> hs_parked s = 0 \<Longrightarrow> submit_step n c s (call_pc c SDone s)"
| read_some: "hs_caller s c = SRead \<Longrightarrow> hs_parked s \<noteq> 0 \<Longrightarrow> start < n \<Longrightarrow>
    submit_step n c s (call_pc c (SScan (map (\<lambda>o'. (start + o') mod n) [0..<n])) s)"
| scan_wake: "hs_caller s c = SScan (t # ts) \<Longrightarrow> wake_slot (hs_slot s t) = (True, sl) \<Longrightarrow>
    submit_step n c s (call_pc c SDone (set_slot t sl s))"
| scan_next: "hs_caller s c = SScan (t # ts) \<Longrightarrow> wake_slot (hs_slot s t) = (False, sl) \<Longrightarrow>
    submit_step n c s (call_pc c (SScan ts) s)"
| scan_end: "hs_caller s c = SScan [] \<Longrightarrow> submit_step n c s (call_pc c SDone s)"
| again: "hs_caller s c = SDone \<Longrightarrow> submit_step n c s (call_pc c SPush s)"

definition hs_step :: "nat \<Rightarrow> handshake \<Rightarrow> handshake \<Rightarrow> bool" where
  "hs_step n s s' \<longleftrightarrow> (\<exists>t < n. park_step t s s') \<or> (\<exists>c. submit_step n c s s')"

definition hs_init :: handshake where
  "hs_init =
     \<lparr>hs_queue = 0, hs_parked = 0, hs_slot = (\<lambda>_. thread_slot_new\<lparr>ts_state := Idle\<rparr>),
      hs_pc = (\<lambda>_. WLook), hs_caller = (\<lambda>_. SPush)\<rparr>"

section \<open>Nobody sleeps through work\<close>

definition asleep :: "handshake \<Rightarrow> nat \<Rightarrow> bool" where
  "asleep s t \<longleftrightarrow> hs_pc s t = WWait \<and> word_of s t = Parked"

definition counted :: "park_pc \<Rightarrow> bool" where
  "counted p \<longleftrightarrow> p \<in> {WExchange, WCheck, WUndo, WUncount, WWait, WOut}"

definition count_ok :: "nat \<Rightarrow> handshake \<Rightarrow> bool" where
  "count_ok n s \<longleftrightarrow> hs_parked s = card {t. t < n \<and> counted (hs_pc s t)}"

text \<open>With work queued, a thread is up, or a caller is still on its way to one that isn't.\<close>

definition looked_after :: "nat \<Rightarrow> handshake \<Rightarrow> bool" where
  "looked_after n s \<longleftrightarrow>
     0 < hs_queue s \<longrightarrow>
       (\<exists>t < n. \<not> asleep s t) \<or> (\<exists>c. hs_caller s c = SRead) \<or>
       (\<exists>c ts. hs_caller s c = SScan ts \<and> (\<exists>t \<in> set ts. word_of s t = Parked))"

lemmas hs_defs = goto_pc_def call_pc_def set_slot_def

lemma parked_count_simps [simp]:
  "\<not> counted WLook" "\<not> counted WCount" "counted WExchange" "counted WCheck" "counted WUndo"
  "counted WUncount" "counted WWait" "counted WOut" "\<not> counted WBack"
  by (simp_all add: counted_def)

lemma card_counted_in:
  assumes "t < (n :: nat)" "\<not> P (f t)" "P p"
  shows "card {u. u < n \<and> P ((f(t := p)) u)} = Suc (card {u. u < n \<and> P (f u)})"
proof -
  have "{u. u < n \<and> P ((f(t := p)) u)} = insert t {u. u < n \<and> P (f u)}" using assms by auto
  moreover have "finite {u. u < n \<and> P (f u)}" by (rule finite_subset [of _ "{..<n}"]) auto
  ultimately show ?thesis using assms(2) by (simp del: fun_upd_apply)
qed

lemma card_counted_out:
  assumes "t < (n :: nat)" "P (f t)" "\<not> P p"
  shows "card {u. u < n \<and> P ((f(t := p)) u)} = card {u. u < n \<and> P (f u)} - 1"
proof -
  have "{u. u < n \<and> P ((f(t := p)) u)} = {u. u < n \<and> P (f u)} - {t}" using assms by auto
  then show ?thesis using assms by (simp del: fun_upd_apply)
qed

lemma card_counted_same: "P (f t) = P p \<Longrightarrow> {u. u < n \<and> P ((f(t := p)) u)} = {u. u < n \<and> P (f u)}"
  by auto

lemma park_count: "park_step t s s' \<Longrightarrow> t < n \<Longrightarrow> count_ok n s \<Longrightarrow> count_ok n s'"
  by (induction rule: park_step.induct)
    (simp_all add: count_ok_def hs_defs card_counted_in card_counted_out card_counted_same
      del: fun_upd_apply)

lemma submit_count: "submit_step n c s s' \<Longrightarrow> count_ok n s \<Longrightarrow> count_ok n s'"
  by (induction rule: submit_step.induct) (simp_all add: count_ok_def hs_defs)

text \<open>A thread's own step puts it to sleep only when nothing is queued.\<close>

lemma park_awake: "park_step t s s' \<Longrightarrow> \<not> asleep s' t \<or> hs_queue s' = 0"
  by (induction rule: park_step.induct) (auto simp: asleep_def hs_defs)

lemma park_looked_after: "park_step t s s' \<Longrightarrow> t < n \<Longrightarrow> looked_after n s'"
  using park_awake [of t s s'] by (auto simp: looked_after_def)

lemma wake_slot_cases:
  "wake_slot ts = (True, ts') \<Longrightarrow> ts_state ts' = Idle" "wake_slot ts = (False, ts') \<Longrightarrow> ts_state ts \<noteq> Parked"
  by (auto simp: wake_slot_def exchange_def compare_exchange_def split: if_splits)

lemma none_parked: "count_ok n s \<Longrightarrow> hs_parked s = 0 \<Longrightarrow> t < n \<Longrightarrow> \<not> asleep s t"
  by (auto simp: count_ok_def asleep_def)

lemma scan_covers: "t < n \<Longrightarrow> t \<in> set (map (\<lambda>o'. (start + o') mod n) [0..<n])"
proof -
  assume t: "t < n"
  let ?o = "(n - start mod n + t) mod n"
  have "(start + ?o) mod n = (start mod n + (n - start mod n + t)) mod n" by (simp add: mod_simps)
  also have "start mod n < n" using t by simp
  then have "start mod n + (n - start mod n + t) = n + t" by linarith
  also have "(n + t) mod n = t" using t by simp
  finally show ?thesis using t by (auto intro!: image_eqI [of _ _ ?o])
qed

lemma looked_after_call:
  assumes L: "looked_after n s" and c: "hs_caller s c = SScan [] \<or> hs_caller s c = SDone"
  shows "looked_after n (call_pc c p s)"
  unfolding looked_after_def
proof (rule impI)
  assume "0 < hs_queue (call_pc c p s)"
  then consider (up) t where "t < n" "\<not> asleep s t" | (reads) d where "hs_caller s d = SRead"
    | (scans) d ts t where "hs_caller s d = SScan ts" "t \<in> set ts" "word_of s t = Parked"
    using L by (auto simp: looked_after_def hs_defs)
  then show "(\<exists>t < n. \<not> asleep (call_pc c p s) t) \<or> (\<exists>d. hs_caller (call_pc c p s) d = SRead) \<or>
    (\<exists>d ts. hs_caller (call_pc c p s) d = SScan ts \<and> (\<exists>t \<in> set ts. word_of (call_pc c p s) t = Parked))"
  proof cases
    case up
    then show ?thesis by (auto simp: hs_defs asleep_def)
  next
    case reads
    then have "hs_caller (call_pc c p s) d = SRead" using c by (auto simp: hs_defs)
    then show ?thesis by blast
  next
    case scans
    then have "hs_caller (call_pc c p s) d = SScan ts" "word_of (call_pc c p s) t = Parked"
      using c by (auto simp: hs_defs)
    with scans(2) show ?thesis by blast
  qed
qed

lemma submit_looked_after:
  assumes "submit_step n c s s'" "0 < n" "count_ok n s" "looked_after n s" "\<forall>c ts. hs_caller s c = SScan ts \<longrightarrow> set ts \<subseteq> {..<n}"
  shows "looked_after n s'"
  using assms(1)
proof cases
  case push_work
  then show ?thesis by (auto simp: looked_after_def hs_defs)
next
  case read_none
  have "\<not> asleep s 0" by (rule none_parked [OF assms(3)]) (use read_none assms(2) in simp_all)
  then show ?thesis using read_none assms(2) by (auto simp: looked_after_def hs_defs asleep_def)
next
  case (read_some start)
  show ?thesis
  proof (cases "asleep s 0")
    case True
    let ?ts = "map (\<lambda>o'. (start + o') mod n) [0..<n]"
    have "hs_caller s' c = SScan ?ts" "word_of s' 0 = Parked"
      using read_some True by (simp_all add: hs_defs asleep_def)
    with scan_covers [OF assms(2), of start] show ?thesis unfolding looked_after_def by blast
  next
    case False
    then show ?thesis using read_some assms(2) by (auto simp: looked_after_def hs_defs asleep_def)
  qed
next
  case (scan_wake t ts sl)
  then have "t < n" using assms(5) by fastforce
  then show ?thesis using scan_wake wake_slot_cases(1) by (force simp: looked_after_def hs_defs asleep_def)
next
  case (scan_next t ts sl)
  then have "t < n" "word_of s t \<noteq> Parked" using assms(5) wake_slot_cases(2) by fastforce+
  then show ?thesis using scan_next by (force simp: looked_after_def hs_defs asleep_def)
next
  case scan_end
  then show ?thesis using looked_after_call [OF assms(4)] by simp
next
  case again
  then show ?thesis using looked_after_call [OF assms(4)] by simp
qed

definition scans_ok :: "nat \<Rightarrow> handshake \<Rightarrow> bool" where
  "scans_ok n s \<longleftrightarrow> (\<forall>c ts. hs_caller s c = SScan ts \<longrightarrow> set ts \<subseteq> {..<n})"

lemma submit_scans: "submit_step n c s s' \<Longrightarrow> 0 < n \<Longrightarrow> scans_ok n s \<Longrightarrow> scans_ok n s'"
  by (induction rule: submit_step.induct) (fastforce simp: scans_ok_def hs_defs split: if_splits)+

lemma park_scans: "park_step t s s' \<Longrightarrow> scans_ok n s \<Longrightarrow> scans_ok n s'"
  by (induction rule: park_step.induct) (simp_all add: scans_ok_def hs_defs)

lemma hs_step_inv:
  "hs_step n s s' \<Longrightarrow> 0 < n \<Longrightarrow> count_ok n s \<and> scans_ok n s \<and> looked_after n s \<Longrightarrow>
   count_ok n s' \<and> scans_ok n s' \<and> looked_after n s'"
  unfolding hs_step_def
  by (auto intro: park_count submit_count park_scans submit_scans park_looked_after)
    (auto intro: submit_looked_after simp: scans_ok_def)

lemma hs_reachable_inv:
  assumes "(hs_step n)\<^sup>*\<^sup>* hs_init s" "0 < n"
  shows "count_ok n s \<and> scans_ok n s \<and> looked_after n s"
  using assms(1)
proof (induction rule: rtranclp_induct)
  case base
  show ?case by (simp add: count_ok_def scans_ok_def looked_after_def hs_init_def)
next
  case (step s s')
  then show ?case using hs_step_inv assms(2) by blast
qed

section \<open>Property\<close>

text \<open>
  C12: no wake is lost between a thread going to sleep and a caller queueing work. Whatever
  the order of their steps, once every caller that has queued a task is through, some thread
  of the pool is up whenever there is work in the queue.
\<close>
theorem no_lost_wakeup:
  assumes "(hs_step n)\<^sup>*\<^sup>* hs_init s" "0 < n" "0 < hs_queue s"
    and "\<forall>c. hs_caller s c = SPush \<or> hs_caller s c = SDone"
  shows "\<exists>t < n. \<not> asleep s t"
proof -
  have "looked_after n s" using hs_reachable_inv [OF assms(1,2)] by simp
  moreover have "hs_caller s c \<noteq> SRead" "hs_caller s c \<noteq> SScan ts" for c ts
    using assms(4) by (metis submit_pc.distinct)+
  ultimately show ?thesis using assms(3) unfolding looked_after_def by blast
qed

text \<open>One thread that parks, is waited for by a caller, and is woken.\<close>

definition hs_woken :: handshake where
  "hs_woken =
     hs_init\<lparr>hs_queue := 1, hs_parked := 1, hs_pc := (\<lambda>_. WLook)(0 := WWait),
       hs_slot := (hs_slot hs_init)(0 := thread_slot_new\<lparr>ts_state := Idle\<rparr>),
       hs_caller := (\<lambda>_. SPush)(0 := SDone)\<rparr>"

lemmas hs_chain = leads_step [where step = "hs_step 1"]

lemma hs_thread: "park_step 0 s s' \<Longrightarrow> hs_step 1 s s'"
  by (auto simp: hs_step_def)

lemma hs_call: "submit_step 1 c s s' \<Longrightarrow> hs_step 1 s s'"
  by (auto simp: hs_step_def)

lemma hs_woken_reachable: "(hs_step 1)\<^sup>*\<^sup>* hs_init hs_woken"
proof -
  have "leads (hs_step 1) hs_init (\<lambda>s. s = hs_woken)"
    apply (rule hs_chain [OF hs_thread [OF look_missed]], simp add: hs_init_def)
    apply (rule hs_chain [OF hs_thread [OF count_in]], simp add: hs_defs)
    apply (rule hs_chain [OF hs_thread [OF announce]], simp add: hs_defs, rule surjective_pairing)
    apply (rule hs_chain [OF hs_thread [OF check_work]],
        simp add: hs_defs hs_init_def exchange_def)
    apply (rule hs_chain [OF hs_call [OF push_work [where c = 0]]], simp add: hs_defs hs_init_def)
    apply (rule hs_chain [OF hs_call [OF read_some [where c = 0 and start = 0]]],
        simp add: hs_defs hs_init_def, simp add: hs_defs hs_init_def, simp)
    apply (rule hs_chain [OF hs_call [OF scan_wake [where c = 0 and t = 0 and ts = "[]"
              and sl = "thread_slot_new\<lparr>ts_state := Idle\<rparr>"]]],
        simp add: hs_defs hs_init_def,
        simp add: hs_defs hs_init_def exchange_def wake_slot_def)
    apply (rule leads_here)
    apply (simp add: hs_defs hs_init_def hs_woken_def exchange_def fun_eq_iff)
    done
  then show ?thesis by (auto simp: leads_def)
qed

theorem no_lost_wakeup_witness: "\<exists>t < 1. \<not> asleep hs_woken t"
  by (rule no_lost_wakeup [OF hs_woken_reachable]) (simp_all add: hs_woken_def)

end
