(* ===== verification/Task_Table.thy ===== *)
theory Task_Table
  imports Task_Data
begin

text \<open>
  \<open>src/modules/task_table.rs\<close>: every live task in the process, addressed by id, with the
  parts of \<open>src/modules/mapping.rs\<close> it is built on. The slots themselves are \<open>tb_mem\<close>;
  a slot may be looked at when its block is mapped. What the kernel answers is a parameter:
  \<open>granted len\<close> whether it maps \<open>len\<close> bytes, \<open>pg\<close> its page size, \<open>freed\<close> whether
  it takes pages back, and \<open>zeroes i\<close> whether it has zeroed slot \<open>i\<close> of such a page.

  Each operation is run without interference. What a pop that was held up part way sees
  is treated by \<open>stalled_pop\<close> at the end.
\<close>

section \<open>Where an id lives\<close>

fun bit_length :: "nat \<Rightarrow> nat" where
  "bit_length n = (if n = 0 then 0 else Suc (bit_length (n div 2)))"

declare bit_length.simps [simp del]

definition leading_zeros :: "nat \<Rightarrow> nat" where
  "leading_zeros n = 64 - bit_length n"

definition position :: "nat \<Rightarrow> nat \<times> nat" where
  "position i =
     (let shifted = i + FIRST_BLOCK;
          highest = 64 - 1 - leading_zeros shifted;
          block = highest - FIRST_BLOCK_LOG2
      in (block, shifted - FIRST_BLOCK * 2 ^ block))"

section \<open>The table\<close>

record ('t, 'v, 'f) table =
  tb_blocks :: "nat \<Rightarrow> bool"
  tb_next_id :: nat
  tb_peak :: nat
  tb_live :: nat
  tb_trimming :: bool
  tb_free :: u64
  tb_mem :: "nat \<Rightarrow> ('t, 'v, 'f) task_data"

definition table_new :: "('t, 'v, 'f) table" where
  "table_new =
     \<lparr>tb_blocks = (\<lambda>_. False), tb_next_id = 0, tb_peak = 0, tb_live = 0, tb_trimming = False,
      tb_free = 0, tb_mem = (\<lambda>_. zero_slot)\<rparr>"

definition slot_ok :: "nat \<Rightarrow> ('t, 'v, 'f) table \<Rightarrow> bool" where
  "slot_ok i tb \<longleftrightarrow> i < MAX_TASK_ID \<and> tb_blocks tb (fst (position i))"

definition slot :: "nat \<Rightarrow> ('t, 'v, 'f) table \<Rightarrow> ('t, 'v, 'f) task_data option" where
  "slot i tb =
     (if i \<ge> MAX_TASK_ID then None
      else if \<not> tb_blocks tb (fst (position i)) then None
      else Some (tb_mem tb i))"

definition put_slot ::
  "nat \<Rightarrow> ('t, 'v, 'f) task_data \<Rightarrow> ('t, 'v, 'f) table \<Rightarrow> ('t, 'v, 'f) table" where
  "put_slot i d tb = tb\<lparr>tb_mem := (tb_mem tb)(i := d)\<rparr>"

definition block_for :: "(nat \<Rightarrow> bool) \<Rightarrow> nat \<Rightarrow> ('t, 'v, 'f) table \<Rightarrow> bool \<times> ('t, 'v, 'f) table" where
  "block_for granted i tb =
     (if i \<ge> MAX_TASK_ID then (False, tb)
      else
        (let block = fst (position i) in
         if tb_blocks tb block then (True, tb)
         else if \<not> granted (FIRST_BLOCK * 2 ^ block * SLOT_SIZE) then (False, tb)
         else (True, tb\<lparr>tb_blocks := (tb_blocks tb)(block := True)\<rparr>)))"

section \<open>Taking and handing back ids\<close>

definition head_index :: "u64 \<Rightarrow> nat" where
  "head_index head = unat (head AND INDEX_MASK)"

definition head_tag :: "u64 \<Rightarrow> u64" where
  "head_tag head = drop_bit TAG_SHIFT head"

definition pack_head :: "u64 \<Rightarrow> nat \<Rightarrow> u64" where
  "pack_head tag index = (push_bit TAG_SHIFT tag OR of_nat index)"

definition alloc :: "(nat \<Rightarrow> bool) \<Rightarrow> ('t, 'v, 'f) table \<Rightarrow> nat option \<times> ('t, 'v, 'f) table" where
  "alloc granted tb =
     (let head = tb_free tb; index = head_index head in
      if index \<noteq> 0 then
        (let i = index - 1 in
         case slot i tb of
           None \<Rightarrow> (None, tb)
         | Some d \<Rightarrow>
             (let new = pack_head (head_tag head + 1) (next_link d)
              in (Some i, tb\<lparr>tb_free := new, tb_live := tb_live tb + 1\<rparr>)))
      else
        (let i = tb_next_id tb;
             (ok, tb1) = block_for granted i (tb\<lparr>tb_next_id := i + 1\<rparr>)
         in if ok then (Some i, tb1\<lparr>tb_live := tb_live tb1 + 1\<rparr>) else (None, tb1)))"

definition push_free :: "nat \<Rightarrow> ('t, 'v, 'f) table \<Rightarrow> ('t, 'v, 'f) table" where
  "push_free i tb =
     (let index = i + 1;
          head = tb_free tb;
          tb1 = put_slot i (set_next (head_index head) (tb_mem tb i)) tb;
          new = pack_head (head_tag head) index
      in tb1\<lparr>tb_free := new\<rparr>)"

definition free_id :: "nat \<Rightarrow> ('t, 'v, 'f) table \<Rightarrow> ('t, 'v, 'f) table" where
  "free_id i tb =
     (case slot i tb of
        None \<Rightarrow> tb
      | Some d \<Rightarrow> push_free i (tb\<lparr>tb_live := tb_live tb - 1\<rparr>))"

definition peak :: "('t, 'v, 'f) table \<Rightarrow> nat" where
  "peak tb = max (tb_next_id tb) (tb_peak tb)"

section \<open>Trimming\<close>

text \<open>The walk down a drained list may not end if the list is circular, which is \<open>None\<close>.\<close>

partial_function (option) drain_loop ::
  "nat \<Rightarrow> nat \<Rightarrow> nat list \<Rightarrow> ('t, 'v, 'f) table \<Rightarrow> (nat list \<times> ('t, 'v, 'f) table) option" where
  [code]: "drain_loop floor cursor taken tb =
     (if cursor = 0 then Some (taken, tb)
      else
        (let i = cursor - 1 in
         case slot i tb of
           None \<Rightarrow> Some (taken, tb)
         | Some d \<Rightarrow>
             (if i < floor then drain_loop floor (next_link d) taken (push_free i tb)
              else drain_loop floor (next_link d) (taken @ [i]) tb)))"

definition drain_free ::
  "nat \<Rightarrow> ('t, 'v, 'f) table \<Rightarrow> (nat list \<times> ('t, 'v, 'f) table) option" where
  "drain_free floor tb =
     (let head = tb_free tb; index = head_index head in
      if index = 0 then Some ([], tb)
      else drain_loop floor index [] (tb\<lparr>tb_free := push_bit TAG_SHIFT (head_tag head + 1)\<rparr>))"

fun restore :: "nat list \<Rightarrow> nat \<Rightarrow> ('t, 'v, 'f) table \<Rightarrow> ('t, 'v, 'f) table" where
  "restore [] limit tb = tb"
| "restore (i # taken) limit tb =
     (if i \<ge> limit then restore taken limit tb
      else (case slot i tb of
              None \<Rightarrow> restore taken limit tb
            | Some d \<Rightarrow> restore taken limit (push_free i tb)))"

definition div_ceil :: "nat \<Rightarrow> nat \<Rightarrow> nat" where
  "div_ceil a b = (a + b - 1) div b"

text \<open>The slots of one block that whole pages between two ids cover, if any.\<close>

definition block_pages :: "nat \<Rightarrow> nat \<Rightarrow> nat \<Rightarrow> nat \<Rightarrow> (nat \<times> nat) option" where
  "block_pages per_page from to block =
     (let slots = FIRST_BLOCK * 2 ^ block;
          first = slots - FIRST_BLOCK;
          start = max from first;
          stop = min to (first + slots)
      in if start \<ge> stop then None
         else
           (let head = div_ceil (start - first) per_page * per_page;
                tail = (stop - first) div per_page * per_page
            in if head \<ge> tail then None else Some (first + head, first + tail)))"

definition zero_range ::
  "(nat \<Rightarrow> bool) \<Rightarrow> nat \<Rightarrow> nat \<Rightarrow> ('t, 'v, 'f) table \<Rightarrow> ('t, 'v, 'f) table" where
  "zero_range zeroes a b tb =
     tb\<lparr>tb_mem := (\<lambda>i. if a \<le> i \<and> i < b \<and> zeroes i then zero_slot else tb_mem tb i)\<rparr>"

fun release_blocks ::
  "(nat \<Rightarrow> bool) \<Rightarrow> (nat \<Rightarrow> bool) \<Rightarrow> nat \<Rightarrow> nat \<Rightarrow> nat \<Rightarrow> nat list \<Rightarrow> nat
    \<Rightarrow> ('t, 'v, 'f) table \<Rightarrow> nat \<times> ('t, 'v, 'f) table" where
  "release_blocks freed zeroes per_page from to [] released tb = (released, tb)"
| "release_blocks freed zeroes per_page from to (block # blocks) released tb =
     (if \<not> tb_blocks tb block then release_blocks freed zeroes per_page from to blocks released tb
      else (case block_pages per_page from to block of
              None \<Rightarrow> release_blocks freed zeroes per_page from to blocks released tb
            | Some (a, b) \<Rightarrow>
                (let len = (b - a) * SLOT_SIZE in
                 if freed block
                 then release_blocks freed zeroes per_page from to blocks (released + len)
                        (zero_range zeroes a b tb)
                 else release_blocks freed zeroes per_page from to blocks released tb)))"

definition release_pages ::
  "nat \<Rightarrow> (nat \<Rightarrow> bool) \<Rightarrow> (nat \<Rightarrow> bool) \<Rightarrow> nat \<Rightarrow> nat \<Rightarrow> ('t, 'v, 'f) table
    \<Rightarrow> nat \<times> ('t, 'v, 'f) table" where
  "release_pages pg freed zeroes from to tb =
     (let per_page = pg div SLOT_SIZE in
      if per_page = 0 then (0, tb)
      else release_blocks freed zeroes per_page from to [0..<TABLE_BLOCKS] 0 tb)"

text \<open>The bits of the ids taken off the list, and how far down from the top they all are.\<close>

fun hold_bits :: "nat \<Rightarrow> nat list \<Rightarrow> u64 list \<Rightarrow> u64 list" where
  "hold_bits current [] held = held"
| "hold_bits current (i # taken) held =
     (if i < current
      then hold_bits current taken (held[i div 64 := held ! (i div 64) OR push_bit (i mod 64) 1])
      else hold_bits current taken held)"

fun keep_from :: "u64 list \<Rightarrow> nat \<Rightarrow> nat \<Rightarrow> nat" where
  "keep_from held floor 0 = 0"
| "keep_from held floor (Suc i) =
     (if Suc i > floor then
        (if held ! (i div 64) AND push_bit (i mod 64) 1 = 0 then Suc i else keep_from held floor i)
      else Suc i)"

definition trim_floor :: "nat \<Rightarrow> nat \<Rightarrow> nat" where
  "trim_floor current live =
     max (max (live + TRIM_THRESHOLD) (current div 100 * TRIM_KEEP_PERCENT)) TRIM_MINIMUM"

text \<open>
  \<open>meanwhile\<close> is what others do to the table while the pages are given back, before the
  exchange that lowers the high water mark.
\<close>

datatype table_op = Alloc | FreeId nat

fun table_do :: "(nat \<Rightarrow> bool) \<Rightarrow> table_op \<Rightarrow> ('t, 'v, 'f) table \<Rightarrow> ('t, 'v, 'f) table" where
  "table_do granted Alloc tb = snd (alloc granted tb)"
| "table_do granted (FreeId i) tb = free_id i tb"

definition reclaim ::
  "nat \<Rightarrow> (nat \<Rightarrow> bool) \<Rightarrow> (nat \<Rightarrow> bool) \<Rightarrow> (nat \<Rightarrow> bool) \<Rightarrow> table_op list \<Rightarrow> ('t, 'v, 'f) table
    \<Rightarrow> (nat res \<times> ('t, 'v, 'f) table) option" where
  "reclaim pg freed zeroes granted meanwhile tb =
     (let current = tb_next_id tb;
          floor = trim_floor current (tb_live tb)
      in if floor \<ge> current then Some (Inl StillInUse, tb)
         else (case drain_free floor tb of
                 None \<Rightarrow> None
               | Some (taken, tb1) \<Rightarrow>
                   if taken = [] then Some (Inl StillInUse, tb1)
                   else
                     (let held = hold_bits current taken (replicate (div_ceil current 64) 0);
                          keep = keep_from held floor current
                      in if keep \<ge> current then Some (Inl StillInUse, restore taken current tb1)
                         else
                           (let (released, tb2) = release_pages pg freed zeroes keep current tb1;
                                tb3 = fold (table_do granted) meanwhile tb2;
                                tb4 = tb3\<lparr>tb_peak := max (tb_peak tb3) current\<rparr>
                            in if tb_next_id tb4 \<noteq> current
                               then Some (Inl StillInUse, restore taken current tb4)
                               else Some (Inr released, restore taken keep (tb4\<lparr>tb_next_id := keep\<rparr>))))))"

definition trim ::
  "nat \<Rightarrow> (nat \<Rightarrow> bool) \<Rightarrow> (nat \<Rightarrow> bool) \<Rightarrow> (nat \<Rightarrow> bool) \<Rightarrow> table_op list \<Rightarrow> ('t, 'v, 'f) table
    \<Rightarrow> (nat res \<times> ('t, 'v, 'f) table) option" where
  "trim pg freed zeroes granted meanwhile tb =
     (if tb_trimming tb then Some (Inl StillInUse, tb\<lparr>tb_trimming := True\<rparr>)
      else (case reclaim pg freed zeroes granted meanwhile (tb\<lparr>tb_trimming := True\<rparr>) of
              None \<Rightarrow> None
            | Some (given, tb1) \<Rightarrow> Some (given, tb1\<lparr>tb_trimming := False\<rparr>)))"

section \<open>Positions\<close>

lemma bit_length_bounds: "0 < n \<Longrightarrow> 2 ^ (bit_length n - 1) \<le> n \<and> n < 2 ^ bit_length n \<and> 0 < bit_length n"
proof (induction n rule: bit_length.induct)
  case (1 n)
  show ?case
  proof (cases "n = 1")
    case True
    then show ?thesis by (simp add: bit_length.simps)
  next
    case False
    with 1 have IH: "2 ^ (bit_length (n div 2) - 1) \<le> n div 2" "n div 2 < 2 ^ bit_length (n div 2)"
      "0 < bit_length (n div 2)" by auto
    have eq: "bit_length n = Suc (bit_length (n div 2))" using 1 by (subst bit_length.simps) simp
    from IH(3) have "(2::nat) ^ bit_length (n div 2) = 2 * 2 ^ (bit_length (n div 2) - 1)"
      by (simp add: power_eq_if)
    moreover have "2 * (n div 2) \<le> n" "n < 2 * (n div 2) + 2" by simp_all
    ultimately have "2 ^ bit_length (n div 2) \<le> n" "n < 2 * 2 ^ bit_length (n div 2)"
      using IH by linarith+
    then show ?thesis unfolding eq by simp
  qed
qed

lemma bit_length_unique: "2 ^ k \<le> n \<Longrightarrow> n < 2 ^ Suc k \<Longrightarrow> bit_length n = Suc k"
proof -
  assume lo: "2 ^ k \<le> n" and hi: "n < 2 ^ Suc k"
  then have pos: "0 < n" by (metis less_le_trans zero_less_numeral zero_less_power)
  note b = bit_length_bounds [OF pos]
  have "(2::nat) ^ (bit_length n - 1) < 2 ^ Suc k" using b hi by (meson le_less_trans)
  then have "bit_length n - 1 < Suc k" by (rule power_less_imp_less_exp [rotated]) simp
  moreover have "(2::nat) ^ k < 2 ^ bit_length n" using b lo by (meson le_less_trans)
  then have "k < bit_length n" by (rule power_less_imp_less_exp [rotated]) simp
  ultimately show ?thesis by linarith
qed

text \<open>The block holding an id is the one whose ids it lies between.\<close>

lemma position_eq:
  assumes "FIRST_BLOCK * 2 ^ b \<le> i + FIRST_BLOCK" "i + FIRST_BLOCK < FIRST_BLOCK * 2 ^ Suc b"
    and "b < TABLE_BLOCKS"
  shows "position i = (b, i + FIRST_BLOCK - FIRST_BLOCK * 2 ^ b)"
proof -
  have "(2::nat) ^ (8 + b) = FIRST_BLOCK * 2 ^ b" "(2::nat) ^ Suc (8 + b) = FIRST_BLOCK * 2 ^ Suc b"
    by (simp_all add: power_add FIRST_BLOCK_def)
  with assms(1,2) have "bit_length (i + FIRST_BLOCK) = Suc (8 + b)"
    by (intro bit_length_unique) (simp_all del: power_Suc)
  with assms(3) show ?thesis
    by (simp add: position_def leading_zeros_def Let_def FIRST_BLOCK_LOG2_def TABLE_BLOCKS_def)
qed

lemma block_exists:
  assumes "i < MAX_TASK_ID"
  shows "\<exists>b < TABLE_BLOCKS. FIRST_BLOCK * 2 ^ b \<le> i + FIRST_BLOCK \<and> i + FIRST_BLOCK < FIRST_BLOCK * 2 ^ Suc b"
proof -
  let ?n = "i + FIRST_BLOCK" and ?l = "bit_length (i + FIRST_BLOCK)"
  have b: "2 ^ (?l - 1) \<le> ?n" "?n < 2 ^ ?l" using bit_length_bounds [of ?n] by (simp_all add: FIRST_BLOCK_def)
  have "(2::nat) ^ 8 < 2 ^ ?l"
    by (rule le_less_trans [OF _ b(2)]) (simp add: FIRST_BLOCK_def)
  then have lo: "8 < ?l" by (rule power_less_imp_less_exp [rotated]) simp
  have "(2::nat) ^ (?l - 1) < 2 ^ 31"
    by (rule le_less_trans [OF b(1)]) (use assms in \<open>simp add: MAX_TASK_ID_val FIRST_BLOCK_def\<close>)
  then have hi: "?l - 1 < 31" by (rule power_less_imp_less_exp [rotated]) simp
  define k where "k = ?l - 9"
  with lo have l: "?l = 9 + k" by simp
  have "FIRST_BLOCK * 2 ^ k \<le> ?n" "?n < FIRST_BLOCK * 2 ^ Suc k"
    using b unfolding l by (simp_all add: FIRST_BLOCK_def power_add)
  moreover have "k < TABLE_BLOCKS" using hi l by (simp add: TABLE_BLOCKS_def)
  ultimately show ?thesis by blast
qed

section \<open>The packed head\<close>

lemma bit_index_mask: "bit INDEX_MASK n \<longleftrightarrow> n < 48"
  unfolding INDEX_MASK_mask by (auto simp: bit_mask_iff TAG_SHIFT_def)

lemma bit_of_nat_small: "n < 2 ^ 48 \<Longrightarrow> bit (of_nat n :: u64) k \<Longrightarrow> k < 48"
proof (rule ccontr)
  assume n: "n < 2 ^ 48" and b: "bit (of_nat n :: u64) k" and k: "\<not> k < 48"
  have "(2::nat) ^ 48 \<le> 2 ^ k" using k by (intro power_increasing) auto
  with n have "n div 2 ^ k = 0" by simp
  then have "\<not> bit n k" by (simp add: bit_iff_odd)
  with b show False by (simp add: bit_simps)
qed

lemma head_index_pack: "n < 2 ^ 48 \<Longrightarrow> head_index (pack_head t n) = n"
proof -
  assume n: "n < 2 ^ 48"
  have "pack_head t n AND INDEX_MASK = of_nat n"
    by (rule bit_eqI)
      (use bit_of_nat_small [OF n] in \<open>auto simp: pack_head_def bit_simps bit_index_mask TAG_SHIFT_def\<close>)
  then show ?thesis using n by (simp add: head_index_def unat_of_nat)
qed

lemma head_tag_pack: "n < 2 ^ 48 \<Longrightarrow> head_tag (pack_head t n) = take_bit 16 t"
proof -
  assume n: "n < 2 ^ 48"
  show ?thesis
  proof (rule bit_eqI)
    fix k
    assume "possible_bit TYPE(u64) k"
    then have k: "k < 64" by (simp add: possible_bit_word)
    have "\<not> bit (of_nat n :: u64) (k + 48)" using bit_of_nat_small [OF n, of "k + 48"] by auto
    with k show "bit (head_tag (pack_head t n)) k = bit (take_bit 16 t) k"
      by (auto simp: head_tag_def pack_head_def bit_simps TAG_SHIFT_def add.commute)
  qed
qed

lemma head_index_bare: "head_index (push_bit TAG_SHIFT t) = 0"
  using head_index_pack [of 0 t] by (simp add: pack_head_def)

lemma head_tag_bare: "head_tag (push_bit TAG_SHIFT t) = take_bit 16 t"
  using head_tag_pack [of 0 t] by (simp add: pack_head_def)

lemma head_index_bound: "head_index h < 2 ^ 48"
proof -
  have "uint (h AND mask 48) < 2 ^ 48" by (rule and_mask_lt_2p)
  then show ?thesis
    by (simp add: head_index_def INDEX_MASK_mask TAG_SHIFT_def nat_less_iff flip: nat_uint_eq)
qed

lemma next_link_set_next: "n < 2 ^ 32 \<Longrightarrow> next_link (set_next n d) = n"
  by (simp add: next_link_def set_next_def unat_of_nat)

section \<open>The free list\<close>

text \<open>The ids linked from an encoded one, through the slots' links.\<close>

fun flist :: "(nat \<Rightarrow> ('t, 'v, 'f) task_data) \<Rightarrow> nat \<Rightarrow> nat list \<Rightarrow> bool" where
  "flist m e [] \<longleftrightarrow> e = 0"
| "flist m e (i # is) \<longleftrightarrow> e = Suc i \<and> flist m (next_link (m i)) is"

lemma flist_frame: "(\<And>i. i \<in> set is \<Longrightarrow> td_next (m i) = td_next (m' i)) \<Longrightarrow> flist m e is = flist m' e is"
  by (induction "is" arbitrary: e) (simp_all add: next_link_def)

lemma flist_update: "i \<notin> set is \<Longrightarrow> flist (m(i := d)) e is = flist m e is"
  by (rule flist_frame) auto

lemma flist_zero: "flist m 0 is \<longleftrightarrow> is = []"
  by (cases "is") auto

text \<open>
  A table, its free ids in list order, the ids handed out, and the ids a trim is holding:
  all of them apart from one another, below the high water mark and in mapped blocks.
\<close>

definition table_inv ::
  "('t, 'v, 'f) table \<Rightarrow> nat list \<Rightarrow> nat set \<Rightarrow> nat set \<Rightarrow> bool" where
  "table_inv tb xs L T \<longleftrightarrow>
     flist (tb_mem tb) (head_index (tb_free tb)) xs \<and> distinct xs \<and>
     set xs \<inter> L = {} \<and> set xs \<inter> T = {} \<and> L \<inter> T = {} \<and> finite L \<and> tb_live tb = card L \<and>
     (\<forall>i \<in> set xs \<union> L \<union> T. i < tb_next_id tb \<and> slot_ok i tb)"

lemma slot_simps: "slot i tb = (if slot_ok i tb then Some (tb_mem tb i) else None)"
  by (simp add: slot_def slot_ok_def)

lemma table_inv_ok: "table_inv tb xs L T \<Longrightarrow> i \<in> set xs \<union> L \<union> T \<Longrightarrow> slot_ok i tb"
  by (simp add: table_inv_def)

lemma table_new_inv: "table_inv table_new [] {} {}"
  by (simp add: table_inv_def table_new_def head_index_def)

text \<open>Writing to a slot that isn't on the list, or that keeps its link, disturbs nothing.\<close>

lemma table_inv_put:
  "table_inv tb xs L T \<Longrightarrow> i \<notin> set xs \<Longrightarrow> table_inv (put_slot i d tb) xs L T"
  by (simp add: table_inv_def put_slot_def flist_update slot_ok_def)

lemma slot_ok_frame [simp]:
  "slot_ok i (tb\<lparr>tb_free := f\<rparr>) = slot_ok i tb" "slot_ok i (tb\<lparr>tb_live := n\<rparr>) = slot_ok i tb"
  "slot_ok i (tb\<lparr>tb_next_id := n\<rparr>) = slot_ok i tb" "slot_ok i (tb\<lparr>tb_mem := m\<rparr>) = slot_ok i tb"
  "slot_ok i (tb\<lparr>tb_peak := n\<rparr>) = slot_ok i tb" "slot_ok i (tb\<lparr>tb_trimming := b\<rparr>) = slot_ok i tb"
  by (simp_all add: slot_ok_def)

lemma slot_ok_bound: "slot_ok i tb \<Longrightarrow> Suc i < 2 ^ 32"
  by (simp add: slot_ok_def MAX_TASK_ID_val)

lemma push_free_simps [simp]:
  "tb_live (push_free i tb) = tb_live tb" "tb_next_id (push_free i tb) = tb_next_id tb"
  "tb_blocks (push_free i tb) = tb_blocks tb" "tb_peak (push_free i tb) = tb_peak tb"
  "tb_trimming (push_free i tb) = tb_trimming tb"
  "tb_mem (push_free i tb) = (tb_mem tb)(i := set_next (head_index (tb_free tb)) (tb_mem tb i))"
  by (simp_all add: push_free_def put_slot_def Let_def)

lemma slot_ok_push_free [simp]: "slot_ok k (push_free i tb) = slot_ok k tb"
  by (simp add: slot_ok_def)

lemma table_inv_head: "table_inv tb xs L T \<Longrightarrow> head_index (tb_free tb) < 2 ^ 32"
proof (cases xs)
  case (Cons i "is")
  assume inv: "table_inv tb xs L T"
  with Cons have "slot_ok i tb" by (simp add: table_inv_def)
  with inv Cons show ?thesis using slot_ok_bound [of i tb] by (simp add: table_inv_def)
qed (simp add: table_inv_def)

lemma push_free_flist:
  assumes "table_inv tb xs L T" and "i \<notin> set xs" and "slot_ok i tb"
  shows "flist (tb_mem (push_free i tb)) (head_index (tb_free (push_free i tb))) (i # xs)"
proof -
  have "Suc i < 2 ^ 48" using slot_ok_bound [OF assms(3)] by simp
  then have "head_index (tb_free (push_free i tb)) = Suc i"
    by (simp add: push_free_def Let_def head_index_pack)
  with assms table_inv_head [OF assms(1)] show ?thesis
    by (simp add: next_link_set_next flist_update table_inv_def)
qed

text \<open>An id given back, or put back by a trim, is the new head of the list.\<close>

lemma push_free_inv:
  assumes inv: "table_inv tb xs L T" and i: "i \<in> L \<union> T"
  shows "table_inv (push_free i (tb\<lparr>tb_live := card (L - {i})\<rparr>)) (i # xs) (L - {i}) (T - {i})"
proof -
  have inv': "table_inv (tb\<lparr>tb_live := card (L - {i})\<rparr>) xs (L - {i}) (T - {i})"
    using inv by (auto simp: table_inv_def)
  have "i \<notin> set xs" "slot_ok i tb" using inv i by (auto simp: table_inv_def)
  with push_free_flist [OF inv'] inv i show ?thesis
    by (auto simp: table_inv_def simp del: flist.simps)
qed

lemma free_id_inv:
  assumes "table_inv tb xs L T" and "i \<in> L"
  shows "table_inv (free_id i tb) (i # xs) (L - {i}) T"
proof -
  have "slot_ok i tb" "tb_live tb - 1 = card (L - {i})" "i \<notin> T"
    using assms by (auto simp: table_inv_def)
  with push_free_inv [OF assms(1), of i] assms(2) show ?thesis
    by (simp add: free_id_def slot_simps)
qed

lemma alloc_pop:
  assumes "table_inv tb (i # xs) L T"
  shows "fst (alloc granted tb) = Some i"
    and "table_inv (snd (alloc granted tb)) xs (insert i L) T"
    and "tb_mem (snd (alloc granted tb)) = tb_mem tb"
    and "head_tag (tb_free (snd (alloc granted tb))) = take_bit 16 (head_tag (tb_free tb) + 1)"
    and "tb_next_id (snd (alloc granted tb)) = tb_next_id tb"
proof -
  from assms have head: "head_index (tb_free tb) = Suc i" and ok: "slot_ok i tb"
    and rest: "flist (tb_mem tb) (next_link (tb_mem tb i)) xs"
    by (auto simp: table_inv_def)
  then have alloc: "alloc granted tb = (Some i, tb\<lparr>tb_free := pack_head (head_tag (tb_free tb) + 1)
      (next_link (tb_mem tb i)), tb_live := tb_live tb + 1\<rparr>)"
    by (simp add: alloc_def slot_simps Let_def)
  have bound: "next_link (tb_mem tb i) < 2 ^ 48"
    using unat_u32_bound [of "td_next (tb_mem tb i)"] by (simp add: next_link_def)
  show "fst (alloc granted tb) = Some i" "tb_mem (snd (alloc granted tb)) = tb_mem tb"
    "tb_next_id (snd (alloc granted tb)) = tb_next_id tb"
    by (simp_all add: alloc)
  show "head_tag (tb_free (snd (alloc granted tb))) = take_bit 16 (head_tag (tb_free tb) + 1)"
    using bound by (simp add: alloc head_tag_pack)
  show "table_inv (snd (alloc granted tb)) xs (insert i L) T"
    using assms rest bound by (auto simp: alloc table_inv_def head_index_pack)
qed

lemma block_for_simps [simp]:
  "tb_mem (snd (block_for granted i tb)) = tb_mem tb"
  "tb_free (snd (block_for granted i tb)) = tb_free tb"
  "tb_live (snd (block_for granted i tb)) = tb_live tb"
  "tb_next_id (snd (block_for granted i tb)) = tb_next_id tb"
  "tb_peak (snd (block_for granted i tb)) = tb_peak tb"
  by (simp_all add: block_for_def Let_def)

lemma block_for_ok:
  "fst (block_for granted i tb) \<Longrightarrow> slot_ok i (snd (block_for granted i tb))"
  "slot_ok k tb \<Longrightarrow> slot_ok k (snd (block_for granted i tb))"
  by (auto simp: block_for_def slot_ok_def Let_def split: if_splits)

lemma alloc_grow:
  assumes inv: "table_inv tb [] L T"
  shows "table_inv (snd (alloc granted tb)) []
      (case fst (alloc granted tb) of None \<Rightarrow> L | Some i \<Rightarrow> insert i L) T"
    and "fst (alloc granted tb) \<in> {None, Some (tb_next_id tb)}"
    and "tb_mem (snd (alloc granted tb)) = tb_mem tb"
    and "tb_free (snd (alloc granted tb)) = tb_free tb"
    and "tb_next_id (snd (alloc granted tb)) = Suc (tb_next_id tb)"
proof -
  let ?b = "block_for granted (tb_next_id tb) (tb\<lparr>tb_next_id := tb_next_id tb + 1\<rparr>)"
  have head: "head_index (tb_free tb) = 0" using inv by (simp add: table_inv_def)
  have alloc: "alloc granted tb = (if fst ?b then (Some (tb_next_id tb), (snd ?b)\<lparr>tb_live := tb_live (snd ?b) + 1\<rparr>)
      else (None, snd ?b))"
    by (simp add: alloc_def head Let_def split_beta)
  have new: "tb_next_id tb \<notin> L" "tb_next_id tb \<notin> T" using inv by (auto simp: table_inv_def)
  have ok: "slot_ok k (snd ?b)" if "k \<in> L \<union> T" for k
    using inv that by (intro block_for_ok(2)) (auto simp: table_inv_def)
  show "table_inv (snd (alloc granted tb)) []
      (case fst (alloc granted tb) of None \<Rightarrow> L | Some i \<Rightarrow> insert i L) T"
    using inv new ok block_for_ok(1) [of granted "tb_next_id tb" "tb\<lparr>tb_next_id := tb_next_id tb + 1\<rparr>"]
    by (auto simp: alloc table_inv_def less_Suc_eq)
  show "fst (alloc granted tb) \<in> {None, Some (tb_next_id tb)}" by (simp add: alloc)
  show "tb_mem (snd (alloc granted tb)) = tb_mem tb" "tb_free (snd (alloc granted tb)) = tb_free tb"
    "tb_next_id (snd (alloc granted tb)) = Suc (tb_next_id tb)"
    by (simp_all add: alloc)
qed

section \<open>Sequences of operations\<close>

text \<open>The ids handed out after an operation, and whether an operation is one a caller may make.\<close>

fun live_after :: "(nat \<Rightarrow> bool) \<Rightarrow> table_op list \<Rightarrow> ('t, 'v, 'f) table \<Rightarrow> nat set \<Rightarrow> nat set" where
  "live_after granted [] tb L = L"
| "live_after granted (Alloc # ops) tb L =
     live_after granted ops (table_do granted Alloc tb)
       (case fst (alloc granted tb) of None \<Rightarrow> L | Some i \<Rightarrow> insert i L)"
| "live_after granted (FreeId i # ops) tb L =
     live_after granted ops (table_do granted (FreeId i) tb) (L - {i})"

fun ops_ok :: "(nat \<Rightarrow> bool) \<Rightarrow> table_op list \<Rightarrow> ('t, 'v, 'f) table \<Rightarrow> nat set \<Rightarrow> bool" where
  "ops_ok granted [] tb L = True"
| "ops_ok granted (Alloc # ops) tb L =
     ops_ok granted ops (table_do granted Alloc tb)
       (case fst (alloc granted tb) of None \<Rightarrow> L | Some i \<Rightarrow> insert i L)"
| "ops_ok granted (FreeId i # ops) tb L =
     (i \<in> L \<and> ops_ok granted ops (table_do granted (FreeId i) tb) (L - {i}))"

lemma alloc_inv:
  assumes "table_inv tb xs L T"
  shows "table_inv (snd (alloc granted tb)) (tl xs)
    (case fst (alloc granted tb) of None \<Rightarrow> L | Some i \<Rightarrow> insert i L) T"
proof (cases xs)
  case Nil
  with assms alloc_grow(1) [of tb L T granted] show ?thesis by simp
next
  case (Cons i "is")
  with assms alloc_pop(1,2) [of tb i "is" L T granted] show ?thesis by simp
qed

lemma alloc_fresh:
  assumes inv: "table_inv tb xs L T" and got: "fst (alloc granted tb) = Some i"
  shows "i \<notin> L \<and> i \<notin> T \<and> slot_ok i (snd (alloc granted tb)) \<and> i < tb_next_id (snd (alloc granted tb))"
proof -
  have "i \<notin> L \<and> i \<notin> T"
  proof (cases xs)
    case Nil
    with inv alloc_grow(2) [of tb L T granted] got show ?thesis by (auto simp: table_inv_def)
  next
    case (Cons k ks)
    with inv alloc_pop(1) [of tb k ks L T granted] got show ?thesis by (auto simp: table_inv_def)
  qed
  with alloc_inv [OF inv, of granted] got show ?thesis by (simp add: table_inv_def)
qed

lemma alloc_frame [simp]:
  "tb_mem (snd (alloc granted tb)) = tb_mem tb" "tb_peak (snd (alloc granted tb)) = tb_peak tb"
  by (simp_all add: alloc_def Let_def slot_simps split_beta split: option.splits)

lemma free_id_frame [simp]:
  "tb_next_id (free_id i tb) = tb_next_id tb" "tb_peak (free_id i tb) = tb_peak tb"
  by (simp_all add: free_id_def slot_simps)

lemma table_run_inv:
  assumes "table_inv tb xs L T" and "ops_ok granted ops tb L"
  shows "\<exists>xs'. table_inv (fold (table_do granted) ops tb) xs' (live_after granted ops tb L) T"
  using assms
proof (induction ops arbitrary: tb xs L)
  case (Cons op ops)
  show ?case
  proof (cases op)
    case Alloc
    with Cons.IH [OF alloc_inv [OF Cons.prems(1)]] Cons.prems show ?thesis by simp
  next
    case (FreeId i)
    with Cons.IH [OF free_id_inv [OF Cons.prems(1)]] Cons.prems show ?thesis by simp
  qed
qed auto

lemma next_id_climbs: "tb_next_id tb \<le> tb_next_id (snd (alloc granted tb))"
  by (simp add: alloc_def Let_def slot_simps split_beta split: option.splits)

lemma table_run_mono:
  "tb_next_id tb \<le> tb_next_id (fold (table_do granted) ops tb) \<and>
   tb_peak (fold (table_do granted) ops tb) = tb_peak tb"
proof (induction ops arbitrary: tb)
  case (Cons op ops)
  show ?case using Cons [of "table_do granted op tb"] next_id_climbs [of tb granted]
    by (cases op) auto
qed simp

text \<open>What a slot outside the list keeps through an operation is all but its link.\<close>

lemma table_do_mem:
  "tb_mem (table_do granted op tb) k = tb_mem tb k \<or>
   op = FreeId k \<and> (\<exists>n. tb_mem (table_do granted op tb) k = set_next n (tb_mem tb k))"
  by (cases op) (auto simp: free_id_def slot_simps)

section \<open>Trims\<close>

lemma push_free_held:
  assumes "table_inv tb xs L T" and "i \<in> T"
  shows "table_inv (push_free i tb) (i # xs) L (T - {i})"
proof -
  have "i \<notin> L" "tb\<lparr>tb_live := card L\<rparr> = tb" using assms by (auto simp: table_inv_def)
  with push_free_inv [OF assms(1), of i] assms(2) show ?thesis by simp
qed

lemma drain_loop_spec:
  assumes "flist (tb_mem tb) cursor ys" "table_inv tb zs L T" "set ys \<subseteq> T" "distinct ys"
  shows "\<exists>tb'. drain_loop floor cursor taken tb = Some (taken @ filter (\<lambda>y. floor \<le> y) ys, tb') \<and>
    table_inv tb' (rev (filter (\<lambda>y. y < floor) ys) @ zs) L (T - {y \<in> set ys. y < floor}) \<and>
    (\<forall>k. k \<notin> set ys \<longrightarrow> tb_mem tb' k = tb_mem tb k) \<and>
    tb_next_id tb' = tb_next_id tb \<and> tb_peak tb' = tb_peak tb \<and> tb_blocks tb' = tb_blocks tb"
  using assms
proof (induction ys arbitrary: cursor zs T tb taken)
  case Nil
  then show ?case by (auto simp: drain_loop.simps)
next
  case (Cons y ys)
  from Cons.prems have ok: "slot_ok y tb" and cur: "cursor = Suc y"
    and rest: "flist (tb_mem tb) (next_link (tb_mem tb y)) ys" and y: "y \<in> T" "y \<notin> set ys"
    by (auto simp: table_inv_def)
  show ?case
  proof (cases "y < floor")
    case True
    have step: "drain_loop floor cursor taken tb =
        drain_loop floor (next_link (tb_mem tb y)) taken (push_free y tb)"
      by (subst drain_loop.simps) (simp add: cur True ok slot_simps)
    have "flist (tb_mem (push_free y tb)) (next_link (tb_mem tb y)) ys"
      using rest y by (simp add: flist_update del: fun_upd_apply)
    moreover have "T - {y} - {k \<in> set ys. k < floor} = T - {k \<in> set (y # ys). k < floor}"
      using True by auto
    moreover have "set ys \<subseteq> T - {y}" using Cons.prems by auto
    ultimately show ?thesis
      using Cons.IH [OF _ push_free_held [OF Cons.prems(2) y(1)], of "next_link (tb_mem tb y)" taken]
        Cons.prems True y
      unfolding step by fastforce
  next
    case False
    have step: "drain_loop floor cursor taken tb =
        drain_loop floor (next_link (tb_mem tb y)) (taken @ [y]) tb"
      by (subst drain_loop.simps) (simp add: cur False ok slot_simps)
    from False have "T - {k \<in> set ys. k < floor} = T - {k \<in> set (y # ys). k < floor}" by auto
    with Cons.IH [OF rest Cons.prems(2), of "taken @ [y]"] Cons.prems False show ?thesis
      unfolding step by fastforce
  qed
qed

lemma restore_spec:
  assumes "table_inv tb xs L T" "set taken \<subseteq> T" "distinct taken"
  shows "table_inv (restore taken limit tb) (rev (filter (\<lambda>i. i < limit) taken) @ xs) L
      (T - {i \<in> set taken. i < limit}) \<and>
    (\<forall>k. k \<notin> set taken \<longrightarrow> tb_mem (restore taken limit tb) k = tb_mem tb k) \<and>
    tb_next_id (restore taken limit tb) = tb_next_id tb \<and>
    tb_peak (restore taken limit tb) = tb_peak tb"
  using assms
proof (induction taken arbitrary: tb xs T)
  case (Cons i taken)
  have ok: "slot_ok i tb" and i: "i \<in> T" "distinct taken" "set taken \<subseteq> T - {i}"
    using Cons.prems by (auto simp: table_inv_def)
  show ?case
  proof (cases "i < limit")
    case True
    then have "T - {i} - {k \<in> set taken. k < limit} = T - {k \<in> set (i # taken). k < limit}" by auto
    with Cons.IH [OF push_free_held [OF Cons.prems(1) i(1)] i(3,2)] True ok show ?thesis
      by (simp add: slot_simps)
  next
    case False
    then have "T - {k \<in> set taken. k < limit} = T - {k \<in> set (i # taken). k < limit}" by auto
    with Cons.IH [OF Cons.prems(1) _ i(2)] Cons.prems False show ?thesis by simp
  qed
qed simp

subsection \<open>The bitmap\<close>

definition held_bit :: "u64 list \<Rightarrow> nat \<Rightarrow> bool" where
  "held_bit held i \<longleftrightarrow> bit (held ! (i div 64)) (i mod 64)"

lemma held_test: "held ! (i div 64) AND 2 ^ (i mod 64) = 0 \<longleftrightarrow> \<not> held_bit held i"
  using bit_iff_and_push_bit_not_eq_0 [of "held ! (i div 64)" "i mod 64"] by (simp add: held_bit_def)

lemma div_ceil_bound: "i < n \<Longrightarrow> i div 64 < div_ceil n 64"
  by (simp add: div_ceil_def)

lemma held_bit_set:
  assumes "k div 64 < length held"
  shows "held_bit (held[i div 64 := held ! (i div 64) OR push_bit (i mod 64) 1]) k \<longleftrightarrow>
    held_bit held k \<or> k = i"
proof (cases "k div 64 = i div 64")
  case True
  have "k = i \<longleftrightarrow> k mod 64 = i mod 64" using True by (metis div_mult_mod_eq)
  moreover have "bit (push_bit (i mod 64) 1 :: u64) (k mod 64) \<longleftrightarrow> k mod 64 = i mod 64"
    by (auto simp: bit_simps)
  ultimately show ?thesis using True assms by (simp add: held_bit_def bit_or_iff)
next
  case False
  then show ?thesis using assms by (auto simp: held_bit_def)
qed

lemma hold_bits_length [simp]: "length (hold_bits current taken held) = length held"
  by (induction current taken held rule: hold_bits.induct) simp_all

text \<open>The bitmap holds exactly the ids that were taken.\<close>

lemma hold_bits_spec:
  assumes "k < current"
  shows "div_ceil current 64 \<le> length held \<Longrightarrow>
    held_bit (hold_bits current taken held) k \<longleftrightarrow> held_bit held k \<or> k \<in> set taken"
proof (induction taken arbitrary: held)
  case (Cons i taken)
  have "k div 64 < length held"
    by (rule less_le_trans [OF div_ceil_bound [OF assms] Cons.prems])
  with Cons held_bit_set [of k held i] assms show ?case by auto
qed simp

lemma keep_from_spec:
  "keep_from held floor current \<le> current \<and>
   (floor \<le> current \<longrightarrow> floor \<le> keep_from held floor current) \<and>
   (\<forall>i. keep_from held floor current \<le> i \<and> i < current \<longrightarrow> held_bit held i)"
proof (induction current)
  case (Suc i)
  then show ?case by (auto simp: held_test less_Suc_eq)
qed simp

lemma held_empty: "k < current \<Longrightarrow> \<not> held_bit (replicate (div_ceil current 64) 0) k"
  using div_ceil_bound [of k current] by (simp add: held_bit_def)

text \<open>Everything between the new mark and the old one was taken off the list.\<close>

lemma keep_taken:
  assumes "keep = keep_from (hold_bits current taken (replicate (div_ceil current 64) 0)) floor current"
    and "keep \<le> i" "i < current"
  shows "i \<in> set taken"
  using keep_from_spec [of "hold_bits current taken (replicate (div_ceil current 64) 0)" floor current]
    hold_bits_spec [of i current "replicate (div_ceil current 64) 0" taken] held_empty [of i current] assms
  by simp

subsection \<open>Releasing pages\<close>

lemma div_ceil_le: "0 < p \<Longrightarrow> n \<le> div_ceil n p * p"
proof -
  assume p: "0 < p"
  have "(n + p - 1) div p * p + (n + p - 1) mod p = n + p - 1" by (rule div_mult_mod_eq)
  moreover have "(n + p - 1) mod p < p" using p by simp
  ultimately show ?thesis unfolding div_ceil_def using p by linarith
qed

lemma block_pages_inside:
  assumes "block_pages per_page from to block = Some (a, b)" "0 < per_page"
  shows "from \<le> a \<and> b \<le> to"
proof -
  define first where "first = FIRST_BLOCK * 2 ^ block - FIRST_BLOCK"
  define start where "start = max from first"
  define stop where "stop = min to (first + FIRST_BLOCK * 2 ^ block)"
  from assms(1) [unfolded block_pages_def Let_def, folded first_def, folded start_def stop_def]
  have ab: "start < stop" "a = first + div_ceil (start - first) per_page * per_page"
    "b = first + (stop - first) div per_page * per_page"
    by (simp_all split: if_splits)
  have "first \<le> start" "from \<le> start" "stop \<le> to" by (simp_all add: start_def stop_def)
  moreover have "start - first \<le> div_ceil (start - first) per_page * per_page"
    using assms(2) by (rule div_ceil_le)
  moreover have "(stop - first) div per_page * per_page \<le> stop - first" by simp
  ultimately show ?thesis using ab by linarith
qed

lemma release_blocks_spec:
  assumes "0 < per_page"
  shows "tb_free (snd (release_blocks freed zeroes per_page from to blocks n tb)) = tb_free tb \<and>
    tb_live (snd (release_blocks freed zeroes per_page from to blocks n tb)) = tb_live tb \<and>
    tb_next_id (snd (release_blocks freed zeroes per_page from to blocks n tb)) = tb_next_id tb \<and>
    tb_peak (snd (release_blocks freed zeroes per_page from to blocks n tb)) = tb_peak tb \<and>
    tb_blocks (snd (release_blocks freed zeroes per_page from to blocks n tb)) = tb_blocks tb \<and>
    (\<forall>i. \<not> (from \<le> i \<and> i < to) \<longrightarrow>
      tb_mem (snd (release_blocks freed zeroes per_page from to blocks n tb)) i = tb_mem tb i)"
proof (induction blocks arbitrary: n tb)
  case (Cons block blocks)
  show ?case
  proof (cases "block_pages per_page from to block")
    case None
    with Cons show ?thesis by simp
  next
    case (Some p)
    obtain a b where p: "p = (a, b)" by (cases p)
    with block_pages_inside [OF _ assms] Some have "from \<le> a" "b \<le> to" by auto
    with Cons [of "n + (b - a) * SLOT_SIZE" "zero_range zeroes a b tb"] Cons [of n tb] Some p
    show ?thesis by (auto simp: Let_def zero_range_def)
  qed
qed simp

lemma release_pages_spec:
  "tb_free (snd (release_pages pg freed zeroes from to tb)) = tb_free tb \<and>
   tb_live (snd (release_pages pg freed zeroes from to tb)) = tb_live tb \<and>
   tb_next_id (snd (release_pages pg freed zeroes from to tb)) = tb_next_id tb \<and>
   tb_peak (snd (release_pages pg freed zeroes from to tb)) = tb_peak tb \<and>
   tb_blocks (snd (release_pages pg freed zeroes from to tb)) = tb_blocks tb \<and>
   (\<forall>i. \<not> (from \<le> i \<and> i < to) \<longrightarrow>
     tb_mem (snd (release_pages pg freed zeroes from to tb)) i = tb_mem tb i)"
  using release_blocks_spec [of "pg div SLOT_SIZE" freed zeroes "from" to "[0..<TABLE_BLOCKS]" 0 tb]
  by (auto simp: release_pages_def Let_def)

subsection \<open>The whole trim\<close>

text \<open>What others hand back meanwhile is theirs to hand back.\<close>

fun frees :: "table_op list \<Rightarrow> nat list" where
  "frees [] = []"
| "frees (Alloc # ops) = frees ops"
| "frees (FreeId i # ops) = i # frees ops"

lemma frees_ops_ok: "distinct (frees ops) \<Longrightarrow> set (frees ops) \<subseteq> L \<Longrightarrow> ops_ok granted ops tb L"
proof (induction ops arbitrary: tb L)
  case (Cons op ops)
  show ?case
  proof (cases op)
    case Alloc
    have "set (frees ops) \<subseteq> (case fst (alloc granted tb) of None \<Rightarrow> L | Some i \<Rightarrow> insert i L)"
      using Alloc Cons.prems by (auto split: option.splits)
    with Alloc Cons show ?thesis by simp
  next
    case (FreeId i)
    then have "set (frees ops) \<subseteq> L - {i}" using Cons.prems by auto
    with FreeId Cons show ?thesis by simp
  qed
qed simp

lemma live_after_keeps: "L - set (frees ops) \<subseteq> live_after granted ops tb L"
proof (induction ops arbitrary: tb L)
  case (Cons op ops)
  show ?case
  proof (cases op)
    case Alloc
    with Cons [of L "table_do granted Alloc tb"]
      Cons [of "case fst (alloc granted tb) of None \<Rightarrow> L | Some i \<Rightarrow> insert i L" "table_do granted Alloc tb"]
    show ?thesis by (auto split: option.splits)
  next
    case (FreeId i)
    with Cons [of "L - {i}" "table_do granted (FreeId i) tb"] show ?thesis by auto
  qed
qed simp

lemma table_run_mem: "k \<notin> set (frees ops) \<Longrightarrow> tb_mem (fold (table_do granted) ops tb) k = tb_mem tb k"
proof (induction ops arbitrary: tb)
  case (Cons op ops)
  with table_do_mem [of granted op tb k] show ?case by (cases op) auto
qed simp

lemma drain_free_spec:
  assumes "table_inv tb xs L {}"
  shows "\<exists>tb'. drain_free floor tb = Some (filter (\<lambda>y. floor \<le> y) xs, tb') \<and>
    table_inv tb' (if xs = [] then [] else rev (filter (\<lambda>y. y < floor) xs)) L {y \<in> set xs. floor \<le> y} \<and>
    (\<forall>k. k \<notin> set xs \<longrightarrow> tb_mem tb' k = tb_mem tb k) \<and>
    tb_next_id tb' = tb_next_id tb \<and> tb_peak tb' = tb_peak tb"
proof (cases "xs = []")
  case True
  with assms show ?thesis by (auto simp: drain_free_def table_inv_def)
next
  case False
  let ?tb = "tb\<lparr>tb_free := push_bit TAG_SHIFT (head_tag (tb_free tb) + 1)\<rparr>"
  have "head_index (tb_free tb) \<noteq> 0" using assms False by (cases xs) (auto simp: table_inv_def)
  moreover have "table_inv ?tb [] L (set xs)" "flist (tb_mem ?tb) (head_index (tb_free tb)) xs" "distinct xs"
    using assms by (auto simp: table_inv_def head_index_bare)
  moreover have "set xs - {y \<in> set xs. y < floor} = {y \<in> set xs. floor \<le> y}" by auto
  ultimately show ?thesis
    using drain_loop_spec [of ?tb "head_index (tb_free tb)" xs "[]" L "set xs" floor "[]"] False
    by (auto simp: drain_free_def Let_def)
qed

lemma release_inv:
  assumes "table_inv tb xs L T" "\<forall>i. from \<le> i \<and> i < to \<longrightarrow> i \<in> T"
  shows "table_inv (snd (release_pages pg freed zeroes from to tb)) xs L T"
proof -
  let ?tb = "snd (release_pages pg freed zeroes from to tb)"
  have mem: "tb_mem ?tb i = tb_mem tb i" if "i \<notin> T" for i
    using release_pages_spec [of pg freed zeroes "from" to tb] assms(2) that by blast
  have "i \<notin> T" if "i \<in> set xs" for i using assms(1) that by (auto simp: table_inv_def)
  then have "flist (tb_mem ?tb) e xs = flist (tb_mem tb) e xs" for e
    by (intro flist_frame) (simp add: mem)
  with assms(1) release_pages_spec [of pg freed zeroes "from" to tb] show ?thesis
    by (simp add: table_inv_def slot_ok_def)
qed

definition trim_ok ::
  "('t, 'v, 'f) table \<Rightarrow> nat set \<Rightarrow> table_op list \<Rightarrow> nat res \<Rightarrow> ('t, 'v, 'f) table \<Rightarrow> bool" where
  "trim_ok tb L ops given tb' \<longleftrightarrow>
     (\<exists>xs' L'. table_inv tb' xs' L' {} \<and> L - set (frees ops) \<subseteq> L') \<and>
     (\<forall>i \<in> L - set (frees ops). tb_mem tb' i = tb_mem tb i) \<and>
     peak tb \<le> peak tb' \<and>
     (\<forall>n. given = Inr n \<longrightarrow>
       tb_next_id tb' < tb_next_id tb \<and> trim_floor (tb_next_id tb) (tb_live tb) \<le> tb_next_id tb')"

lemma restore_filter: "restore (filter (\<lambda>i. i < limit) taken) limit tb = restore taken limit tb"
  by (induction taken arbitrary: tb) (auto split: option.splits)

text \<open>The trim past the walk, from what the walk took.\<close>

lemma reclaim_rest:
  fixes tb :: "('t, 'v, 'f) table"
  assumes inv: "table_inv tb1 zs L (set taken)" and dist: "distinct taken"
    and keep: "keep < current" "floor \<le> keep" "\<forall>i. keep \<le> i \<and> i < current \<longrightarrow> i \<in> set taken"
    and tb1: "tb_next_id tb1 = current" "tb_peak tb1 = tb_peak tb" "\<forall>i \<in> L. tb_mem tb1 i = tb_mem tb i"
    and tb: "tb_next_id tb = current" "floor = trim_floor current (tb_live tb)"
    and ops: "distinct (frees ops)" "set (frees ops) \<subseteq> L"
    and tb2: "tb2 = snd (release_pages pg freed zeroes keep current tb1)"
    and tb4: "tb4 = (fold (table_do granted) ops tb2)\<lparr>tb_peak := max (tb_peak tb1) current\<rparr>"
  shows "tb_next_id tb4 \<noteq> current \<Longrightarrow> trim_ok tb L ops (Inl StillInUse) (restore taken current tb4)"
    and "tb_next_id tb4 = current \<Longrightarrow>
      trim_ok tb L ops (Inr n) (restore taken keep (tb4\<lparr>tb_next_id := keep\<rparr>))"
proof -
  let ?L = "live_after granted ops tb2 L"
  have inv2: "table_inv tb2 zs L (set taken)" unfolding tb2 using keep(3) by (rule release_inv [OF inv])
  from table_run_inv [OF inv2 frees_ops_ok [OF ops]] obtain xs3
    where inv3: "table_inv (fold (table_do granted) ops tb2) xs3 ?L (set taken)" by blast
  then have inv4: "table_inv tb4 xs3 ?L (set taken)"
    unfolding tb4 by (simp add: table_inv_def)
  have L: "L - set (frees ops) \<subseteq> ?L" by (rule live_after_keeps)
  have apart: "i \<notin> set taken" if "i \<in> L" for i using inv that by (auto simp: table_inv_def)
  have mem: "tb_mem tb4 i = tb_mem tb i" if "i \<in> L - set (frees ops)" for i
  proof -
    have "tb_mem tb4 i = tb_mem tb2 i" unfolding tb4 using that by (simp add: table_run_mem)
    also have "\<dots> = tb_mem tb1 i"
      unfolding tb2 using release_pages_spec [of pg freed zeroes keep current tb1] apart keep(3) that by blast
    finally show ?thesis using tb1(3) that by simp
  qed
  have below: "i < current" if "i \<in> set taken" for i using inv tb1(1) that by (auto simp: table_inv_def)
  have pk: "tb_peak tb4 = max (tb_peak tb) current" unfolding tb4 by (simp add: tb1(2))
  { assume "tb_next_id tb4 \<noteq> current"
    have none: "set taken - {i \<in> set taken. i < current} = {}" using below by auto
    from restore_spec [OF inv4 order_refl dist, of current] none mem apart L pk tb(1)
    show "trim_ok tb L ops (Inl StillInUse) (restore taken current tb4)"
      unfolding trim_ok_def peak_def by (auto simp: max_def) }
  { assume nid: "tb_next_id tb4 = current"
    let ?tb5 = "tb4\<lparr>tb_next_id := keep\<rparr>"
    let ?T = "{i \<in> set taken. i < keep}"
    have inv5: "table_inv ?tb5 xs3 ?L ?T"
      using inv4 nid keep(3) unfolding table_inv_def by (auto simp: not_less)
    have T: "set (filter (\<lambda>i. i < keep) taken) \<subseteq> ?T" "distinct (filter (\<lambda>i. i < keep) taken)"
      "?T - {i \<in> set (filter (\<lambda>i. i < keep) taken). i < keep} = {}"
      using dist by auto
    from restore_spec [OF inv5 T(1,2), of keep, unfolded restore_filter] T(3) mem apart L pk tb keep(1,2)
    show "trim_ok tb L ops (Inr n) (restore taken keep ?tb5)"
      unfolding trim_ok_def peak_def by auto }
qed

lemma reclaim_walked:
  assumes "trim_floor (tb_next_id tb) (tb_live tb) = floor" and "floor < tb_next_id tb"
    and "drain_free floor tb = Some (taken, tb1)"
    and "keep = keep_from (hold_bits (tb_next_id tb) taken (replicate (div_ceil (tb_next_id tb) 64) 0))
      floor (tb_next_id tb)"
    and "p = release_pages pg freed zeroes keep (tb_next_id tb) tb1"
    and "tb3 = fold (table_do granted) ops (snd p)"
    and "tb4 = tb3\<lparr>tb_peak := max (tb_peak tb3) (tb_next_id tb)\<rparr>"
  shows "reclaim pg freed zeroes granted ops tb = Some
     (if taken = [] then (Inl StillInUse, tb1)
      else if keep \<ge> tb_next_id tb then (Inl StillInUse, restore taken (tb_next_id tb) tb1)
      else if tb_next_id tb4 \<noteq> tb_next_id tb
           then (Inl StillInUse, restore taken (tb_next_id tb) tb4)
           else (Inr (fst p), restore taken keep (tb4\<lparr>tb_next_id := keep\<rparr>)))"
  using assms by (simp add: reclaim_def Let_def split_beta)

lemma trim_turned_back:
  assumes inv: "table_inv tb1 zs L (set taken)" "distinct taken"
    and tb1: "tb_next_id tb1 = tb_next_id tb" "tb_peak tb1 = tb_peak tb"
      "\<forall>i \<in> L. tb_mem tb1 i = tb_mem tb i"
  shows "trim_ok tb L ops (Inl StillInUse) (restore taken (tb_next_id tb) tb1)"
proof -
  have "\<forall>i \<in> L. i \<notin> set taken" and "set taken - {i \<in> set taken. i < tb_next_id tb} = {}"
    using inv(1) tb1(1) by (auto simp: table_inv_def)
  with restore_spec [OF inv(1) order_refl inv(2), of "tb_next_id tb"] tb1 show ?thesis
    unfolding trim_ok_def peak_def by auto
qed

lemma reclaim_spec:
  fixes tb :: "('t, 'v, 'f) table"
  assumes inv: "table_inv tb xs L {}" and ops: "distinct (frees ops)" "set (frees ops) \<subseteq> L"
  shows "\<exists>given tb'. reclaim pg freed zeroes granted ops tb = Some (given, tb') \<and> trim_ok tb L ops given tb'"
proof (cases "tb_next_id tb \<le> trim_floor (tb_next_id tb) (tb_live tb)")
  case True
  with inv show ?thesis by (auto simp: reclaim_def trim_ok_def Let_def)
next
  case False
  then have big: "floor < tb_next_id tb" if "floor = trim_floor (tb_next_id tb) (tb_live tb)" for floor using that by simp
  define floor where "floor = trim_floor (tb_next_id tb) (tb_live tb)"
  define taken where "taken = filter (\<lambda>y. floor \<le> y) xs"
  from drain_free_spec [OF inv, of floor] obtain tb1 zs where
    drain: "drain_free floor tb = Some (taken, tb1)" and
    inv1: "table_inv tb1 zs L (set taken)" and
    mem1: "\<forall>k. k \<notin> set xs \<longrightarrow> tb_mem tb1 k = tb_mem tb k" and
    tb1: "tb_next_id tb1 = tb_next_id tb" "tb_peak tb1 = tb_peak tb"
    by (auto simp: taken_def)
  have memL: "\<forall>i \<in> L. tb_mem tb1 i = tb_mem tb i" using mem1 inv by (auto simp: table_inv_def)
  have dist: "distinct taken" using inv by (simp add: taken_def table_inv_def)
  define held where "held = hold_bits (tb_next_id tb) taken (replicate (div_ceil (tb_next_id tb) 64) 0)"
  define keep where "keep = keep_from held floor (tb_next_id tb)"
  define p where "p = release_pages pg freed zeroes keep (tb_next_id tb) tb1"
  define tb3 where "tb3 = fold (table_do granted) ops (snd p)"
  define tb4 where "tb4 = tb3\<lparr>tb_peak := max (tb_peak tb3) (tb_next_id tb)\<rparr>"
  have keep: "floor \<le> keep" "\<forall>i. keep \<le> i \<and> i < tb_next_id tb \<longrightarrow> i \<in> set taken"
    using keep_from_spec [of held floor "tb_next_id tb"] keep_taken [of keep "tb_next_id tb" taken floor] False
    by (auto simp: keep_def held_def floor_def)
  note R = reclaim_walked [OF floor_def [symmetric] _ drain keep_def [unfolded held_def] p_def tb3_def tb4_def]
  note turned = trim_turned_back [OF inv1 dist tb1 memL, of ops]
  have "tb_peak tb3 = tb_peak tb1"
    using table_run_mono [of "snd p" granted ops] release_pages_spec [of pg freed zeroes keep "tb_next_id tb" tb1]
    by (simp add: tb3_def p_def)
  then have tb4: "tb4 = (fold (table_do granted) ops (snd p))\<lparr>tb_peak := max (tb_peak tb1) (tb_next_id tb)\<rparr>"
    by (simp add: tb4_def tb3_def)
  show ?thesis
  proof (cases "taken = [] \<or> tb_next_id tb \<le> keep")
    case True
    with R [OF big [OF floor_def]] turned show ?thesis by (cases "taken = []") auto
  next
    case False
    then have "keep < tb_next_id tb" by simp
    note rest = reclaim_rest [OF inv1 dist this keep tb1 memL refl floor_def ops arg_cong [OF p_def] tb4]
    from R [OF big [OF floor_def]] rest False show ?thesis by auto
  qed
qed

section \<open>A pop that was held up\<close>

text \<open>
  A pop reads the head and the link of the slot it names, and only then exchanges the head.
  \<open>stalled_pop head next tb\<close> is that exchange, on the table as others have left it.
\<close>

definition stalled_pop :: "u64 \<Rightarrow> nat \<Rightarrow> ('t, 'v, 'f) table \<Rightarrow> (nat \<times> ('t, 'v, 'f) table) option" where
  "stalled_pop head nxt tb =
     (if tb_free tb = head
      then Some (head_index head - 1,
        tb\<lparr>tb_free := pack_head (head_tag head + 1) nxt, tb_live := tb_live tb + 1\<rparr>)
      else None)"

lemma head_tag_small: "take_bit 16 (head_tag h) = head_tag h"
  by (rule bit_eqI) (auto simp: head_tag_def bit_simps TAG_SHIFT_def dest: bit_imp_le_length)

lemma unat_head_tag: "unat (head_tag h) < 2 ^ 16"
proof -
  have "head_tag h = head_tag h AND mask 16" by (metis head_tag_small take_bit_eq_mask)
  then have "uint (head_tag h) < 2 ^ 16" by (metis and_mask_lt_2p)
  then show ?thesis by (simp add: nat_less_iff flip: nat_uint_eq)
qed

lemma head_eqI: "head_tag a = head_tag b \<Longrightarrow> head_index a = head_index b \<Longrightarrow> a = b"
proof (rule bit_eqI)
  fix n
  assume tag: "head_tag a = head_tag b" and idx: "head_index a = head_index b"
  show "bit a n = bit b n"
  proof (cases "n < 48")
    case True
    from idx have "a AND INDEX_MASK = b AND INDEX_MASK" by (simp add: head_index_def word_unat_eq_iff)
    then have "bit (a AND INDEX_MASK) n = bit (b AND INDEX_MASK) n" by simp
    with True show ?thesis by (simp add: bit_simps bit_index_mask)
  next
    case False
    from tag have "bit (head_tag a) (n - 48) = bit (head_tag b) (n - 48)" by simp
    with False show ?thesis by (simp add: head_tag_def bit_simps TAG_SHIFT_def)
  qed
qed

lemma push_free_tag: "slot_ok i tb \<Longrightarrow> head_tag (tb_free (push_free i tb)) = head_tag (tb_free tb)"
  using slot_ok_bound [of i tb]
  by (simp add: push_free_def Let_def head_tag_pack head_tag_small)

lemma unat_tag_step: "unat (take_bit 16 (head_tag h + 1)) = Suc (unat (head_tag h)) mod 2 ^ 16"
proof -
  have "unat (take_bit 16 (head_tag h + 1)) = unat (head_tag h + 1) mod 2 ^ 16"
    by (simp add: take_bit_eq_mod unat_mod_distrib)
  also have "unat (head_tag h + 1) = Suc (unat (head_tag h))"
    using unat_head_tag [of h] by (intro unat_plus_one) simp
  finally show ?thesis .
qed

fun pops :: "table_op list \<Rightarrow> nat" where
  "pops [] = 0"
| "pops (Alloc # ops) = Suc (pops ops)"
| "pops (FreeId i # ops) = pops ops"

text \<open>While the list isn't empty, every pop moves the tag on by one and nothing else moves it.\<close>

lemma table_run_tag:
  assumes "table_inv tb xs L {}" "ops_ok granted ops tb L"
  shows "\<exists>xs' n. table_inv (fold (table_do granted) ops tb) xs' (live_after granted ops tb L) {} \<and>
    unat (head_tag (tb_free (fold (table_do granted) ops tb))) = (unat (head_tag (tb_free tb)) + n) mod 2 ^ 16 \<and>
    n \<le> pops ops \<and> (n = 0 \<and> xs \<noteq> [] \<longrightarrow> pops ops = 0 \<and> xs' = rev (frees ops) @ xs)"
  using assms
proof (induction ops arbitrary: tb xs L)
  case Nil
  then show ?case using unat_head_tag [of "tb_free tb"] by (auto intro: exI [of _ xs] exI [of _ 0])
next
  case (Cons op ops)
  show ?case
  proof (cases op)
    case (FreeId i)
    with Cons.prems have i: "i \<in> L" and ok: "slot_ok i tb" by (auto simp: table_inv_def)
    have tag: "head_tag (tb_free (free_id i tb)) = head_tag (tb_free tb)"
      using push_free_tag [of i "tb\<lparr>tb_live := tb_live tb - 1\<rparr>"] ok by (simp add: free_id_def slot_simps)
    from Cons.IH [OF free_id_inv [OF Cons.prems(1) i]] FreeId Cons.prems tag show ?thesis by fastforce
  next
    case Alloc
    let ?L = "case fst (alloc granted tb) of None \<Rightarrow> L | Some i \<Rightarrow> insert i L"
    from Cons.IH [OF alloc_inv [OF Cons.prems(1)], of granted] Alloc Cons.prems obtain xs' n where
      IH: "table_inv (fold (table_do granted) ops (snd (alloc granted tb))) xs'
        (live_after granted ops (snd (alloc granted tb)) ?L) {}"
      "unat (head_tag (tb_free (fold (table_do granted) ops (snd (alloc granted tb))))) =
        (unat (head_tag (tb_free (snd (alloc granted tb)))) + n) mod 2 ^ 16" "n \<le> pops ops"
      by auto
    show ?thesis
    proof (cases xs)
      case Nil
      with alloc_grow(4) [of tb L "{}" granted] Cons.prems Alloc IH show ?thesis
        by (intro exI [of _ xs'] exI [of _ n]) simp
    next
      case (Cons i "is")
      with alloc_pop(4) [of tb i "is" L "{}" granted] assms \<open>table_inv tb xs L {}\<close>
      have "unat (head_tag (tb_free (snd (alloc granted tb)))) = Suc (unat (head_tag (tb_free tb))) mod 2 ^ 16"
        by (simp add: unat_tag_step)
      then have "(unat (head_tag (tb_free (snd (alloc granted tb)))) + n) mod 2 ^ 16 =
          (unat (head_tag (tb_free tb)) + Suc n) mod 2 ^ 16"
        by (simp add: mod_add_left_eq)
      with Alloc IH show ?thesis by (intro exI [of _ xs'] exI [of _ "Suc n"]) simp
    qed
  qed
qed

lemma stalled_pop_quiet:
  assumes inv: "table_inv tb (i # xs) L {}" and ok: "ops_ok granted ops tb L" and few: "pops ops < 2 ^ 16"
    and same: "tb_free (fold (table_do granted) ops tb) = tb_free tb"
  shows "ops = []"
proof -
  from table_run_tag [OF inv ok] obtain xs' n where
    inv': "table_inv (fold (table_do granted) ops tb) xs' (live_after granted ops tb L) {}" and
    tag: "unat (head_tag (tb_free tb)) = (unat (head_tag (tb_free tb)) + n) mod 2 ^ 16" and
    n: "n \<le> pops ops" "n = 0 \<longrightarrow> pops ops = 0 \<and> xs' = rev (frees ops) @ i # xs"
    by (auto simp: same)
  have "n = 0"
  proof (rule ccontr)
    assume "n \<noteq> 0"
    moreover have "n < 2 ^ 16" using n(1) few by simp
    ultimately show False using tag unat_head_tag [of "tb_free tb"] by (auto simp: mod_if split: if_splits)
  qed
  with n have xs': "xs' = rev (frees ops) @ i # xs" and none: "pops ops = 0" by auto
  have "distinct xs'" "hd xs' = i"
    using inv inv' same by (auto simp: table_inv_def xs' neq_Nil_conv) (cases xs'; simp add: xs')+
  then have "frees ops = []" using xs' by (cases "rev (frees ops)") auto
  with none show ?thesis by (cases ops rule: pops.cases) auto
qed

text \<open>Sixty five thousand pops later the tag is back where it was.\<close>

fun cycles :: "nat \<Rightarrow> nat \<Rightarrow> table_op list" where
  "cycles i 0 = []"
| "cycles i (Suc n) = Alloc # FreeId i # cycles i n"

lemma free_id_tag: "i \<in> L \<Longrightarrow> table_inv tb xs L T \<Longrightarrow> head_tag (tb_free (free_id i tb)) = head_tag (tb_free tb)"
  using push_free_tag [of i "tb\<lparr>tb_live := tb_live tb - 1\<rparr>"]
  by (auto simp: free_id_def slot_simps table_inv_def)

lemma cycles_spec:
  assumes "table_inv tb [i] L {}"
  shows "table_inv (fold (table_do granted) (cycles i n) tb) [i] L {} \<and>
    live_after granted (cycles i n) tb L = L \<and> ops_ok granted (cycles i n) tb L \<and>
    unat (head_tag (tb_free (fold (table_do granted) (cycles i n) tb))) =
      (unat (head_tag (tb_free tb)) + n) mod 2 ^ 16"
  using assms
proof (induction n arbitrary: tb)
  case 0
  then show ?case using unat_head_tag [of "tb_free tb"] by simp
next
  case (Suc n)
  note pop = alloc_pop [OF Suc.prems, of granted]
  have i: "i \<in> insert i L" "i \<notin> L" "insert i L - {i} = L" using Suc.prems by (auto simp: table_inv_def)
  note free = free_id_inv [OF pop(2) i(1), unfolded i(3)]
  have tag: "unat (head_tag (tb_free (free_id i (snd (alloc granted tb))))) =
      Suc (unat (head_tag (tb_free tb))) mod 2 ^ 16"
    using free_id_tag [OF i(1) pop(2)] pop(4) by (simp add: unat_tag_step)
  from Suc.IH [OF free] pop(1) i tag show ?case by (simp add: mod_add_left_eq)
qed

definition wrap_ops :: "nat \<Rightarrow> table_op list" where
  "wrap_ops i = Alloc # Alloc # FreeId i # cycles i 65534"

lemma wrap_ops_spec:
  assumes inv: "table_inv tb [i, k] L {}"
  shows "ops_ok granted (wrap_ops i) tb L \<and> k \<in> live_after granted (wrap_ops i) tb L \<and>
    tb_free (fold (table_do granted) (wrap_ops i) tb) = tb_free tb"
proof -
  define tb1 where "tb1 = snd (alloc granted tb)"
  define tb2 where "tb2 = snd (alloc granted tb1)"
  define tb3 where "tb3 = free_id i tb2"
  note a = alloc_pop [OF inv, of granted, folded tb1_def]
  note b = alloc_pop [OF a(2), of granted, folded tb2_def]
  have i: "i \<in> insert k (insert i L)" and L: "insert k (insert i L) - {i} = insert k L"
    using inv by (auto simp: table_inv_def)
  note c = free_id_inv [OF b(2) i, folded tb3_def, unfolded L]
  note d = cycles_spec [OF c, of granted 65534]
  have tags: "unat (head_tag (tb_free tb1)) = Suc (unat (head_tag (tb_free tb))) mod 2 ^ 16"
    "unat (head_tag (tb_free tb2)) = Suc (unat (head_tag (tb_free tb1))) mod 2 ^ 16"
    "head_tag (tb_free tb3) = head_tag (tb_free tb2)"
    using a(4) unat_tag_step [of "tb_free tb"] b(4) unat_tag_step [of "tb_free tb1"]
      free_id_tag [OF i b(2)] unfolding tb3_def by (metis, metis, metis)
  let ?tb = "fold (table_do granted) (cycles i 65534) tb3"
  have "unat (head_tag (tb_free ?tb)) = (unat (head_tag (tb_free tb)) + 65536) mod 2 ^ 16"
    using d tags by (simp add: mod_simps)
  then have "head_tag (tb_free ?tb) = head_tag (tb_free tb)"
    using unat_head_tag [of "tb_free tb"] by (simp add: word_unat_eq_iff)
  moreover have "head_index (tb_free ?tb) = head_index (tb_free tb)"
    using d inv by (simp add: table_inv_def)
  ultimately have "tb_free ?tb = tb_free tb" by (rule head_eqI)
  with a(1) b(1) d i L show ?thesis
    by (simp add: wrap_ops_def tb1_def [symmetric] tb2_def [symmetric] tb3_def [symmetric])
qed

section \<open>The pool of ids\<close>

text \<open>
  What the executor relies on: an id it is given isn't one already out, and one it gives
  back is its own to give.
\<close>

fun gets :: "('s \<Rightarrow> nat option \<times> 's) \<Rightarrow> nat \<Rightarrow> 's \<Rightarrow> nat list" where
  "gets get 0 s = []"
| "gets get (Suc n) s =
     (case fst (get s) of None \<Rightarrow> gets get n (snd (get s)) | Some i \<Rightarrow> i # gets get n (snd (get s)))"

locale id_pool =
  fixes ok :: "'s \<Rightarrow> nat set \<Rightarrow> bool"
    and get :: "'s \<Rightarrow> nat option \<times> 's"
    and give :: "nat \<Rightarrow> 's \<Rightarrow> 's"
  assumes get_some: "ok s L \<Longrightarrow> fst (get s) = Some i \<Longrightarrow> i \<notin> L \<and> ok (snd (get s)) (insert i L)"
    and get_none: "ok s L \<Longrightarrow> fst (get s) = None \<Longrightarrow> ok (snd (get s)) L"
    and give_back: "ok s L \<Longrightarrow> i \<in> L \<Longrightarrow> ok (give i s) (L - {i})"
begin

lemma gets_fresh: "ok s L \<Longrightarrow> distinct (gets get n s) \<and> set (gets get n s) \<inter> L = {}"
proof (induction n arbitrary: s L)
  case (Suc n)
  show ?case
  proof (cases "fst (get s)")
    case None
    with Suc.IH [OF get_none [OF Suc.prems]] show ?thesis by simp
  next
    case (Some i)
    with get_some [OF Suc.prems] Suc.IH [of "snd (get s)" "insert i L"] show ?thesis by auto
  qed
qed simp

end

definition table_ok :: "('t, 'v, 'f) table \<Rightarrow> nat set \<Rightarrow> bool" where
  "table_ok tb L \<longleftrightarrow> (\<exists>xs. table_inv tb xs L {})"

interpretation table_pool: id_pool table_ok "alloc granted" free_id
proof
  show "i \<notin> L \<and> table_ok (snd (alloc granted tb)) (insert i L)"
    if "table_ok tb L" "fst (alloc granted tb) = Some i" for tb :: "('t, 'v, 'f) table" and L i
    using that alloc_fresh [of tb _ L "{}" granted i] alloc_inv [of tb _ L "{}" granted]
    by (fastforce simp: table_ok_def)
  show "table_ok (snd (alloc granted tb)) L"
    if "table_ok tb L" "fst (alloc granted tb) = None" for tb :: "('t, 'v, 'f) table" and L
    using that alloc_inv [of tb _ L "{}" granted] by (fastforce simp: table_ok_def)
  show "table_ok (free_id i tb) (L - {i})" if "table_ok tb L" "i \<in> L" for tb :: "('t, 'v, 'f) table" and L i
    using that free_id_inv [of tb _ L "{}" i] by (auto simp: table_ok_def)
qed

section \<open>Two small tables\<close>

definition one_out :: "(nat, nat, nat) table" where
  "one_out = snd (alloc (\<lambda>_. True) table_new)"

definition one_free :: "(nat, nat, nat) table" where
  "one_free = free_id 0 one_out"

definition two_free :: "(nat, nat, nat) table" where
  "two_free = free_id 0 (free_id 1 (snd (alloc (\<lambda>_. True) one_out)))"

lemma one_out_inv: "table_inv one_out [] {0} {}" "tb_next_id one_out = 1"
proof -
  have "fst (alloc (\<lambda>_. True) (table_new :: (nat, nat, nat) table)) = Some 0"
    by (simp add: alloc_def table_new_def head_index_def block_for_def Let_def MAX_TASK_ID_val)
  moreover have "table_inv (table_new :: (nat, nat, nat) table) [] {} {}" by (rule table_new_inv)
  note alloc_grow(1,5) [OF this, of "\<lambda>_. True"]
  moreover have "tb_next_id (table_new :: (nat, nat, nat) table) = 0" by (simp add: table_new_def)
  ultimately show "table_inv one_out [] {0} {}" "tb_next_id one_out = 1"
    by (simp_all add: one_out_def)
qed

lemma one_free_inv: "table_inv one_free [0] {} {}"
  using free_id_inv [OF one_out_inv(1), of 0] by (simp add: one_free_def)

lemma two_free_inv: "table_inv two_free [0, 1] {} {}"
proof -
  have "head_index (tb_free one_out) = 0" using one_out_inv by (simp add: table_inv_def)
  then have "fst (alloc (\<lambda>_. True) one_out) = Some 1"
    using one_out_inv(2) by (simp add: alloc_def block_for_def Let_def MAX_TASK_ID_val)
  with alloc_grow(1) [OF one_out_inv(1), of "\<lambda>_. True"]
  have "table_inv (snd (alloc (\<lambda>_. True) one_out)) [] {1, 0} {}" by simp
  from free_id_inv [OF this, of 1] have "table_inv (free_id 1 (snd (alloc (\<lambda>_. True) one_out))) [1] {0} {}"
    by simp
  from free_id_inv [OF this, of 0] show ?thesis by (simp add: two_free_def)
qed

section \<open>Properties\<close>

text \<open>
  every id below the table's limit has a place of its own: its block is one of the
  table's, its offset lies inside that block, and two ids never share a place.
\<close>
theorem position_in_block:
  assumes "i < MAX_TASK_ID"
  shows "fst (position i) < TABLE_BLOCKS \<and> snd (position i) < FIRST_BLOCK * 2 ^ fst (position i) \<and>
    i = FIRST_BLOCK * 2 ^ fst (position i) - FIRST_BLOCK + snd (position i)"
proof -
  from block_exists [OF assms] obtain b where b: "b < TABLE_BLOCKS"
    "FIRST_BLOCK * 2 ^ b \<le> i + FIRST_BLOCK" "i + FIRST_BLOCK < FIRST_BLOCK * 2 ^ Suc b" by blast
  moreover have "FIRST_BLOCK \<le> FIRST_BLOCK * 2 ^ b" by simp
  ultimately show ?thesis using position_eq [OF b(2,3,1)] by auto
qed

theorem position_in_block_witness:
  "fst (position 1000) < TABLE_BLOCKS \<and> 1000 = FIRST_BLOCK * 2 ^ fst (position 1000) - FIRST_BLOCK + snd (position 1000)"
  using position_in_block [of 1000] by (simp add: MAX_TASK_ID_val)

text \<open>
  C1: whatever ids are out, taking any number of ids hands out ones that are all different
  and none of which was out, whether they come off the free list or grow the table.
\<close>
theorem alloc_never_live:
  assumes "table_inv tb xs L {}"
  shows "distinct (gets (alloc granted) n tb) \<and> set (gets (alloc granted) n tb) \<inter> L = {}"
  using table_pool.gets_fresh [of tb L granted n] assms by (auto simp: table_ok_def)

theorem alloc_never_live_witness:
  "distinct (gets (alloc (\<lambda>_. True)) 40 (table_new :: (nat, nat, nat) table))"
  using alloc_never_live [OF table_new_inv, of "\<lambda>_. True" 40] by blast

text \<open>
  C7: the free list built of links in the slots behaves as a stack: giving back an id that
  is out puts it on top, taking one pops the top, both keep the list, the ids out and
  their count in step, and only an empty list makes the table grow.
\<close>
theorem free_list_is_stack:
  assumes "table_inv tb xs L T"
  shows "(i \<in> L \<longrightarrow> table_inv (free_id i tb) (i # xs) (L - {i}) T) \<and>
    (xs \<noteq> [] \<longrightarrow> fst (alloc granted tb) = Some (hd xs) \<and>
      table_inv (snd (alloc granted tb)) (tl xs) (insert (hd xs) L) T) \<and>
    (xs = [] \<longrightarrow> fst (alloc granted tb) \<in> {None, Some (tb_next_id tb)})"
proof (cases xs)
  case Nil
  with assms free_id_inv [OF assms, of i] alloc_grow(2) [of tb L T granted] show ?thesis by simp
next
  case (Cons k ks)
  with assms free_id_inv [OF assms, of i] alloc_pop(1,2) [of tb k ks L T granted] show ?thesis by simp
qed

theorem free_list_is_stack_witness:
  "fst (alloc (\<lambda>_. True) (table_new :: (nat, nat, nat) table)) \<in> {None, Some 0}"
  using free_list_is_stack [OF table_new_inv, of 0 "\<lambda>_. True"] by (simp add: table_new_def)



text \<open>
  a pop that was held up between reading the head and exchanging it does exactly what
  an undisturbed pop would do, or fails and starts again, as long as fewer than sixty
  five thousand five hundred and thirty six pops overtook it.
\<close>
theorem stalled_pop_safe:
  assumes "table_inv tb (i # xs) L {}" and "ops_ok granted ops tb L" and "pops ops < 2 ^ 16"
    and "stalled_pop (tb_free tb) (next_link (tb_mem tb i)) (fold (table_do granted) ops tb) = Some (k, tb')"
  shows "alloc granted (fold (table_do granted) ops tb) = (Some k, tb')"
proof -
  from assms(4) have "tb_free (fold (table_do granted) ops tb) = tb_free tb"
    by (simp add: stalled_pop_def split: if_splits)
  then have "ops = []" by (rule stalled_pop_quiet [OF assms(1-3)])
  moreover have "head_index (tb_free tb) = Suc i" "slot_ok i tb" using assms(1) by (auto simp: table_inv_def)
  ultimately show ?thesis using assms(4) by (auto simp: stalled_pop_def alloc_def slot_simps Let_def)
qed

theorem stalled_pop_safe_witness:
  "\<exists>tb'. stalled_pop (tb_free one_free) (next_link (tb_mem one_free 0)) one_free = Some (0, tb') \<and>
    alloc (\<lambda>_. True) one_free = (Some 0, tb')"
proof -
  have "head_index (tb_free one_free) = 1" using one_free_inv by (simp add: table_inv_def)
  then obtain tb' where s: "stalled_pop (tb_free one_free) (next_link (tb_mem one_free 0)) one_free = Some (0, tb')"
    by (auto simp: stalled_pop_def)
  with stalled_pop_safe [OF one_free_inv, of "\<lambda>_. True" "[]" 0 tb'] show ?thesis by simp
qed

text \<open>
  the tag on the free list's head is sixteen bits wide, so it protects a held up pop
  against at most that many others. After exactly two to the sixteen pops the head can
  look untouched while the second id of the list is out, and the held up pop then puts
  that id back on the list, from where the next caller is given an id that is live.
\<close>
theorem free_list_tag_wraps:
  assumes "table_inv tb [i, k] L {}"
  shows "ops_ok granted (wrap_ops i) tb L \<and> k \<in> live_after granted (wrap_ops i) tb L \<and>
    (\<exists>tb'. stalled_pop (tb_free tb) (next_link (tb_mem tb i)) (fold (table_do granted) (wrap_ops i) tb) =
        Some (i, tb') \<and> fst (alloc granted tb') = Some k)"
proof -
  note w = wrap_ops_spec [OF assms, of granted]
  let ?tb = "fold (table_do granted) (wrap_ops i) tb"
  from table_run_inv [OF assms] w have ok: "slot_ok k ?tb" by (auto simp: table_inv_def)
  have head: "head_index (tb_free tb) = Suc i" and nxt: "next_link (tb_mem tb i) = Suc k"
    using assms by (auto simp: table_inv_def)
  let ?tb' = "?tb\<lparr>tb_free := pack_head (head_tag (tb_free tb) + 1) (Suc k), tb_live := tb_live ?tb + 1\<rparr>"
  have "head_index (pack_head (head_tag (tb_free tb) + 1) (Suc k)) = Suc k"
    using slot_ok_bound [OF ok] by (intro head_index_pack) simp
  then have "fst (alloc granted ?tb') = Some k" using ok by (simp add: alloc_def slot_simps Let_def)
  moreover have "stalled_pop (tb_free tb) (next_link (tb_mem tb i)) ?tb = Some (i, ?tb')"
    using w head by (simp add: stalled_pop_def nxt)
  ultimately show ?thesis using w by blast
qed

theorem free_list_tag_wraps_witness:
  "1 \<in> live_after (\<lambda>_. True) (wrap_ops 0) two_free {} \<and>
   (\<exists>tb'. stalled_pop (tb_free two_free) (next_link (tb_mem two_free 0))
        (fold (table_do (\<lambda>_. True)) (wrap_ops 0) two_free) = Some (0, tb') \<and>
      fst (alloc (\<lambda>_. True) tb') = Some 1)"
  using free_list_tag_wraps [OF two_free_inv, of "\<lambda>_. True"] by simp

end
