(* ===== verification/Queue_Spec.thy ===== *)
theory Queue_Spec
  imports Atap_Prelude
begin

text \<open>
  What every first in first out queue of the runtime promises: a band of the injector, a
  worker's ring and a channel's queue are all instances. A state \<open>s\<close> holds the items \<open>xs\<close>
  when \<open>holds s xs\<close>; adding an item an instance accepts puts it last, and taking one
  gives the first and always returns. The lemmas of the locale are about whole histories of
  adds and takes.
\<close>

datatype 'a queue_op = Enq 'a | Deq

fun queue_run ::
  "('a \<Rightarrow> 's \<Rightarrow> 's) \<Rightarrow> ('s \<Rightarrow> ('a option \<times> 's) option) \<Rightarrow> 'a queue_op list \<Rightarrow> 's
    \<Rightarrow> ('a list \<times> 's) option" where
  "queue_run enq deq [] s = Some ([], s)"
| "queue_run enq deq (Enq x # ops) s = queue_run enq deq ops (enq x s)"
| "queue_run enq deq (Deq # ops) s =
     (case deq s of
        None \<Rightarrow> None
      | Some (r, s1) \<Rightarrow>
          (case queue_run enq deq ops s1 of
             None \<Rightarrow> None
           | Some (out, s2) \<Rightarrow> Some ((case r of None \<Rightarrow> out | Some x \<Rightarrow> x # out), s2)))"

text \<open>Every add of a history is one the queue accepts at that moment.\<close>

fun queue_valid ::
  "('a \<Rightarrow> 's \<Rightarrow> bool) \<Rightarrow> ('a \<Rightarrow> 's \<Rightarrow> 's) \<Rightarrow> ('s \<Rightarrow> ('a option \<times> 's) option) \<Rightarrow> 'a queue_op list
    \<Rightarrow> 's \<Rightarrow> bool" where
  "queue_valid accepts enq deq [] s \<longleftrightarrow> True"
| "queue_valid accepts enq deq (Enq x # ops) s \<longleftrightarrow>
     accepts x s \<and> queue_valid accepts enq deq ops (enq x s)"
| "queue_valid accepts enq deq (Deq # ops) s \<longleftrightarrow>
     (case deq s of None \<Rightarrow> True | Some (_, s1) \<Rightarrow> queue_valid accepts enq deq ops s1)"

fun added :: "'a queue_op list \<Rightarrow> 'a list" where
  "added [] = []"
| "added (Enq x # ops) = x # added ops"
| "added (Deq # ops) = added ops"

locale fifo =
  fixes holds :: "'s \<Rightarrow> 'a list \<Rightarrow> bool"
    and accepts :: "'a \<Rightarrow> 's \<Rightarrow> bool"
    and enq :: "'a \<Rightarrow> 's \<Rightarrow> 's"
    and deq :: "'s \<Rightarrow> ('a option \<times> 's) option"
  assumes enq_last: "holds s xs \<Longrightarrow> accepts x s \<Longrightarrow> holds (enq x s) (xs @ [x])"
    and deq_none: "holds s [] \<Longrightarrow> \<exists>s'. deq s = Some (None, s') \<and> holds s' []"
    and deq_first: "holds s (x # xs) \<Longrightarrow> \<exists>s'. deq s = Some (Some x, s') \<and> holds s' xs"
begin

text \<open>What comes out, followed by what is left, is what was there followed by what was added.\<close>

lemma in_order:
  assumes "holds s xs" "queue_valid accepts enq deq ops s"
  shows "\<exists>out s' rest. queue_run enq deq ops s = Some (out, s') \<and> holds s' rest \<and>
    out @ rest = xs @ added ops"
  using assms
proof (induction ops arbitrary: s xs)
  case Nil
  then show ?case by auto
next
  case (Cons op ops)
  show ?case
  proof (cases op)
    case (Enq x)
    with Cons.prems have "holds (enq x s) (xs @ [x])" "queue_valid accepts enq deq ops (enq x s)"
      by (simp_all add: enq_last)
    from Cons.IH [OF this] Enq show ?thesis by auto
  next
    case Deq
    show ?thesis
    proof (cases xs)
      case Nil
      obtain s1 where d: "deq s = Some (None, s1)" "holds s1 []"
        using deq_none Cons.prems(1) Nil by blast
      with Cons.prems(2) Deq have "queue_valid accepts enq deq ops s1" by simp
      from Cons.IH [OF d(2) this] d(1) Deq Nil show ?thesis by auto
    next
      case C: (Cons y ys)
      obtain s1 where d: "deq s = Some (Some y, s1)" "holds s1 ys"
        using deq_first Cons.prems(1) C by blast
      with Cons.prems(2) Deq have "queue_valid accepts enq deq ops s1" by simp
      from Cons.IH [OF d(2) this] d(1) Deq C show ?thesis by auto
    qed
  qed
qed

text \<open>As many takes as there are items empty the queue, in order.\<close>

lemma drained:
  assumes "holds s xs"
  shows "\<exists>s'. queue_run enq deq (replicate (length xs) Deq) s = Some (xs, s') \<and> holds s' []"
  using assms
proof (induction xs arbitrary: s)
  case Nil
  then show ?case by simp
next
  case (Cons x xs)
  obtain s1 where d: "deq s = Some (Some x, s1)" "holds s1 xs" using deq_first [OF Cons.prems] by blast
  from Cons.IH [OF d(2)] d(1) show ?case by auto
qed

end

end
