(* ===== verification/Injector.thy ===== *)
theory Injector
  imports Task_Table Queue_Spec "HOL-Library.Monad_Syntax" "HOL-Library.Multiset"
begin

text \<open>
  \<open>src/modules/injector.rs\<close>: the queue every spawned task lands in. Each band is two
  chains through the slots of the task table, one newest first that is pushed onto, one
  oldest first that is served. The operations take the injector and the table and return
  both; \<open>None\<close> is a loop that doesn't end, which a circular chain would make.

  \<open>inj_rel ij tb q\<close> says that the injector and the table together hold the queues \<open>q\<close>,
  one per band, oldest first. Every operation is shown to act on \<open>q\<close> the way a bank of
  first in first out queues does.
\<close>

section \<open>Slots by id\<close>

text \<open>\<open>executor::slot\<close>, \<open>queue_link\<close> and \<open>set_queue_link\<close>.\<close>

definition live_slot :: "nat \<Rightarrow> ('t, 'v, 'f) table \<Rightarrow> ('t, 'v, 'f) task_data option" where
  "live_slot i tb =
     (case slot i tb of
        None \<Rightarrow> None
      | Some d \<Rightarrow> if td_state d = Free then None else Some d)"

definition queue_link :: "nat \<Rightarrow> ('t, 'v, 'f) table \<Rightarrow> nat option" where
  "queue_link i tb = map_option queue_next (slot i tb)"

definition set_queue_link :: "nat \<Rightarrow> nat \<Rightarrow> ('t, 'v, 'f) table \<Rightarrow> ('t, 'v, 'f) table" where
  "set_queue_link i n tb =
     (case slot i tb of None \<Rightarrow> tb | Some d \<Rightarrow> put_slot i (set_queue_next n d) tb)"

section \<open>The injector\<close>

record injector =
  in_incoming :: "nat \<Rightarrow> nat"
  in_ready :: "nat \<Rightarrow> u64"
  in_flipping :: "nat \<Rightarrow> bool"
  in_len :: u64
  in_relief :: u32

definition injector_new :: injector where
  "injector_new =
     \<lparr>in_incoming = (\<lambda>_. 0), in_ready = (\<lambda>_. 0), in_flipping = (\<lambda>_. False),
      in_len = 0, in_relief = 0\<rparr>"

definition set_ready :: "nat \<Rightarrow> u64 \<Rightarrow> injector \<Rightarrow> injector" where
  "set_ready b h ij = ij\<lparr>in_ready := (in_ready ij)(b := h)\<rparr>"

definition set_incoming :: "nat \<Rightarrow> nat \<Rightarrow> injector \<Rightarrow> injector" where
  "set_incoming b e ij = ij\<lparr>in_incoming := (in_incoming ij)(b := e)\<rparr>"

definition set_flipping :: "nat \<Rightarrow> bool \<Rightarrow> injector \<Rightarrow> injector" where
  "set_flipping b f ij = ij\<lparr>in_flipping := (in_flipping ij)(b := f)\<rparr>"

definition count_out :: "injector \<Rightarrow> injector" where
  "count_out ij = ij\<lparr>in_len := in_len ij - 1\<rparr>"

text \<open>Linking a task in front of a band's pushed side, the loop \<open>push\<close> and \<open>promote\<close> share.\<close>

definition link_incoming ::
  "nat \<Rightarrow> nat \<Rightarrow> injector \<Rightarrow> ('t, 'v, 'f) table \<Rightarrow> injector \<times> ('t, 'v, 'f) table" where
  "link_incoming b i ij tb =
     (set_incoming b (i + 1) ij,
      put_slot i (set_queue_next (in_incoming ij b) (tb_mem tb i)) tb)"

definition push ::
  "nat \<Rightarrow> injector \<Rightarrow> ('t, 'v, 'f) table \<Rightarrow> bool \<times> injector \<times> ('t, 'v, 'f) table" where
  "push i ij tb =
     (case live_slot i tb of
        None \<Rightarrow> (False, ij, tb)
      | Some d \<Rightarrow>
          (let b = min (band d) (PRIORITY_BANDS - 1);
               tb1 = put_slot i (mark_queued QUEUED_SHARED d) tb;
               ij1 = ij\<lparr>in_len := in_len ij + 1\<rparr>
           in (True, link_incoming b i ij1 tb1)))"

section \<open>The served side\<close>

partial_function (option) pop_ready ::
  "nat \<Rightarrow> injector \<Rightarrow> ('t, 'v, 'f) table \<Rightarrow> (nat option \<times> injector) option" where
  [code]: "pop_ready b ij tb =
     (let head = in_ready ij b; index = head_index head in
      if index = 0 then Some (None, ij)
      else
        (let i = index - 1 in
         case queue_link i tb of
           None \<Rightarrow> Some (None, set_ready b (push_bit TAG_SHIFT (head_tag head + 1)) ij)
         | Some nxt \<Rightarrow>
             (let ij1 = set_ready b (pack_head (head_tag head + 1) nxt) ij in
              if live_slot i tb = None then pop_ready b (count_out ij1) tb
              else Some (Some i, ij1))))"

partial_function (option) flip_loop ::
  "nat \<Rightarrow> nat \<Rightarrow> ('t, 'v, 'f) table \<Rightarrow> (nat \<times> ('t, 'v, 'f) table) option" where
  [code]: "flip_loop cursor reversed tb =
     (if cursor = 0 then Some (reversed, tb)
      else
        (case queue_link (cursor - 1) tb of
           None \<Rightarrow> Some (reversed, tb)
         | Some nxt \<Rightarrow> flip_loop nxt cursor (set_queue_link (cursor - 1) reversed tb)))"

definition flip ::
  "nat \<Rightarrow> injector \<Rightarrow> ('t, 'v, 'f) table \<Rightarrow> (bool \<times> injector \<times> ('t, 'v, 'f) table) option" where
  "flip b ij tb =
     (if in_flipping ij b then Some (True, ij, tb)
      else
        (let ij1 = set_flipping b True ij;
             head = in_ready ij1 b
         in if head_index head \<noteq> 0 then Some (True, set_flipping b False ij1, tb)
            else
              (let cursor = in_incoming ij1 b;
                   ij2 = set_incoming b 0 ij1
               in if cursor = 0 then Some (False, set_flipping b False ij2, tb)
                  else do {
                    (reversed, tb1) \<leftarrow> flip_loop cursor 0 tb;
                    Some (reversed \<noteq> 0,
                      set_flipping b False
                        (set_ready b (pack_head (head_tag head + 1) reversed) ij2), tb1)
                  })))"

text \<open>The next id of a band, from the served side or, once that is dry, after a reversal.\<close>

definition next_of ::
  "nat \<Rightarrow> injector \<Rightarrow> ('t, 'v, 'f) table \<Rightarrow> (nat option \<times> injector \<times> ('t, 'v, 'f) table) option" where
  "next_of b ij tb = do {
     (popped, ij1) \<leftarrow> pop_ready b ij tb;
     case popped of
       Some i \<Rightarrow> Some (Some i, ij1, tb)
     | None \<Rightarrow> do {
         (again, ij2, tb2) \<leftarrow> flip b ij1 tb;
         if \<not> again then Some (None, ij2, tb2)
         else do {
           (popped, ij3) \<leftarrow> pop_ready b ij2 tb2;
           Some (popped, ij3, tb2)
         }
       }
   }"

partial_function (option) take_from ::
  "nat \<Rightarrow> injector \<Rightarrow> ('t, 'v, 'f) table \<Rightarrow> (nat option \<times> injector \<times> ('t, 'v, 'f) table) option" where
  [code]: "take_from b ij tb = do {
     (popped, ij1, tb1) \<leftarrow> next_of b ij tb;
     case popped of
       None \<Rightarrow> Some (None, ij1, tb1)
     | Some i \<Rightarrow>
         (let ij2 = count_out ij1 in
          case live_slot i tb1 of
            None \<Rightarrow> take_from b ij2 tb1
          | Some d \<Rightarrow>
              (let (mine, d1) = claim_queued QUEUED_SHARED d; tb2 = put_slot i d1 tb1 in
               if mine then Some (Some i, ij2, tb2) else take_from b ij2 tb2))
   }"

definition pop_from ::
  "nat \<Rightarrow> injector \<Rightarrow> ('t, 'v, 'f) table \<Rightarrow> (nat option \<times> injector \<times> ('t, 'v, 'f) table) option" where
  "pop_from b ij tb = take_from b ij tb"

section \<open>Relief and serving order\<close>

definition set_starving :: "bool \<Rightarrow> injector \<Rightarrow> injector" where
  "set_starving starving ij = ij\<lparr>in_relief := (if starving then STARVE_RELIEF else 0)\<rparr>"

definition spend_relief :: "injector \<Rightarrow> injector" where
  "spend_relief ij =
     ij\<lparr>in_relief :=
           snd (fetch_update (\<lambda>left. if left = 0 then None else Some (left - 1)) (in_relief ij))\<rparr>"

fun oldest_loop ::
  "nat list \<Rightarrow> (nat \<times> nat \<times> u64) option \<Rightarrow> injector \<Rightarrow> ('t, 'v, 'f) table
    \<Rightarrow> (nat \<times> nat \<times> u64) option" where
  "oldest_loop [] best ij tb = best"
| "oldest_loop (b # bs) best ij tb =
     (let index = head_index (in_ready ij b) in
      if index = 0 then oldest_loop bs best ij tb
      else
        (case live_slot (index - 1) tb of
           None \<Rightarrow> oldest_loop bs best ij tb
         | Some d \<Rightarrow>
             (let stamp = priority_sequence d in
              if (case best of None \<Rightarrow> True | Some (_, _, s) \<Rightarrow> stamp < s)
              then oldest_loop bs (Some (b, index - 1, stamp)) ij tb
              else oldest_loop bs best ij tb)))"

definition oldest :: "injector \<Rightarrow> ('t, 'v, 'f) table \<Rightarrow> (nat \<times> nat) option" where
  "oldest ij tb =
     map_option (\<lambda>(b, i, _). (b, i)) (oldest_loop [0..<PRIORITY_BANDS] None ij tb)"

definition oldest_band :: "injector \<Rightarrow> ('t, 'v, 'f) table \<Rightarrow> nat option" where
  "oldest_band ij tb = map_option fst (oldest ij tb)"

fun pop_bands ::
  "nat list \<Rightarrow> injector \<Rightarrow> ('t, 'v, 'f) table
    \<Rightarrow> ((nat \<times> nat) option \<times> injector \<times> ('t, 'v, 'f) table) option" where
  "pop_bands [] ij tb = Some (None, ij, tb)"
| "pop_bands (b # bs) ij tb = do {
     (got, ij1, tb1) \<leftarrow> take_from b ij tb;
     case got of
       Some i \<Rightarrow> Some (Some (i, b), ij1, tb1)
     | None \<Rightarrow> pop_bands bs ij1 tb1
   }"

text \<open>A relief pop that finds its band empty falls back to the order of the bands.\<close>

definition pop_banded ::
  "injector \<Rightarrow> ('t, 'v, 'f) table \<Rightarrow> ((nat \<times> nat) option \<times> injector \<times> ('t, 'v, 'f) table) option" where
  "pop_banded ij tb =
     (let normal = pop_bands (rev [0..<PRIORITY_BANDS]) in
      if in_relief ij \<noteq> 0 then
        (case oldest_band ij tb of
           None \<Rightarrow> normal ij tb
         | Some b \<Rightarrow> do {
             (got, ij1, tb1) \<leftarrow> take_from b ij tb;
             case got of
               Some i \<Rightarrow> Some (Some (i, b), spend_relief ij1, tb1)
             | None \<Rightarrow> normal ij1 tb1
           })
      else normal ij tb)"

definition pop ::
  "injector \<Rightarrow> ('t, 'v, 'f) table \<Rightarrow> (nat option \<times> injector \<times> ('t, 'v, 'f) table) option" where
  "pop ij tb = do {
     (got, ij1, tb1) \<leftarrow> pop_banded ij tb;
     Some (map_option fst got, ij1, tb1)
   }"

definition injector_len :: "injector \<Rightarrow> u64" where
  "injector_len ij = in_len ij"

definition injector_is_empty :: "injector \<Rightarrow> bool" where
  "injector_is_empty ij \<longleftrightarrow> in_len ij = 0"

section \<open>Promotion, refilling and draining\<close>

definition promote ::
  "nat \<Rightarrow> injector \<Rightarrow> ('t, 'v, 'f) table \<Rightarrow> (injector \<times> ('t, 'v, 'f) table) option" where
  "promote b ij tb =
     (if b + 1 \<ge> PRIORITY_BANDS then Some (ij, tb)
      else do {
        (popped, ij1) \<leftarrow> pop_ready b ij tb;
        case popped of
          None \<Rightarrow> Some (ij1, tb)
        | Some i \<Rightarrow>
            (case live_slot i tb of
               None \<Rightarrow> Some (count_out ij1, tb)
             | Some _ \<Rightarrow> Some (link_incoming (b + 1) i ij1 tb))
      })"

fun refill_bands ::
  "nat list \<Rightarrow> injector \<Rightarrow> ('t, 'v, 'f) table \<Rightarrow> (injector \<times> ('t, 'v, 'f) table) option" where
  "refill_bands [] ij tb = Some (ij, tb)"
| "refill_bands (b # bs) ij tb = do {
     (_, ij1, tb1) \<leftarrow> flip b ij tb;
     refill_bands bs ij1 tb1
   }"

definition refill ::
  "injector \<Rightarrow> ('t, 'v, 'f) table \<Rightarrow> (injector \<times> ('t, 'v, 'f) table) option" where
  "refill = refill_bands [0..<PRIORITY_BANDS]"

partial_function (option) drain_bands ::
  "nat list \<Rightarrow> injector \<Rightarrow> ('t, 'v, 'f) table
    \<Rightarrow> (nat list \<times> injector \<times> ('t, 'v, 'f) table) option" where
  [code]: "drain_bands drained ij tb = do {
     (got, ij1, tb1) \<leftarrow> pop ij tb;
     case got of
       None \<Rightarrow> Some (drained, ij1, tb1)
     | Some i \<Rightarrow> drain_bands (drained @ [i]) ij1 tb1
   }"

definition drain ::
  "injector \<Rightarrow> ('t, 'v, 'f) table \<Rightarrow> (nat list \<times> injector \<times> ('t, 'v, 'f) table) option" where
  "drain = drain_bands []"

section \<open>Chains through the slots\<close>

abbreviation qlink :: "('t, 'v, 'f) table \<Rightarrow> nat \<Rightarrow> nat" where
  "qlink tb i \<equiv> queue_next (tb_mem tb i)"

fun chain :: "(nat \<Rightarrow> nat) \<Rightarrow> nat \<Rightarrow> nat list \<Rightarrow> bool" where
  "chain nxt e [] \<longleftrightarrow> e = 0"
| "chain nxt e (i # is) \<longleftrightarrow> e = Suc i \<and> chain nxt (nxt i) is"

lemma chain_cong: "(\<And>i. i \<in> set is \<Longrightarrow> nxt i = nxt' i) \<Longrightarrow> chain nxt e is = chain nxt' e is"
  by (induction "is" arbitrary: e) auto

lemma chain_zero [simp]: "chain nxt 0 is \<longleftrightarrow> is = []"
  by (cases "is") auto

lemma chain_Suc: "chain nxt (Suc i) is \<longleftrightarrow> (\<exists>r. is = i # r \<and> chain nxt (nxt i) r)"
  by (cases "is") auto

lemma chain_nonempty: "chain nxt e is \<Longrightarrow> is \<noteq> [] \<longleftrightarrow> e \<noteq> 0"
  by (cases "is") auto

text \<open>
  A task that is queued: in a mapped slot, live, and marked as being in a shared queue.
\<close>

definition queued :: "('t, 'v, 'f) table \<Rightarrow> nat \<Rightarrow> bool" where
  "queued tb i \<longleftrightarrow>
     slot_ok i tb \<and> td_state (tb_mem tb i) \<noteq> Free \<and> td_queued (tb_mem tb i) = QUEUED_SHARED"

lemma live_slot_simps:
  "live_slot i tb =
     (if slot_ok i tb \<and> td_state (tb_mem tb i) \<noteq> Free then Some (tb_mem tb i) else None)"
  by (simp add: live_slot_def slot_simps)

lemma queue_link_simps: "queue_link i tb = (if slot_ok i tb then Some (qlink tb i) else None)"
  by (simp add: queue_link_def slot_simps)

lemma queued_live: "queued tb i \<Longrightarrow> live_slot i tb = Some (tb_mem tb i)"
  by (simp add: live_slot_simps queued_def)

lemma queued_link: "queued tb i \<Longrightarrow> queue_link i tb = Some (qlink tb i)"
  by (simp add: queue_link_simps queued_def)

lemma slot_ok_fits: "slot_ok i tb \<Longrightarrow> Suc i < 2 ^ 32"
  by (rule id_plus_one_fits_u32) (simp add: slot_ok_def)

lemma queue_next_bound: "queue_next d < 2 ^ 48"
  using unat_u32_bound [of "td_queue_next d"] by (simp add: queue_next_def)

lemma queue_next_set [simp]: "n < 4294967296 \<Longrightarrow> queue_next (set_queue_next n d) = n"
  by (simp add: queue_next_def set_queue_next_def unat_of_nat)

lemma chain_put:
  "x \<notin> set is \<Longrightarrow> chain (\<lambda>i. queue_next (if i = x then d else m i)) e is = chain (\<lambda>i. queue_next (m i)) e is"
  by (rule chain_cong) auto

lemma chain_bound:
  "chain nxt e is \<Longrightarrow> (\<And>i. i \<in> set is \<Longrightarrow> slot_ok i tb) \<Longrightarrow> e < 2 ^ 32"
  using slot_ok_fits by (cases "is") fastforce+

section \<open>What an injector holds\<close>

text \<open>
  \<open>inj_inv ij tb rd nc\<close>: band \<open>b\<close> serves the ids \<open>rd b\<close>, oldest first, and has the
  ids \<open>nc b\<close> pushed on it, newest first. No id is there twice, every one is a queued
  task, no reversal is under way, and the count is the number of ids.
\<close>

definition band_ids :: "(nat \<Rightarrow> nat list) \<Rightarrow> (nat \<Rightarrow> nat list) \<Rightarrow> nat \<Rightarrow> nat list" where
  "band_ids rd nc b = rd b @ rev (nc b)"

definition separate :: "(nat \<Rightarrow> nat list) \<Rightarrow> bool" where
  "separate q \<longleftrightarrow>
     (\<forall>b. distinct (q b)) \<and> (\<forall>b b'. b \<noteq> b' \<longrightarrow> set (q b) \<inter> set (q b') = {}) \<and>
     (\<forall>b \<ge> PRIORITY_BANDS. q b = [])"

definition total :: "(nat \<Rightarrow> nat list) \<Rightarrow> nat" where
  "total q = (\<Sum>b < PRIORITY_BANDS. length (q b))"

definition inj_inv ::
  "injector \<Rightarrow> ('t, 'v, 'f) table \<Rightarrow> (nat \<Rightarrow> nat list) \<Rightarrow> (nat \<Rightarrow> nat list) \<Rightarrow> bool" where
  "inj_inv ij tb rd nc \<longleftrightarrow>
     (\<forall>b. chain (qlink tb) (head_index (in_ready ij b)) (rd b)) \<and>
     (\<forall>b. chain (qlink tb) (in_incoming ij b) (nc b)) \<and>
     separate (band_ids rd nc) \<and>
     (\<forall>b. \<forall>i \<in> set (band_ids rd nc b). queued tb i) \<and>
     (\<forall>b. \<not> in_flipping ij b) \<and>
     in_len ij = of_nat (total (band_ids rd nc))"

definition inj_rel :: "injector \<Rightarrow> ('t, 'v, 'f) table \<Rightarrow> (nat \<Rightarrow> nat list) \<Rightarrow> bool" where
  "inj_rel ij tb q \<longleftrightarrow> (\<exists>rd nc. inj_inv ij tb rd nc \<and> q = band_ids rd nc)"

lemma inj_relI: "inj_inv ij tb rd nc \<Longrightarrow> band_ids rd nc = q \<Longrightarrow> inj_rel ij tb q"
  by (auto simp: inj_rel_def)

lemma inj_rel_separate: "inj_rel ij tb q \<Longrightarrow> separate q"
  by (auto simp: inj_rel_def inj_inv_def)

lemma set_band_ids [simp]: "set (band_ids rd nc b) = set (rd b) \<union> set (nc b)"
  by (simp add: band_ids_def)

lemma inj_inv_queued: "inj_inv ij tb rd nc \<Longrightarrow> i \<in> set (rd b) \<union> set (nc b) \<Longrightarrow> queued tb i"
  by (auto simp: inj_inv_def)

lemma inj_invD:
  assumes "inj_inv ij tb rd nc"
  shows "chain (qlink tb) (head_index (in_ready ij b)) (rd b)"
    and "chain (qlink tb) (in_incoming ij b) (nc b)"
    and "separate (band_ids rd nc)" and "\<not> in_flipping ij b"
    and "in_len ij = of_nat (total (band_ids rd nc))"
  using assms by (simp_all add: inj_inv_def)

lemma separate_pop: "separate q \<Longrightarrow> q b = i # r \<Longrightarrow> separate (q(b := r))"
  unfolding separate_def
proof (intro conjI allI impI)
  fix b' assume a: "(\<forall>b. distinct (q b)) \<and> (\<forall>b b'. b \<noteq> b' \<longrightarrow> set (q b) \<inter> set (q b') = {}) \<and>
    (\<forall>b \<ge> PRIORITY_BANDS. q b = [])" and q: "q b = i # r"
  show "distinct ((q(b := r)) b')" using a q by (metis distinct.simps(2) fun_upd_apply)
  show "PRIORITY_BANDS \<le> b' \<Longrightarrow> (q(b := r)) b' = []" using a q by (metis fun_upd_apply list.distinct(1))
  fix b'' assume "b' \<noteq> b''"
  then have d: "set (q b') \<inter> set (q b'') = {}" using a by blast
  have "set r \<subseteq> set (q b)" using q by auto
  with d \<open>b' \<noteq> b''\<close> show "set ((q(b := r)) b') \<inter> set ((q(b := r)) b'') = {}" by (auto split: if_splits)
qed

lemma separate_push:
  "separate q \<Longrightarrow> (\<And>b. i \<notin> set (q b)) \<Longrightarrow> b < PRIORITY_BANDS \<Longrightarrow> separate (q(b := q b @ [i]))"
  by (auto simp: separate_def)

lemma separate_notin: "separate q \<Longrightarrow> i \<in> set (q b) \<Longrightarrow> b' \<noteq> b \<Longrightarrow> i \<notin> set (q b')"
  by (auto simp: separate_def)

lemma separate_band: "separate q \<Longrightarrow> i \<in> set (q b) \<Longrightarrow> b < PRIORITY_BANDS"
  by (metis empty_iff list.set(1) not_less separate_def)

lemma total_upd:
  "b < PRIORITY_BANDS \<Longrightarrow> total (q(b := xs)) + length (q b) = total q + length xs"
  by (simp add: total_def sum.remove [of _ b] sum.remove [of "{..<PRIORITY_BANDS}" b "\<lambda>b. length (q b)"])

text \<open>The ids are different slots of one table, so the count is exact.\<close>

lemma total_card: "separate q \<Longrightarrow> total q = card (\<Union>b < PRIORITY_BANDS. set (q b))"
  unfolding total_def separate_def by (subst card_UN_disjoint) (auto simp: distinct_card)

lemma total_bound:
  assumes "separate q" "\<And>b i. i \<in> set (q b) \<Longrightarrow> slot_ok i tb"
  shows "total q \<le> MAX_TASK_ID"
proof -
  have "(\<Union>b < PRIORITY_BANDS. set (q b)) \<subseteq> {..<MAX_TASK_ID}"
    using assms(2) by (auto simp: slot_ok_def)
  then have "card (\<Union>b < PRIORITY_BANDS. set (q b)) \<le> card {..<MAX_TASK_ID}"
    by (intro card_mono) auto
  with assms(1) show ?thesis by (simp add: total_card)
qed

lemma inj_rel_len: "inj_rel ij tb q \<Longrightarrow> unat (in_len ij) = total q"
proof -
  assume "inj_rel ij tb q"
  then obtain rd nc where I: "inj_inv ij tb rd nc" and q: "q = band_ids rd nc"
    by (auto simp: inj_rel_def)
  have "total q \<le> MAX_TASK_ID"
    unfolding q by (rule total_bound [where tb = tb])
      (use I in \<open>auto simp: inj_inv_def queued_def\<close>)
  then show ?thesis using inj_invD(5) [OF I] unfolding q by (simp add: unat_of_nat MAX_TASK_ID_val)
qed

lemma total_zero: "separate q \<Longrightarrow> total q = 0 \<longleftrightarrow> (\<forall>b. q b = [])"
  by (auto simp: total_def separate_def) (metis lessThan_iff not_less)

section \<open>Pushing\<close>

text \<open>What the rest of the runtime does to a slot leaves the queues be, if it keeps the links.\<close>

lemma inj_inv_frame:
  assumes "inj_inv ij tb rd nc"
    and "\<And>b i. i \<in> set (rd b) \<union> set (nc b) \<Longrightarrow> qlink tb' i = qlink tb i \<and> queued tb' i"
  shows "inj_inv ij tb' rd nc"
proof -
  have "chain (qlink tb') e (rd b) = chain (qlink tb) e (rd b)"
    "chain (qlink tb') e (nc b) = chain (qlink tb) e (nc b)" for e b
    using assms(2) by (auto intro!: chain_cong)
  with assms show ?thesis by (simp add: inj_inv_def)
qed

lemma inj_rel_frame:
  "inj_rel ij tb q \<Longrightarrow>
   (\<And>b i. i \<in> set (q b) \<Longrightarrow> qlink tb' i = qlink tb i \<and> queued tb' i) \<Longrightarrow> inj_rel ij tb' q"
  unfolding inj_rel_def by (fastforce intro: inj_inv_frame)

lemma band_ids_upd_nc: "band_ids rd (nc(b := i # nc b)) = (band_ids rd nc)(b := band_ids rd nc b @ [i])"
  by (rule ext) (simp add: band_ids_def)

lemma band_ids_upd_rd: "rd b = i # r \<Longrightarrow> band_ids (rd(b := r)) nc = (band_ids rd nc)(b := r @ rev (nc b))"
  by (rule ext) (simp add: band_ids_def)

lemma put_slot_mem [simp]: "tb_mem (put_slot i d tb) = (tb_mem tb)(i := d)"
  by (simp add: put_slot_def)

lemma slot_ok_put [simp]: "slot_ok j (put_slot i d tb) = slot_ok j tb"
  by (simp add: put_slot_def slot_ok_def)

lemma set_queue_next_frame [simp]:
  "td_state (set_queue_next n d) = td_state d" "td_queued (set_queue_next n d) = td_queued d"
  by (simp_all add: set_queue_next_def)

lemma mark_queued_frame [simp]:
  "td_state (mark_queued p d) = td_state d" "td_queued (mark_queued p d) = p"
  by (simp_all add: mark_queued_def)

lemma link_incoming_inv:
  assumes I: "inj_inv ij tb rd nc" and fresh: "\<And>b. i \<notin> set (band_ids rd nc b)"
    and b: "b < PRIORITY_BANDS" and live: "queued tb i"
    and res: "link_incoming b i ij tb = (ij', tb')"
  shows "inj_inv (ij'\<lparr>in_len := in_len ij' + 1\<rparr>) tb' rd (nc(b := i # nc b))"
proof -
  let ?tb = "put_slot i (set_queue_next (in_incoming ij b) (tb_mem tb i)) tb"
  have tb': "tb' = ?tb" and ij': "ij' = set_incoming b (Suc i) ij"
    using res by (auto simp: link_incoming_def)
  have bound: "in_incoming ij b < 2 ^ 32"
    by (rule chain_bound [OF inj_invD(2) [OF I], where tb = tb])
      (use inj_inv_queued [OF I] in \<open>auto simp: queued_def\<close>)
  have I': "inj_inv ij ?tb rd nc"
    by (rule inj_inv_frame [OF I]) (use fresh inj_inv_queued [OF I] in \<open>auto simp: queued_def\<close>)
  have q: "queued ?tb i" using live by (simp add: queued_def)
  have "separate (band_ids rd (nc(b := i # nc b)))"
    unfolding band_ids_upd_nc by (rule separate_push [OF inj_invD(3) [OF I] fresh b])
  moreover have "total (band_ids rd (nc(b := i # nc b))) = Suc (total (band_ids rd nc))"
    using total_upd [OF b, of "band_ids rd nc" "band_ids rd nc b @ [i]"] unfolding band_ids_upd_nc by simp
  ultimately show ?thesis
    using I' q bound unfolding tb' ij' by (auto simp: inj_inv_def set_incoming_def)
qed

lemma live_slotD:
  "live_slot i tb = Some d \<Longrightarrow> d = tb_mem tb i \<and> slot_ok i tb \<and> td_state (tb_mem tb i) \<noteq> Free"
  by (simp add: live_slot_simps split: if_splits)

lemma push_rel:
  assumes R: "inj_rel ij tb q" and fresh: "\<And>b. i \<notin> set (q b)"
    and live: "live_slot i tb = Some d"
  shows "\<exists>ij' tb'. push i ij tb = (True, ij', tb') \<and>
    inj_rel ij' tb' (q(min (band d) 3 := q (min (band d) 3) @ [i]))"
proof -
  obtain rd nc where I: "inj_inv ij tb rd nc" and q: "q = band_ids rd nc"
    using R by (auto simp: inj_rel_def)
  let ?b = "min (band d) 3" and ?tb = "put_slot i (mark_queued QUEUED_SHARED d) tb"
  obtain ij' tb' where res: "link_incoming ?b i ij ?tb = (ij', tb')" by fastforce
  have I1: "inj_inv ij ?tb rd nc"
    by (rule inj_inv_frame [OF I]) (use fresh q inj_inv_queued [OF I] in \<open>auto simp: queued_def\<close>)
  have "queued ?tb i" using live_slotD [OF live] by (simp add: queued_def)
  then have "inj_inv (ij'\<lparr>in_len := in_len ij' + 1\<rparr>) tb' rd (nc(?b := i # nc ?b))"
    by (intro link_incoming_inv [OF I1 _ _ _ res]) (use fresh q in \<open>auto simp: PRIORITY_BANDS_def\<close>)
  moreover have "link_incoming ?b i (ij\<lparr>in_len := in_len ij + 1\<rparr>) ?tb = (ij'\<lparr>in_len := in_len ij' + 1\<rparr>, tb')"
    using res by (auto simp: link_incoming_def set_incoming_def)
  ultimately show ?thesis
    using live unfolding q
    by (auto simp: push_def Let_def PRIORITY_BANDS_def inj_rel_def band_ids_upd_nc [symmetric])
qed

section \<open>Popping and reversing\<close>

lemma set_ready_simps [simp]:
  "in_ready (set_ready b h ij) = (in_ready ij)(b := h)"
  "in_incoming (set_ready b h ij) = in_incoming ij"
  "in_flipping (set_ready b h ij) = in_flipping ij"
  "in_len (set_ready b h ij) = in_len ij" "in_relief (set_ready b h ij) = in_relief ij"
  by (simp_all add: set_ready_def)

lemma count_out_simps [simp]:
  "in_ready (count_out ij) = in_ready ij" "in_incoming (count_out ij) = in_incoming ij"
  "in_flipping (count_out ij) = in_flipping ij" "in_len (count_out ij) = in_len ij - 1"
  "in_relief (count_out ij) = in_relief ij"
  by (simp_all add: count_out_def)

lemma pop_ready_nil: "head_index (in_ready ij b) = 0 \<Longrightarrow> pop_ready b ij tb = Some (None, ij)"
  by (subst pop_ready.simps) simp

lemma pop_ready_cons:
  assumes I: "inj_inv ij tb rd nc" and rd: "rd b = i # r"
  shows "\<exists>ij'. pop_ready b ij tb = Some (Some i, ij') \<and> in_relief ij' = in_relief ij \<and>
    inj_inv (count_out ij') tb (rd(b := r)) nc"
proof -
  let ?ij = "set_ready b (pack_head (head_tag (in_ready ij b) + 1) (qlink tb i)) ij"
  have idx: "head_index (in_ready ij b) = Suc i" and ch: "chain (qlink tb) (qlink tb i) r"
    using inj_invD(1) [OF I, of b] rd by simp_all
  have live: "queued tb i" using inj_inv_queued [OF I, of i b] rd by simp
  have pop: "pop_ready b ij tb = Some (Some i, ?ij)"
    by (subst pop_ready.simps) (simp add: idx queued_link [OF live] queued_live [OF live])
  have ids: "band_ids rd nc b = i # (r @ rev (nc b))" using rd by (simp add: band_ids_def)
  have b: "b < PRIORITY_BANDS" by (rule separate_band [OF inj_invD(3) [OF I], of i]) (simp add: rd)
  have "separate (band_ids (rd(b := r)) nc)"
    unfolding band_ids_upd_rd [where rd = rd, OF rd] by (rule separate_pop [OF inj_invD(3) [OF I] ids])
  moreover have "Suc (total (band_ids (rd(b := r)) nc)) = total (band_ids rd nc)"
    using total_upd [OF b, of "band_ids rd nc" "r @ rev (nc b)"] unfolding band_ids_upd_rd [where rd = rd, OF rd] ids
    by simp
  then have "in_len ij - 1 = of_nat (total (band_ids (rd(b := r)) nc))"
    unfolding inj_invD(5) [OF I] by (metis add_diff_cancel_left' of_nat_Suc)
  moreover have "queued tb j" if "j \<in> set ((rd(b := r)) b') \<union> set (nc b')" for j b'
    using that inj_inv_queued [OF I, of j b'] rd by (auto split: if_splits)
  moreover have "head_index (pack_head t (qlink tb i)) = qlink tb i" for t
    by (rule head_index_pack [OF queue_next_bound])
  ultimately have "inj_inv (count_out ?ij) tb (rd(b := r)) nc"
    using I ch by (auto simp: inj_inv_def)
  with pop show ?thesis by auto
qed

lemma set_queue_link_eq:
  "slot_ok i tb \<Longrightarrow> set_queue_link i n tb = put_slot i (set_queue_next n (tb_mem tb i)) tb"
  by (simp add: set_queue_link_def slot_simps)

text \<open>A reversal ends, turns the chain round, and touches only the links of what is on it.\<close>

definition relinked :: "nat set \<Rightarrow> ('t, 'v, 'f) table \<Rightarrow> ('t, 'v, 'f) table \<Rightarrow> bool" where
  "relinked S tb tb' \<longleftrightarrow>
     (\<exists>f. (\<forall>i. i \<notin> S \<longrightarrow> f i = td_queue_next (tb_mem tb i)) \<and>
          tb' = tb\<lparr>tb_mem := (\<lambda>i. (tb_mem tb i)\<lparr>td_queue_next := f i\<rparr>)\<rparr>)"

lemma relinked_refl: "relinked S tb tb"
  by (auto simp: relinked_def intro!: exI [of _ "\<lambda>i. td_queue_next (tb_mem tb i)"])

lemma relinked_put:
  "relinked S (put_slot i (set_queue_next n (tb_mem tb i)) tb) tb' \<Longrightarrow> relinked (insert i S) tb tb'"
proof -
  assume "relinked S (put_slot i (set_queue_next n (tb_mem tb i)) tb) tb'"
  then obtain f where f: "\<forall>j. j \<notin> S \<longrightarrow> f j = td_queue_next (((tb_mem tb)(i := set_queue_next n (tb_mem tb i))) j)"
    and tb': "tb' = tb\<lparr>tb_mem := (\<lambda>j. (((tb_mem tb)(i := set_queue_next n (tb_mem tb i))) j)\<lparr>td_queue_next := f j\<rparr>)\<rparr>"
    by (simp only: relinked_def put_slot_def) auto
  have "\<forall>j. j \<notin> insert i S \<longrightarrow> f j = td_queue_next (tb_mem tb j)" using f by auto
  moreover have "(\<lambda>j. (((tb_mem tb)(i := set_queue_next n (tb_mem tb i))) j)\<lparr>td_queue_next := f j\<rparr>)
    = (\<lambda>j. (tb_mem tb j)\<lparr>td_queue_next := f j\<rparr>)" by (auto simp: set_queue_next_def)
  ultimately show ?thesis unfolding tb' relinked_def by auto
qed

lemma relinked_queued: "relinked S tb tb' \<Longrightarrow> queued tb' i = queued tb i"
  by (auto simp: relinked_def queued_def slot_ok_def)

lemma relinked_link: "relinked S tb tb' \<Longrightarrow> i \<notin> S \<Longrightarrow> qlink tb' i = qlink tb i"
  by (auto simp: relinked_def queue_next_def)

lemma flip_loop_rev:
  assumes "chain (qlink tb) cursor xs" "chain (qlink tb) reversed ys"
    and "distinct (xs @ ys)" and "\<And>i. i \<in> set (xs @ ys) \<Longrightarrow> slot_ok i tb"
  shows "\<exists>r tb'. flip_loop cursor reversed tb = Some (r, tb') \<and>
    chain (qlink tb') r (rev xs @ ys) \<and> relinked (set xs) tb tb'"
  using assms
proof (induction xs arbitrary: cursor reversed ys tb)
  case Nil
  then show ?case by (subst flip_loop.simps) (simp add: relinked_refl)
next
  case (Cons x xs)
  let ?tb = "put_slot x (set_queue_next reversed (tb_mem tb x)) tb"
  have ok: "slot_ok x tb" and cur: "cursor = Suc x" and ch: "chain (qlink tb) (qlink tb x) xs"
    using Cons.prems by simp_all
  have "reversed < 2 ^ 32" by (rule chain_bound [OF Cons.prems(2), of tb]) (use Cons.prems in auto)
  then have "chain (qlink ?tb) cursor (x # ys)" "chain (qlink ?tb) (qlink tb x) xs"
    using Cons.prems ch by (auto simp: cur chain_put)
  moreover have "distinct (xs @ x # ys)" using Cons.prems(3) by auto
  moreover have "slot_ok i ?tb" if "i \<in> set (xs @ x # ys)" for i
    using Cons.prems(4) that by (auto simp: slot_ok_def put_slot_def)
  ultimately obtain r tb' where IH: "flip_loop (qlink tb x) cursor ?tb = Some (r, tb')"
    "chain (qlink tb') r (rev xs @ x # ys)" "relinked (set xs) ?tb tb'"
    using Cons.IH [of ?tb "qlink tb x" cursor "x # ys"] by auto
  have "flip_loop cursor reversed tb = Some (r, tb')"
    by (subst flip_loop.simps) (simp add: cur queue_link_simps ok set_queue_link_eq flip: IH(1))
  with IH relinked_put show ?case by fastforce
qed

section \<open>Taking from a band\<close>

lemma set_flipping_simps [simp]:
  "in_ready (set_flipping b f ij) = in_ready ij" "in_incoming (set_flipping b f ij) = in_incoming ij"
  "in_flipping (set_flipping b f ij) = (in_flipping ij)(b := f)"
  "in_len (set_flipping b f ij) = in_len ij" "in_relief (set_flipping b f ij) = in_relief ij"
  by (simp_all add: set_flipping_def)

lemma set_incoming_simps [simp]:
  "in_ready (set_incoming b e ij) = in_ready ij"
  "in_incoming (set_incoming b e ij) = (in_incoming ij)(b := e)"
  "in_flipping (set_incoming b e ij) = in_flipping ij"
  "in_len (set_incoming b e ij) = in_len ij" "in_relief (set_incoming b e ij) = in_relief ij"
  by (simp_all add: set_incoming_def)

lemma inj_inv_flipped:
  assumes I: "inj_inv ij tb rd nc" and rd: "rd b = []" and rel: "relinked (set (nc b)) tb tb'"
    and ch: "chain (qlink tb') r (rev (nc b))" and h: "head_index h = r"
    and ij': "ij' = set_flipping b False (set_ready b h (set_incoming b 0 (set_flipping b True ij)))"
  shows "inj_inv ij' tb' (rd(b := rev (nc b))) (nc(b := []))"
proof -
  have ids: "band_ids (rd(b := rev (nc b))) (nc(b := [])) = band_ids rd nc"
    by (rule ext) (simp add: band_ids_def rd)
  have other: "qlink tb' i = qlink tb i" if "i \<in> set (rd b') \<union> set (nc b')" "b' \<noteq> b" for i b'
    using separate_notin [OF inj_invD(3) [OF I], of i b' b] that
    by (intro relinked_link [OF rel]) auto
  have "chain (qlink tb') e (rd b') = chain (qlink tb) e (rd b')"
    "chain (qlink tb') e (nc b') = chain (qlink tb) e (nc b')" if "b' \<noteq> b" for e b'
    using other that by (auto intro!: chain_cong)
  then show ?thesis
    using I ch h unfolding inj_inv_def ids ij' by (auto simp: relinked_queued [OF rel])
qed

text \<open>A reversal leaves the same queues, and something to serve if there was anything.\<close>

lemma flip_inv:
  assumes I: "inj_inv ij tb rd nc"
  shows "\<exists>again ij' tb' rd' nc'. flip b ij tb = Some (again, ij', tb') \<and>
    inj_inv ij' tb' rd' nc' \<and> band_ids rd' nc' = band_ids rd nc \<and> in_relief ij' = in_relief ij \<and>
    (again \<longleftrightarrow> band_ids rd nc b \<noteq> []) \<and> (rd' b = [] \<longrightarrow> nc' b = []) \<and>
    (\<forall>b'. b' \<noteq> b \<longrightarrow> rd' b' = rd b' \<and> nc' b' = nc b') \<and> (rd b \<noteq> [] \<longrightarrow> rd' b = rd b) \<and>
    relinked (set (nc b)) tb tb'"
proof (cases "rd b")
  case (Cons x xs)
  have "set_flipping b False (set_flipping b True ij) = ij"
    using inj_invD(4) [OF I, of b] by (simp add: set_flipping_def fun_upd_idem)
  then have "flip b ij tb = Some (True, ij, tb)"
    using inj_invD(1,4) [OF I, of b] Cons by (simp add: flip_def)
  then show ?thesis using I Cons relinked_refl by (fastforce simp: band_ids_def)
next
  case Nil
  have h0: "head_index (in_ready ij b) = 0" using inj_invD(1) [OF I, of b] Nil by simp
  show ?thesis
  proof (cases "nc b")
    case Nil': Nil
    have "set_flipping b False (set_incoming b 0 (set_flipping b True ij)) = ij"
      using inj_invD(2,4) [OF I, of b] Nil'
      by (simp add: set_flipping_def set_incoming_def fun_upd_idem)
    then have "flip b ij tb = Some (False, ij, tb)"
      using inj_invD(2,4) [OF I, of b] Nil' h0 by (simp add: flip_def Let_def)
    then show ?thesis using I Nil Nil' relinked_refl by (fastforce simp: band_ids_def)
  next
    case Cons
    have ok: "slot_ok i tb" if "i \<in> set (nc b)" for i
      using inj_inv_queued [OF I, of i b] that by (auto simp: queued_def)
    have "distinct (band_ids rd nc b)" using inj_invD(3) [OF I] by (simp add: separate_def)
    then have d: "distinct (nc b @ [])" by (auto simp: band_ids_def)
    obtain r tb' where loop: "flip_loop (in_incoming ij b) 0 tb = Some (r, tb')"
      and ch: "chain (qlink tb') r (rev (nc b))" and rel: "relinked (set (nc b)) tb tb'"
      using flip_loop_rev [OF inj_invD(2) [OF I], of 0 "[]" b] d ok by auto
    have "r < 2 ^ 32"
      by (rule chain_bound [OF ch, of tb]) (use ok in auto)
    then have hi: "head_index (pack_head t r) = r" for t by (intro head_index_pack) simp
    have nz: "in_incoming ij b \<noteq> 0" "r \<noteq> 0"
      using inj_invD(2) [OF I, of b] ch Cons chain_nonempty by fastforce+
    let ?ij = "set_flipping b False (set_ready b (pack_head (head_tag (in_ready ij b) + 1) r)
      (set_incoming b 0 (set_flipping b True ij)))"
    have "flip b ij tb = Some (True, ?ij, tb')"
      using inj_invD(4) [OF I, of b] h0 nz loop by (simp add: flip_def Let_def)
    moreover have "inj_inv ?ij tb' (rd(b := rev (nc b))) (nc(b := []))"
      by (rule inj_inv_flipped [OF I Nil rel ch hi refl])
    moreover have "band_ids (rd(b := rev (nc b))) (nc(b := [])) = band_ids rd nc"
      by (rule ext) (simp add: band_ids_def Nil)
    ultimately show ?thesis using Cons Nil rel
      by (intro exI [of _ True] exI [of _ ?ij] exI [of _ tb'] exI [of _ "rd(b := rev (nc b))"]
        exI [of _ "nc(b := [])"]) (simp add: band_ids_def)
  qed
qed

text \<open>Taking from a band gives the oldest of its queue, which is then no longer queued.\<close>

lemma next_of_none:
  assumes I: "inj_inv ij tb rd nc" and e: "band_ids rd nc b = []"
  shows "\<exists>ij' tb' rd' nc'. next_of b ij tb = Some (None, ij', tb') \<and> inj_inv ij' tb' rd' nc' \<and>
    band_ids rd' nc' = band_ids rd nc \<and> in_relief ij' = in_relief ij"
proof -
  have "rd b = []" using e by (simp add: band_ids_def)
  then have "pop_ready b ij tb = Some (None, ij)"
    using inj_invD(1) [OF I, of b] by (intro pop_ready_nil) simp
  with flip_inv [OF I, of b] e show ?thesis by (fastforce simp: next_of_def)
qed

lemma next_of_some:
  assumes I: "inj_inv ij tb rd nc" and e: "band_ids rd nc b = i # r"
  shows "\<exists>ij' tb' rd' nc'. next_of b ij tb = Some (Some i, ij', tb') \<and>
    inj_inv (count_out ij') tb' rd' nc' \<and> band_ids rd' nc' = (band_ids rd nc)(b := r) \<and>
    in_relief ij' = in_relief ij \<and> queued tb' i \<and> relinked (set (nc b)) tb tb'"
proof (cases "rd b")
  case (Cons x xs)
  with e have x: "x = i" "r = xs @ rev (nc b)" by (auto simp: band_ids_def)
  obtain ij' where "pop_ready b ij tb = Some (Some i, ij')" "in_relief ij' = in_relief ij"
    "inj_inv (count_out ij') tb (rd(b := xs)) nc"
    using pop_ready_cons [OF I Cons] x by auto
  moreover have "queued tb i" using inj_inv_queued [OF I, of i b] Cons x by simp
  ultimately show ?thesis
    using band_ids_upd_rd [where rd = rd, OF Cons, of nc] x relinked_refl
    by (fastforce simp: next_of_def)
next
  case Nil
  then have p0: "pop_ready b ij tb = Some (None, ij)"
    using inj_invD(1) [OF I, of b] by (intro pop_ready_nil) simp
  obtain ij1 tb1 rd1 nc1 where f: "flip b ij tb = Some (True, ij1, tb1)"
    and I1: "inj_inv ij1 tb1 rd1 nc1" and ids: "band_ids rd1 nc1 = band_ids rd nc"
    and rel: "in_relief ij1 = in_relief ij" and ne: "rd1 b = [] \<longrightarrow> nc1 b = []"
    and link: "relinked (set (nc b)) tb tb1"
    using flip_inv [OF I, of b] e by fastforce
  have "band_ids rd1 nc1 b = i # r" using ids e by simp
  with ne obtain xs where c: "rd1 b = i # xs" and r: "r = xs @ rev (nc1 b)"
    by (cases "rd1 b") (auto simp: band_ids_def)
  obtain ij' where "pop_ready b ij1 tb1 = Some (Some i, ij')" "in_relief ij' = in_relief ij1"
    "inj_inv (count_out ij') tb1 (rd1(b := xs)) nc1"
    using pop_ready_cons [OF I1 c] by auto
  moreover have "queued tb1 i" using inj_inv_queued [OF I1, of i b] c by simp
  ultimately show ?thesis
    using band_ids_upd_rd [where rd = rd1, OF c, of nc1] p0 f ids r rel link
    by (fastforce simp: next_of_def)
qed

lemma claim_queued_hit: "td_queued d = p \<Longrightarrow> claim_queued p d = (True, mark_queued QUEUED_NOWHERE d)"
  by (simp add: claim_queued_def mark_queued_def)

lemma take_from_none:
  assumes "inj_rel ij tb q" "q b = []"
  shows "\<exists>ij' tb'. take_from b ij tb = Some (None, ij', tb') \<and> inj_rel ij' tb' q \<and>
    in_relief ij' = in_relief ij"
proof -
  obtain rd nc where I: "inj_inv ij tb rd nc" and q: "q = band_ids rd nc"
    using assms(1) by (auto simp: inj_rel_def)
  obtain ij' tb' rd' nc' where "next_of b ij tb = Some (None, ij', tb')" "inj_inv ij' tb' rd' nc'"
    "band_ids rd' nc' = band_ids rd nc" "in_relief ij' = in_relief ij"
    using next_of_none [OF I, of b] assms(2) q by auto
  then show ?thesis by (subst take_from.simps) (auto simp: q intro: inj_relI)
qed

lemma take_from_some:
  assumes "inj_rel ij tb q" "q b = i # r"
  shows "\<exists>ij' tb'. take_from b ij tb = Some (Some i, ij', tb') \<and> inj_rel ij' tb' (q(b := r)) \<and>
    in_relief ij' = in_relief ij \<and> td_queued (tb_mem tb' i) = QUEUED_NOWHERE"
proof -
  obtain rd nc where I: "inj_inv ij tb rd nc" and q: "q = band_ids rd nc"
    using assms(1) by (auto simp: inj_rel_def)
  obtain ij1 tb1 rd1 nc1 where n: "next_of b ij tb = Some (Some i, ij1, tb1)"
    and I1: "inj_inv (count_out ij1) tb1 rd1 nc1" and ids: "band_ids rd1 nc1 = q(b := r)"
    and rel: "in_relief ij1 = in_relief ij" and live: "queued tb1 i"
    using next_of_some [OF I, of b i r] assms(2) q by auto
  let ?tb = "put_slot i (mark_queued QUEUED_NOWHERE (tb_mem tb1 i)) tb1"
  have "take_from b ij tb = Some (Some i, count_out ij1, ?tb)"
    using live by (subst take_from.simps) (simp add: n queued_live claim_queued_hit queued_def)
  moreover have "i \<notin> set (rd1 b') \<union> set (nc1 b')" for b'
  proof -
    have sep: "separate q" using inj_invD(3) [OF I] q by simp
    then have "i \<notin> set ((q(b := r)) b')"
      using assms(2) separate_notin [OF sep, of i b b'] by (auto simp: separate_def) (metis distinct.simps(2))
    then show ?thesis using set_band_ids [of rd1 nc1 b'] unfolding ids by simp
  qed
  then have "inj_inv (count_out ij1) ?tb rd1 nc1"
    using inj_inv_queued [OF I1] by (intro inj_inv_frame [OF I1]) (auto simp: queued_def)
  ultimately show ?thesis using ids rel by (auto intro: inj_relI)
qed

section \<open>The order of service\<close>

text \<open>What a bank of queues does: the front of the highest band with anything in it goes first.\<close>

definition highest :: "nat list \<Rightarrow> (nat \<Rightarrow> nat list) \<Rightarrow> nat option" where
  "highest bs q = find (\<lambda>b. q b \<noteq> []) bs"

lemma pop_bands_rel:
  assumes "inj_rel ij tb q"
  shows "case highest bs q of
      None \<Rightarrow> \<exists>ij' tb'. pop_bands bs ij tb = Some (None, ij', tb') \<and> inj_rel ij' tb' q
    | Some b \<Rightarrow> \<exists>ij' tb'. pop_bands bs ij tb = Some (Some (hd (q b), b), ij', tb') \<and>
        inj_rel ij' tb' (q(b := tl (q b))) \<and> td_queued (tb_mem tb' (hd (q b))) = QUEUED_NOWHERE"
  using assms
proof (induction bs arbitrary: ij tb)
  case Nil
  then show ?case by (simp add: highest_def)
next
  case (Cons b bs)
  show ?case
  proof (cases "q b")
    case Nil
    obtain ij1 tb1 where "take_from b ij tb = Some (None, ij1, tb1)" and R: "inj_rel ij1 tb1 q"
      using take_from_none [OF Cons.prems Nil] by auto
    with Cons.IH [OF R] Nil show ?thesis by (simp add: highest_def split: option.splits)
  next
    case C: (Cons i r)
    obtain ij1 tb1 where "take_from b ij tb = Some (Some i, ij1, tb1)" "inj_rel ij1 tb1 (q(b := r))"
      "td_queued (tb_mem tb1 i) = QUEUED_NOWHERE"
      using take_from_some [OF Cons.prems C] by auto
    with C show ?thesis by (simp add: highest_def)
  qed
qed

lemma spend_relief_rel [simp]: "inj_rel (spend_relief ij) tb q = inj_rel ij tb q"
  by (simp add: inj_rel_def inj_inv_def spend_relief_def)

lemma set_starving_rel [simp]: "inj_rel (set_starving s ij) tb q = inj_rel ij tb q"
  by (simp add: inj_rel_def inj_inv_def set_starving_def)

lemma unat_spend_relief: "unat (in_relief (spend_relief ij)) = unat (in_relief ij) - 1"
  by (simp add: spend_relief_def word_cases_sub_one)

subsection \<open>Relief\<close>

abbreviation stamp :: "('t, 'v, 'f) table \<Rightarrow> nat \<Rightarrow> u64" where
  "stamp tb i \<equiv> priority_sequence (tb_mem tb i)"

lemma oldest_loop_head:
  assumes I: "inj_inv ij tb rd nc"
  shows "oldest_loop (b # bs) best ij tb =
    (case rd b of
       [] \<Rightarrow> oldest_loop bs best ij tb
     | i # _ \<Rightarrow>
         if (case best of None \<Rightarrow> True | Some (_, _, s) \<Rightarrow> stamp tb i < s)
         then oldest_loop bs (Some (b, i, stamp tb i)) ij tb else oldest_loop bs best ij tb)"
proof (cases "rd b")
  case Nil
  then show ?thesis using inj_invD(1) [OF I, of b] by simp
next
  case (Cons i r)
  then have "head_index (in_ready ij b) = Suc i" "queued tb i"
    using inj_invD(1) [OF I, of b] inj_inv_queued [OF I, of i b] by simp_all
  with Cons show ?thesis by (simp add: queued_live Let_def)
qed

lemma oldest_loop_none:
  assumes I: "inj_inv ij tb rd nc"
  shows "oldest_loop bs best ij tb = None \<Longrightarrow> best = None \<and> (\<forall>b \<in> set bs. rd b = [])"
proof (induction bs arbitrary: best)
  case Nil
  then show ?case by simp
next
  case (Cons b bs)
  show ?case
  proof (cases "rd b")
    case Nil
    then have "oldest_loop bs best ij tb = None"
      using Cons.prems by (simp add: oldest_loop_head [OF I] del: oldest_loop.simps(2))
    from Cons.IH [OF this] Nil show ?thesis by simp
  next
    case (Cons j r)
    then have "oldest_loop bs (Some (b, j, stamp tb j)) ij tb = None \<or>
        best \<noteq> None \<and> oldest_loop bs best ij tb = None"
      using Cons.prems by (cases best) (simp_all add: oldest_loop_head [OF I] del: oldest_loop.simps(2) split: if_splits)
    with Cons.IH [of best] Cons.IH [of "Some (b, j, stamp tb j)"] show ?thesis by (elim disjE) simp_all
  qed
qed

lemma oldest_loop_some:
  assumes I: "inj_inv ij tb rd nc" and "oldest_loop bs best ij tb = Some (b, i, s)"
    and "\<And>x. best = Some x \<Longrightarrow> P x" and "\<And>b i r. rd b = i # r \<Longrightarrow> P (b, i, stamp tb i)"
  shows "P (b, i, s) \<and> (\<forall>b' j r. b' \<in> set bs \<longrightarrow> rd b' = j # r \<longrightarrow> s \<le> stamp tb j) \<and>
    (\<forall>b' j t. best = Some (b', j, t) \<longrightarrow> s \<le> t)"
  using assms(2,3)
proof (induction bs arbitrary: best)
  case Nil
  then show ?case by auto
next
  case (Cons c bs)
  show ?case
  proof (cases "rd c")
    case Nil
    then have "oldest_loop bs best ij tb = Some (b, i, s)"
      using Cons.prems(1) by (simp add: oldest_loop_head [OF I] del: oldest_loop.simps(2))
    from Cons.IH [OF this Cons.prems(2)] Nil show ?thesis by auto
  next
    case C: (Cons j r)
    show ?thesis
    proof (cases "case best of None \<Rightarrow> True | Some (_, _, s) \<Rightarrow> stamp tb j < s")
      case True
      then have "oldest_loop bs (Some (c, j, stamp tb j)) ij tb = Some (b, i, s)"
        using Cons.prems(1) C by (simp add: oldest_loop_head [OF I] del: oldest_loop.simps(2))
      from Cons.IH [OF this] assms(4) [OF C] True C show ?thesis
        by (fastforce split: option.splits)
    next
      case False
      then have "oldest_loop bs best ij tb = Some (b, i, s)"
        using Cons.prems(1) C by (simp add: oldest_loop_head [OF I] del: oldest_loop.simps(2))
      from Cons.IH [OF this] Cons.prems(2) False C show ?thesis
        by (fastforce split: option.splits)
    qed
  qed
qed

lemma oldest_band_some:
  assumes I: "inj_inv ij tb rd nc" and o: "oldest_band ij tb = Some b"
  shows "\<exists>i r. rd b = i # r \<and> (\<forall>b' j r'. rd b' = j # r' \<longrightarrow> stamp tb i \<le> stamp tb j)"
proof -
  obtain i s where l: "oldest_loop [0..<PRIORITY_BANDS] None ij tb = Some (b, i, s)"
    using o by (auto simp: oldest_band_def oldest_def)
  have top: "b' \<in> set [0..<PRIORITY_BANDS]" if "rd b' = j # r'" for b' j r'
    using separate_band [OF inj_invD(3) [OF I], of j b'] that by simp
  have "(case (b, i, s) of (b, i, s) \<Rightarrow> (\<exists>r. rd b = i # r) \<and> s = stamp tb i) \<and>
      (\<forall>b' j r. b' \<in> set [0..<PRIORITY_BANDS] \<longrightarrow> rd b' = j # r \<longrightarrow> s \<le> stamp tb j) \<and>
      (\<forall>b' j t. (None :: (nat \<times> nat \<times> u64) option) = Some (b', j, t) \<longrightarrow> s \<le> t)"
    by (rule oldest_loop_some [OF I l]) simp_all
  then obtain r where "rd b = i # r" and s: "s = stamp tb i"
    and "\<forall>b' j r. b' \<in> set [0..<PRIORITY_BANDS] \<longrightarrow> rd b' = j # r \<longrightarrow> s \<le> stamp tb j"
    unfolding prod.case by blast
  with top show ?thesis unfolding s by blast
qed

lemma oldest_band_none:
  assumes I: "inj_inv ij tb rd nc" and o: "oldest_band ij tb = None"
  shows "rd b = []"
proof (rule ccontr)
  assume "rd b \<noteq> []"
  then obtain j r where r: "rd b = j # r" by (cases "rd b") auto
  have "b < PRIORITY_BANDS" using separate_band [OF inj_invD(3) [OF I], of j b] r by simp
  moreover have "oldest_loop [0..<PRIORITY_BANDS] None ij tb = None"
    using o by (simp add: oldest_band_def oldest_def)
  ultimately show False using oldest_loop_none [OF I] r by fastforce
qed

lemma highest_none: "separate q \<Longrightarrow> highest (rev [0..<PRIORITY_BANDS]) q = None \<longleftrightarrow> (\<forall>b. q b = [])"
  unfolding highest_def find_None_iff separate_def by (auto simp: not_less [symmetric])

lemma highest_some: "highest bs q = Some b \<Longrightarrow> \<exists>i r. q b = i # r"
  by (auto simp: highest_def find_Some_iff neq_Nil_conv)

text \<open>Relief or not, a pop serves the front of one band, and only finds nothing when there is nothing.\<close>

lemma pop_banded_empty:
  assumes R: "inj_rel ij tb q" and e: "\<And>b. q b = []"
  shows "\<exists>ij' tb'. pop_banded ij tb = Some (None, ij', tb') \<and> inj_rel ij' tb' q"
proof -
  obtain rd nc where I: "inj_inv ij tb rd nc" and q: "q = band_ids rd nc"
    using R by (auto simp: inj_rel_def)
  have "rd b = []" for b using e [of b] q by (simp add: band_ids_def)
  then have "oldest_band ij tb = None" using oldest_band_some [OF I] by (metis list.distinct(1) not_None_eq)
  moreover have "highest (rev [0..<PRIORITY_BANDS]) q = None"
    using highest_none [OF inj_rel_separate [OF R]] e by simp
  ultimately show ?thesis using pop_bands_rel [OF R, of "rev [0..<PRIORITY_BANDS]"]
    by (auto simp: pop_banded_def Let_def)
qed

lemma pop_banded_highest:
  assumes R: "inj_rel ij tb q" and h: "highest (rev [0..<PRIORITY_BANDS]) q = Some b"
    and n: "in_relief ij = 0 \<or> oldest_band ij tb = None"
  shows "\<exists>ij' tb'. pop_banded ij tb = Some (Some (hd (q b), b), ij', tb') \<and>
    inj_rel ij' tb' (q(b := tl (q b))) \<and> td_queued (tb_mem tb' (hd (q b))) = QUEUED_NOWHERE"
  using pop_bands_rel [OF R, of "rev [0..<PRIORITY_BANDS]"] h n by (auto simp: pop_banded_def Let_def)

lemma pop_banded_relief:
  assumes R: "inj_rel ij tb q" and o: "oldest_band ij tb = Some b" and n: "in_relief ij \<noteq> 0"
  shows "\<exists>i r ij' tb'. q b = i # r \<and> pop_banded ij tb = Some (Some (i, b), ij', tb') \<and>
    inj_rel ij' tb' (q(b := r)) \<and> td_queued (tb_mem tb' i) = QUEUED_NOWHERE \<and>
    unat (in_relief ij') = unat (in_relief ij) - 1"
proof -
  obtain rd nc where I: "inj_inv ij tb rd nc" and q: "q = band_ids rd nc"
    using R by (auto simp: inj_rel_def)
  from oldest_band_some [OF I o] obtain i r where "rd b = i # r" by blast
  then obtain r' where r': "q b = i # r'" by (simp add: q band_ids_def)
  obtain ij' tb' where t: "take_from b ij tb = Some (Some i, ij', tb')" "inj_rel ij' tb' (q(b := r'))"
    "in_relief ij' = in_relief ij" "td_queued (tb_mem tb' i) = QUEUED_NOWHERE"
    using take_from_some [OF R r'] by auto
  have "pop_banded ij tb = Some (Some (i, b), spend_relief ij', tb')"
    using t(1) o n by (simp add: pop_banded_def Let_def)
  with r' t show ?thesis
    by (intro exI [of _ i] exI [of _ r'] exI [of _ "spend_relief ij'"] exI [of _ tb'])
      (simp add: unat_spend_relief)
qed

lemma pop_banded_rel:
  assumes R: "inj_rel ij tb q"
  shows "\<exists>got ij' tb'. pop_banded ij tb = Some (got, ij', tb') \<and>
    (case got of
       None \<Rightarrow> (\<forall>b. q b = []) \<and> inj_rel ij' tb' q
     | Some (i, b) \<Rightarrow> \<exists>r. q b = i # r \<and> inj_rel ij' tb' (q(b := r)) \<and>
         td_queued (tb_mem tb' i) = QUEUED_NOWHERE)"
proof (cases "\<forall>b. q b = []")
  case True
  then obtain ij' tb' where "pop_banded ij tb = Some (None, ij', tb')" "inj_rel ij' tb' q"
    using pop_banded_empty [OF R] by auto
  with True show ?thesis by auto
next
  case False
  then obtain b where h: "highest (rev [0..<PRIORITY_BANDS]) q = Some b"
    using highest_none [OF inj_rel_separate [OF R]] by (cases "highest (rev [0..<PRIORITY_BANDS]) q") auto
  show ?thesis
  proof (cases "in_relief ij = 0 \<or> oldest_band ij tb = None")
    case True
    obtain i r where q: "q b = i # r" using highest_some [OF h] by blast
    obtain ij' tb' where "pop_banded ij tb = Some (Some (i, b), ij', tb')"
      "inj_rel ij' tb' (q(b := r))" "td_queued (tb_mem tb' i) = QUEUED_NOWHERE"
      using pop_banded_highest [OF R h True] q by auto
    with q show ?thesis by auto
  next
    case False
    then obtain c where c: "oldest_band ij tb = Some c" and n: "in_relief ij \<noteq> 0" by auto
    from pop_banded_relief [OF R c n] obtain i r ij' tb' where
      "pop_banded ij tb = Some (Some (i, c), ij', tb')" "q c = i # r"
      "inj_rel ij' tb' (q(c := r))" "td_queued (tb_mem tb' i) = QUEUED_NOWHERE" by blast
    then show ?thesis by auto
  qed
qed

section \<open>Refilling, promotion and draining\<close>

lemma relinked_trans: "relinked S a b \<Longrightarrow> relinked T b c \<Longrightarrow> relinked (S \<union> T) a c"
proof -
  assume "relinked S a b" "relinked T b c"
  then obtain f g where f: "\<forall>i. i \<notin> S \<longrightarrow> f i = td_queue_next (tb_mem a i)"
    "b = a\<lparr>tb_mem := (\<lambda>i. (tb_mem a i)\<lparr>td_queue_next := f i\<rparr>)\<rparr>"
    and g: "\<forall>i. i \<notin> T \<longrightarrow> g i = td_queue_next (tb_mem b i)"
    "c = b\<lparr>tb_mem := (\<lambda>i. (tb_mem b i)\<lparr>td_queue_next := g i\<rparr>)\<rparr>"
    by (auto simp: relinked_def)
  then show ?thesis by (auto simp: relinked_def intro!: exI [of _ g])
qed

lemma relinked_stamp: "relinked S tb tb' \<Longrightarrow> stamp tb' i = stamp tb i"
  by (auto simp: relinked_def priority_sequence_def)

lemma refill_bands_inv:
  assumes "inj_inv ij tb rd nc"
  shows "\<exists>ij' tb' rd' nc' S. refill_bands bs ij tb = Some (ij', tb') \<and> inj_inv ij' tb' rd' nc' \<and>
    band_ids rd' nc' = band_ids rd nc \<and> in_relief ij' = in_relief ij \<and> relinked S tb tb' \<and>
    (\<forall>b. b \<in> set bs \<or> rd b \<noteq> [] \<or> nc b = [] \<longrightarrow> rd' b \<noteq> [] \<or> nc' b = [])"
  using assms
proof (induction bs arbitrary: ij tb rd nc)
  case Nil
  show ?case
    by (rule exI [of _ ij], rule exI [of _ tb], rule exI [of _ rd], rule exI [of _ nc],
      rule exI [of _ "{}"]) (simp add: Nil relinked_refl)
next
  case (Cons b bs)
  obtain again ij1 tb1 rd1 nc1 where f: "flip b ij tb = Some (again, ij1, tb1)"
    and I1: "inj_inv ij1 tb1 rd1 nc1" and same: "band_ids rd1 nc1 = band_ids rd nc"
    "in_relief ij1 = in_relief ij" and b: "rd1 b = [] \<longrightarrow> nc1 b = []"
    and other: "\<forall>b'. b' \<noteq> b \<longrightarrow> rd1 b' = rd b' \<and> nc1 b' = nc b'"
    and link: "relinked (set (nc b)) tb tb1"
    using flip_inv [OF Cons.prems, of b] by blast
  obtain ij' tb' rd' nc' S where r: "refill_bands bs ij1 tb1 = Some (ij', tb')"
    "inj_inv ij' tb' rd' nc'" "band_ids rd' nc' = band_ids rd1 nc1" "in_relief ij' = in_relief ij1"
    and link': "relinked S tb1 tb'"
    and full: "\<forall>b. b \<in> set bs \<or> rd1 b \<noteq> [] \<or> nc1 b = [] \<longrightarrow> rd' b \<noteq> [] \<or> nc' b = []"
    using Cons.IH [OF I1] by blast
  have "refill_bands (b # bs) ij tb = Some (ij', tb')" using f r(1) by simp
  moreover have "\<forall>b'. b' \<in> set (b # bs) \<or> rd b' \<noteq> [] \<or> nc b' = [] \<longrightarrow> rd' b' \<noteq> [] \<or> nc' b' = []"
    using full b other by (metis set_ConsD)
  ultimately show ?case using r same relinked_trans [OF link link'] by metis
qed

lemma promote_inv:
  assumes I: "inj_inv ij tb rd nc" and b: "b + 1 < PRIORITY_BANDS" and rd: "rd b = i # r"
  shows "\<exists>ij' tb'. promote b ij tb = Some (ij', tb') \<and>
    inj_inv ij' tb' (rd(b := r)) (nc(b + 1 := i # nc (b + 1)))"
proof -
  obtain ij1 where p: "pop_ready b ij tb = Some (Some i, ij1)"
    and I1: "inj_inv (count_out ij1) tb (rd(b := r)) nc"
    using pop_ready_cons [OF I rd] by blast
  have live: "queued tb i" using inj_inv_queued [OF I, of i b] rd by simp
  have sep: "separate (band_ids rd nc)" by (rule inj_invD(3) [OF I])
  have fresh: "i \<notin> set (band_ids (rd(b := r)) nc b')" for b'
  proof (cases "b' = b")
    case True
    have "distinct (i # r @ rev (nc b))" using sep rd by (metis separate_def band_ids_def append_Cons)
    with True show ?thesis by simp
  next
    case False
    with separate_notin [OF sep, of i b b'] rd show ?thesis by simp
  qed
  obtain ij' tb' where l: "link_incoming (b + 1) i (count_out ij1) tb = (ij', tb')" by fastforce
  have "link_incoming (b + 1) i ij1 tb = (ij'\<lparr>in_len := in_len ij' + 1\<rparr>, tb')"
    using l by (auto simp: link_incoming_def set_incoming_def count_out_def)
  then have "promote b ij tb = Some (ij'\<lparr>in_len := in_len ij' + 1\<rparr>, tb')"
    using p b by (simp add: promote_def queued_live [OF live])
  with link_incoming_inv [OF I1 fresh b live l] show ?thesis by blast
qed

definition all_ids :: "(nat \<Rightarrow> nat list) \<Rightarrow> nat list" where
  "all_ids q = concat (map q (rev [0..<PRIORITY_BANDS]))"

lemma mset_concat_upd:
  "distinct bs \<Longrightarrow> b \<in> set bs \<Longrightarrow> q b = i # r \<Longrightarrow>
   mset (concat (map q bs)) = add_mset i (mset (concat (map (q(b := r)) bs)))"
proof (induction bs)
  case (Cons c bs)
  show ?case
  proof (cases "c = b")
    case True
    with Cons.prems have "map (q(b := r)) bs = map q bs" by auto
    then show ?thesis unfolding list.map(2) \<open>map (q(b := r)) bs = map q bs\<close> using True Cons.prems(3) by simp
  next
    case False
    with Cons show ?thesis by simp
  qed
qed simp

lemma all_ids_pop:
  "separate q \<Longrightarrow> q b = i # r \<Longrightarrow> mset (all_ids q) = add_mset i (mset (all_ids (q(b := r))))"
  unfolding all_ids_def by (rule mset_concat_upd) (auto dest: separate_band [of q i b])

lemma total_all_ids: "total q = size (mset (all_ids q))"
  by (simp add: total_def all_ids_def length_concat PRIORITY_BANDS_def numeral_eq_Suc)

lemma pop_rel:
  assumes R: "inj_rel ij tb q"
  shows "\<exists>got ij' tb'. pop ij tb = Some (got, ij', tb') \<and>
    (case got of
       None \<Rightarrow> (\<forall>b. q b = []) \<and> inj_rel ij' tb' q
     | Some i \<Rightarrow> \<exists>b r. q b = i # r \<and> inj_rel ij' tb' (q(b := r)))"
proof -
  obtain got ij' tb' where p: "pop_banded ij tb = Some (got, ij', tb')"
    and c: "case got of
       None \<Rightarrow> (\<forall>b. q b = []) \<and> inj_rel ij' tb' q
     | Some (i, b) \<Rightarrow> \<exists>r. q b = i # r \<and> inj_rel ij' tb' (q(b := r)) \<and>
         td_queued (tb_mem tb' i) = QUEUED_NOWHERE"
    using pop_banded_rel [OF R] by blast
  then have "pop ij tb = Some (map_option fst got, ij', tb')" by (simp add: pop_def)
  with c show ?thesis by (cases got) (simp, clarsimp, blast)
qed

lemma drain_bands_rel:
  "inj_rel ij tb q \<Longrightarrow> \<exists>out ij' tb'. drain_bands done ij tb = Some (done @ out, ij', tb') \<and>
     mset out = mset (all_ids q) \<and> inj_rel ij' tb' (\<lambda>_. [])"
proof (induction "total q" arbitrary: ij tb q "done")
  case 0
  have e: "q = (\<lambda>_. [])" using total_zero [OF inj_rel_separate [OF 0(2)]] 0(1) by auto
  have n: "\<not> (\<exists>i b r. q b = (i :: nat) # r)" by (simp add: e)
  obtain ij' tb' where "pop ij tb = Some (None, ij', tb')" "inj_rel ij' tb' q"
    using pop_rel [OF 0(2)] n by (fastforce split: option.splits)
  then show ?case by (subst drain_bands.simps) (simp add: e all_ids_def)
next
  case (Suc n)
  have "\<not> (\<forall>b. q b = [])" using total_zero [OF inj_rel_separate [OF Suc(3)]] Suc(2) by auto
  then obtain i b r ij' tb' where p: "pop ij tb = Some (Some i, ij', tb')" and b: "q b = i # r"
    and R: "inj_rel ij' tb' (q(b := r))"
    using pop_rel [OF Suc(3)] by (auto split: option.splits)
  note m = all_ids_pop [OF inj_rel_separate [OF Suc(3)] b]
  have "n = total (q(b := r))" using Suc(2) m unfolding total_all_ids by simp
  from Suc(1) [OF this R, of "done @ [i]"] m p show ?case by (subst drain_bands.simps) auto
qed

section \<open>A band as a queue\<close>

text \<open>
  A task may be pushed when it is live and not in a shared queue already, which is what the
  runtime keeps to: it queues a task when it is spawned, and again only after a run.
\<close>

definition band_holds ::
  "nat \<Rightarrow> injector \<times> ('t, 'v, 'f) table \<Rightarrow> nat list \<Rightarrow> bool" where
  "band_holds b s xs \<longleftrightarrow> (\<exists>q. inj_rel (fst s) (snd s) q \<and> q b = xs)"

definition band_accepts :: "nat \<Rightarrow> nat \<Rightarrow> injector \<times> ('t, 'v, 'f) table \<Rightarrow> bool" where
  "band_accepts b i s \<longleftrightarrow>
     (case live_slot i (snd s) of
        None \<Rightarrow> False
      | Some d \<Rightarrow> td_queued d \<noteq> QUEUED_SHARED \<and> min (band d) (PRIORITY_BANDS - 1) = b)"

definition band_push ::
  "nat \<Rightarrow> injector \<times> ('t, 'v, 'f) table \<Rightarrow> injector \<times> ('t, 'v, 'f) table" where
  "band_push i s = snd (push i (fst s) (snd s))"

definition band_pop ::
  "nat \<Rightarrow> injector \<times> ('t, 'v, 'f) table
    \<Rightarrow> (nat option \<times> injector \<times> ('t, 'v, 'f) table) option" where
  "band_pop b s = pop_from b (fst s) (snd s)"

lemma inj_rel_queued: "inj_rel ij tb q \<Longrightarrow> i \<in> set (q b) \<Longrightarrow> queued tb i"
  by (auto simp: inj_rel_def inj_inv_def)

lemma inj_rel_fresh:
  "inj_rel ij tb q \<Longrightarrow> live_slot i tb = Some d \<Longrightarrow> td_queued d \<noteq> QUEUED_SHARED \<Longrightarrow> i \<notin> set (q b)"
  using inj_rel_queued live_slotD by (fastforce simp: queued_def)

interpretation band_queue: fifo "band_holds b" "band_accepts b" band_push "band_pop b" for b
proof
  fix s :: "injector \<times> ('t, 'v, 'f) table" and xs x
  assume h: "band_holds b s xs" and a: "band_accepts b x s"
  obtain d where d: "live_slot x (snd s) = Some d" "td_queued d \<noteq> QUEUED_SHARED" "min (band d) 3 = b"
    using a by (auto simp: band_accepts_def PRIORITY_BANDS_def split: option.splits)
  obtain q where q: "inj_rel (fst s) (snd s) q" "q b = xs" using h by (auto simp: band_holds_def)
  from push_rel [OF q(1) inj_rel_fresh [OF q(1) d(1,2)] d(1)] q(2) d(3)
  show "band_holds b (band_push x s) (xs @ [x])" by (fastforce simp: band_holds_def band_push_def)
next
  fix s :: "injector \<times> ('t, 'v, 'f) table"
  assume "band_holds b s []"
  then show "\<exists>s'. band_pop b s = Some (None, s') \<and> band_holds b s' []"
    using take_from_none by (fastforce simp: band_holds_def band_pop_def pop_from_def)
next
  fix s :: "injector \<times> ('t, 'v, 'f) table" and x xs
  assume "band_holds b s (x # xs)"
  then obtain q where q: "inj_rel (fst s) (snd s) q" "q b = x # xs" by (auto simp: band_holds_def)
  obtain ij' tb' where "take_from b (fst s) (snd s) = Some (Some x, ij', tb')"
    "inj_rel ij' tb' (q(b := xs))"
    using take_from_some [OF q] by blast
  then show "\<exists>s'. band_pop b s = Some (Some x, s') \<and> band_holds b s' xs"
    by (auto simp: band_holds_def band_pop_def pop_from_def intro!: exI [of _ "q(b := xs)"])
qed

section \<open>Histories of an injector\<close>

datatype inj_op = IPush nat | IPop | IPopFrom nat | IPromote nat | IRefill | IStarve bool

definition may_push :: "nat \<Rightarrow> ('t, 'v, 'f) table \<Rightarrow> bool" where
  "may_push i tb \<longleftrightarrow>
     (case live_slot i tb of None \<Rightarrow> False | Some d \<Rightarrow> td_queued d \<noteq> QUEUED_SHARED)"

text \<open>One operation: the ids it queued, the ids it took, and the state after.\<close>

fun inj_do ::
  "inj_op \<Rightarrow> injector \<times> ('t, 'v, 'f) table
    \<Rightarrow> (nat list \<times> nat list \<times> injector \<times> ('t, 'v, 'f) table) option" where
  "inj_do (IPush i) (ij, tb) =
     (if may_push i tb then Some ([i], [], snd (push i ij tb)) else Some ([], [], ij, tb))"
| "inj_do IPop (ij, tb) =
     (case pop ij tb of
        None \<Rightarrow> None
      | Some (got, s) \<Rightarrow> Some ([], case got of None \<Rightarrow> [] | Some i \<Rightarrow> [i], s))"
| "inj_do (IPopFrom b) (ij, tb) =
     (case pop_from b ij tb of
        None \<Rightarrow> None
      | Some (got, s) \<Rightarrow> Some ([], case got of None \<Rightarrow> [] | Some i \<Rightarrow> [i], s))"
| "inj_do (IPromote b) (ij, tb) = map_option (\<lambda>s. ([], [], s)) (promote b ij tb)"
| "inj_do IRefill (ij, tb) = map_option (\<lambda>s. ([], [], s)) (refill ij tb)"
| "inj_do (IStarve f) (ij, tb) = Some ([], [], set_starving f ij, tb)"

fun inj_run ::
  "inj_op list \<Rightarrow> injector \<times> ('t, 'v, 'f) table
    \<Rightarrow> (nat list \<times> nat list \<times> injector \<times> ('t, 'v, 'f) table) option" where
  "inj_run [] s = Some ([], [], s)"
| "inj_run (op # ops) s =
     (case inj_do op s of
        None \<Rightarrow> None
      | Some (pushed, popped, s1) \<Rightarrow>
          (case inj_run ops s1 of
             None \<Rightarrow> None
           | Some (pushed', popped', s2) \<Rightarrow> Some (pushed @ pushed', popped @ popped', s2)))"

lemma all_ids_push:
  "b < PRIORITY_BANDS \<Longrightarrow> mset (all_ids (q(b := q b @ [i]))) = add_mset i (mset (all_ids q))"
  by (auto simp: all_ids_def PRIORITY_BANDS_def numeral_eq_Suc less_Suc_eq)

text \<open>What one operation does to the ids an injector holds.\<close>

definition inj_balance ::
  "(nat \<Rightarrow> nat list) \<Rightarrow> (nat list \<times> nat list \<times> injector \<times> ('t, 'v, 'f) table) option \<Rightarrow> bool" where
  "inj_balance q r \<longleftrightarrow>
     (\<exists>pushed popped ij tb q'. r = Some (pushed, popped, ij, tb) \<and> inj_rel ij tb q' \<and>
        mset popped + mset (all_ids q') = mset (all_ids q) + mset pushed)"

lemma balance_push: "inj_rel ij tb q \<Longrightarrow> inj_balance q (inj_do (IPush i) (ij, tb))"
proof (cases "may_push i tb")
  case True
  assume R: "inj_rel ij tb q"
  obtain d where d: "live_slot i tb = Some d" "td_queued d \<noteq> QUEUED_SHARED"
    using True by (auto simp: may_push_def split: option.splits)
  let ?b = "min (band d) 3"
  obtain ij' tb' where "push i ij tb = (True, ij', tb')" "inj_rel ij' tb' (q(?b := q ?b @ [i]))"
    using push_rel [OF R inj_rel_fresh [OF R d] d(1)] by blast
  moreover have "mset (all_ids (q(?b := q ?b @ [i]))) = add_mset i (mset (all_ids q))"
    by (rule all_ids_push) (simp add: PRIORITY_BANDS_def)
  ultimately show ?thesis using True unfolding inj_balance_def by fastforce
qed (auto simp: inj_balance_def)

lemma balance_take:
  assumes "inj_rel ij tb q" "q b = i # r" "inj_rel ij' tb' (q(b := r))"
  shows "inj_balance q (Some ([], [i], ij', tb'))"
  using assms all_ids_pop [OF inj_rel_separate [OF assms(1)] assms(2)] unfolding inj_balance_def by fastforce

lemma balance_keep: "inj_rel ij' tb' q \<Longrightarrow> inj_balance q (Some ([], [], ij', tb'))"
  by (auto simp: inj_balance_def)

lemma balance_pop: "inj_rel ij tb q \<Longrightarrow> inj_balance q (inj_do IPop (ij, tb))"
  using pop_rel [of ij tb q] by (fastforce intro: balance_take balance_keep split: option.splits)

lemma balance_pop_from: "inj_rel ij tb q \<Longrightarrow> inj_balance q (inj_do (IPopFrom b) (ij, tb))"
  using take_from_none [of ij tb q b] take_from_some [of ij tb q b]
  by (cases "q b") (fastforce simp: pop_from_def intro: balance_take balance_keep)+

lemma balance_promote:
  assumes R: "inj_rel ij tb q"
  shows "inj_balance q (inj_do (IPromote b) (ij, tb))"
proof -
  obtain rd nc where I: "inj_inv ij tb rd nc" and q: "q = band_ids rd nc"
    using R by (auto simp: inj_rel_def)
  consider "PRIORITY_BANDS \<le> b + 1" | "b + 1 < PRIORITY_BANDS" "rd b = []"
    | i r where "b + 1 < PRIORITY_BANDS" "rd b = i # r" by (cases "b + 1 < PRIORITY_BANDS"; cases "rd b") auto
  then show ?thesis
  proof cases
    case 1
    then show ?thesis using R by (simp add: promote_def balance_keep)
  next
    case 2
    then have "pop_ready b ij tb = Some (None, ij)"
      using inj_invD(1) [OF I, of b] by (intro pop_ready_nil) simp
    with 2 show ?thesis using R by (simp add: promote_def balance_keep)
  next
    case 3
    let ?q = "q(b := r @ rev (nc b))"
    have ids: "band_ids (rd(b := r)) (nc(b + 1 := i # nc (b + 1))) = ?q(b + 1 := ?q (b + 1) @ [i])"
      using band_ids_upd_nc [of "rd(b := r)" nc "b + 1" i] band_ids_upd_rd [where rd = rd, OF 3(2), of nc] q
      by simp
    have "q b = i # (r @ rev (nc b))" using 3 by (simp add: q band_ids_def)
    then have "mset (all_ids (?q(b + 1 := ?q (b + 1) @ [i]))) = mset (all_ids q)"
      using all_ids_push [OF 3(1), of ?q i] all_ids_pop [OF inj_rel_separate [OF R], of b i "r @ rev (nc b)"]
      by simp
    with promote_inv [OF I 3] ids show ?thesis unfolding inj_balance_def
      by (fastforce intro: inj_relI)
  qed
qed

lemma balance_refill:
  assumes R: "inj_rel ij tb q"
  shows "inj_balance q (inj_do IRefill (ij, tb))"
proof -
  obtain rd nc where I: "inj_inv ij tb rd nc" and q: "q = band_ids rd nc"
    using R by (auto simp: inj_rel_def)
  from refill_bands_inv [OF I, of "[0..<PRIORITY_BANDS]"] q show ?thesis
    by (auto simp: refill_def intro!: balance_keep intro: inj_relI)
qed

lemmas inj_balances = balance_push balance_pop balance_pop_from balance_promote balance_refill

lemma inj_do_balance: "inj_rel ij tb q \<Longrightarrow> inj_balance q (inj_do op (ij, tb))"
  by (cases op) (simp_all add: inj_balances balance_keep del: inj_do.simps(1-5))

lemma inj_run_balance: "inj_rel ij tb q \<Longrightarrow> inj_balance q (inj_run ops (ij, tb))"
proof (induction ops arbitrary: ij tb q)
  case Nil
  then show ?case by (simp add: balance_keep)
next
  case (Cons op ops)
  obtain pushed popped ij1 tb1 q1 where d: "inj_do op (ij, tb) = Some (pushed, popped, ij1, tb1)"
    and R: "inj_rel ij1 tb1 q1" and m: "mset popped + mset (all_ids q1) = mset (all_ids q) + mset pushed"
    using inj_do_balance [OF Cons.prems, of op] unfolding inj_balance_def by blast
  obtain pushed' popped' ij2 tb2 q2 where r: "inj_run ops (ij1, tb1) = Some (pushed', popped', ij2, tb2)"
    and R2: "inj_rel ij2 tb2 q2"
    and m2: "mset popped' + mset (all_ids q2) = mset (all_ids q1) + mset pushed'"
    using Cons.IH [OF R] unfolding inj_balance_def by blast
  have "mset (popped @ popped') + mset (all_ids q2) = mset (all_ids q) + mset (pushed @ pushed')"
    using m m2 by (simp add: ac_simps) (metis union_assoc union_commute)
  with d r R2 show ?case unfolding inj_balance_def by fastforce
qed

section \<open>Properties\<close>

text \<open>
  C9: without relief, a pop serves the task that has waited longest in the highest band
  with anything in it, takes exactly that task out, and comes back empty handed only when
  every band is empty.
\<close>
theorem pop_serves_highest:
  assumes "inj_rel ij tb q" "in_relief ij = 0"
  shows "\<exists>ij' tb'. pop_banded ij tb =
      Some (map_option (\<lambda>b. (hd (q b), b)) (highest (rev [0..<PRIORITY_BANDS]) q), ij', tb') \<and>
    inj_rel ij' tb'
      (case highest (rev [0..<PRIORITY_BANDS]) q of None \<Rightarrow> q | Some b \<Rightarrow> q(b := tl (q b)))"
  using pop_bands_rel [OF assms(1), of "rev [0..<PRIORITY_BANDS]"] assms(2)
  by (auto simp: pop_banded_def Let_def split: option.splits)

text \<open>Three tasks, one of the lowest band and two of the highest, queued in that order.\<close>

definition ex_task :: "u8 \<Rightarrow> u64 \<Rightarrow> (nat, nat, nat) task_data" where
  "ex_task class sequence = zero_slot\<lparr>td_state := Pending, td_priority := pack class sequence\<rparr>"

definition ex_table :: "(nat, nat, nat) table" where
  "ex_table =
     table_new\<lparr>tb_blocks := (\<lambda>b. b = 0),
       tb_mem := (\<lambda>i. if i = 0 then ex_task 0 0 else if i = 1 then ex_task 255 1 else ex_task 255 2)\<rparr>"

definition ex_queue :: "injector \<times> (nat, nat, nat) table" where
  "ex_queue = band_push 2 (band_push 1 (band_push 0 (injector_new, ex_table)))"

definition ex_bands :: "nat \<Rightarrow> nat list" where
  "ex_bands = (\<lambda>_. [])(0 := [0], 3 := [1, 2])"

lemma injector_new_rel: "inj_rel injector_new tb (\<lambda>_. [])"
proof -
  have "inj_inv injector_new tb (\<lambda>_. []) (\<lambda>_. [])"
    by (simp add: inj_inv_def injector_new_def head_index_def band_ids_def separate_def total_def)
  then show ?thesis by (rule inj_relI) (auto simp: band_ids_def)
qed

lemma position_first: "i < 256 \<Longrightarrow> fst (position i) = 0"
  using position_eq [of 0 i] by (simp add: FIRST_BLOCK_def TABLE_BLOCKS_def)

lemma ex_band:
  "min (band (ex_task 0 s)) 3 = 0" "min (band (ex_task 255 1)) 3 = 3" "min (band (ex_task 255 2)) 3 = 3"
  by (code_simp | simp add: ex_task_def band_def priority_class_def pack_def atap_consts)+

lemma band_push_frame:
  "j \<noteq> i \<Longrightarrow> live_slot j (snd (band_push i s)) = live_slot j (snd s)"
  "in_relief (fst (band_push i s)) = in_relief (fst s)"
  by (simp_all add: band_push_def push_def live_slot_simps link_incoming_def Let_def split: option.splits)

lemma band_push_rel:
  assumes "inj_rel (fst s) (snd s) q" "live_slot i (snd s) = Some d" "td_queued d \<noteq> QUEUED_SHARED"
    and "min (band d) 3 = b"
  shows "inj_rel (fst (band_push i s)) (snd (band_push i s)) (q(b := q b @ [i]))"
  using push_rel [OF assms(1) inj_rel_fresh [OF assms(1-3)] assms(2)] assms(4)
  by (auto simp: band_push_def)

lemma ex_live:
  "live_slot 0 ex_table = Some (ex_task 0 0)" "live_slot 1 ex_table = Some (ex_task 255 1)"
  "live_slot 2 ex_table = Some (ex_task 255 2)"
  by (simp_all add: live_slot_simps slot_ok_def position_first ex_table_def ex_task_def MAX_TASK_ID_val)

lemma ex_unqueued: "td_queued (ex_task c s) \<noteq> QUEUED_SHARED"
  by (simp add: ex_task_def zero_slot_def QUEUED_SHARED_def)

lemma ex_queue_rel: "inj_rel (fst ex_queue) (snd ex_queue) ex_bands" "in_relief (fst ex_queue) = 0"
proof -
  let ?s = "(injector_new, ex_table)" and ?e = "\<lambda>_. [] :: nat list"
  have "inj_rel (fst (band_push 0 ?s)) (snd (band_push 0 ?s)) (?e(0 := [0]))"
    using band_push_rel [of ?s ?e 0 "ex_task 0 0" 0] injector_new_rel [of ex_table] ex_live ex_unqueued ex_band by simp
  then have "inj_rel (fst (band_push 1 (band_push 0 ?s))) (snd (band_push 1 (band_push 0 ?s))) (?e(0 := [0], 3 := [1]))"
    using band_push_rel [of "band_push 0 ?s" "?e(0 := [0])" 1 "ex_task 255 1" 3] ex_live ex_unqueued ex_band
    by (simp add: band_push_frame)
  then show "inj_rel (fst ex_queue) (snd ex_queue) ex_bands"
    using band_push_rel [of "band_push 1 (band_push 0 ?s)" "?e(0 := [0], 3 := [1])" 2 "ex_task 255 2" 3] ex_live ex_unqueued ex_band
    by (simp add: band_push_frame ex_queue_def ex_bands_def)
  show "in_relief (fst ex_queue) = 0"
    by (simp add: ex_queue_def band_push_frame injector_new_def)
qed

lemma ex_highest: "highest (rev [0..<PRIORITY_BANDS]) ex_bands = Some 3"
  by (simp add: highest_def ex_bands_def PRIORITY_BANDS_def numeral_eq_Suc)

theorem pop_serves_highest_witness:
  "\<exists>ij tb. pop_banded (fst ex_queue) (snd ex_queue) = Some (Some (1, 3), ij, tb) \<and>
     inj_rel ij tb (ex_bands(3 := [2]))"
  using pop_serves_highest [OF ex_queue_rel] by (simp add: ex_highest) (simp add: ex_bands_def)

text \<open>
  C10: each band is first in, first out. In any history of pushes and pops on a band, what
  has come out followed by what is left is what was there at first followed by what was
  pushed, and no pop fails to return.
\<close>
theorem band_in_order:
  assumes "band_holds b s xs" "queue_valid (band_accepts b) band_push (band_pop b) ops s"
  shows "\<exists>out s' rest. queue_run band_push (band_pop b) ops s = Some (out, s') \<and>
    band_holds b s' rest \<and> out @ rest = xs @ added ops"
  by (rule band_queue.in_order [OF assms])

theorem band_in_order_witness:
  "\<exists>out s' rest. queue_run band_push (band_pop 3) [Enq 1, Enq 2] (injector_new, ex_table) = Some (out, s') \<and>
    band_holds 3 s' rest \<and> out @ rest = [1, 2]"
proof -
  have "band_holds 3 (injector_new, ex_table) []"
    using injector_new_rel [of ex_table] by (auto simp: band_holds_def)
  moreover have "queue_valid (band_accepts 3) band_push (band_pop 3) [Enq 1, Enq 2] (injector_new, ex_table)"
    using ex_live ex_band ex_unqueued
    by (simp add: band_accepts_def band_push_frame(1) PRIORITY_BANDS_def)
  ultimately show ?thesis using band_in_order [of 3 "(injector_new, ex_table)" "[]" "[Enq 1, Enq 2]"] by simp
qed

text \<open>
  once the bands are refilled, a pop under relief serves the oldest front of all the
  bands, whatever its band, and spends one unit of the relief.
\<close>
theorem relief_serves_oldest:
  assumes R: "inj_rel ij tb q" and n: "in_relief ij \<noteq> 0" and ne: "q b\<^sub>0 \<noteq> []"
  shows "\<exists>ij1 tb1 i b r ij' tb'. refill ij tb = Some (ij1, tb1) \<and>
    pop_banded ij1 tb1 = Some (Some (i, b), ij', tb') \<and> q b = i # r \<and> inj_rel ij' tb' (q(b := r)) \<and>
    (\<forall>b' j r'. q b' = j # r' \<longrightarrow> stamp tb i \<le> stamp tb j) \<and>
    unat (in_relief ij') = unat (in_relief ij) - 1"
proof -
  obtain rd nc where I: "inj_inv ij tb rd nc" and q: "q = band_ids rd nc"
    using R by (auto simp: inj_rel_def)
  obtain ij1 tb1 rd1 nc1 S where f: "refill ij tb = Some (ij1, tb1)" and I1: "inj_inv ij1 tb1 rd1 nc1"
    and ids: "band_ids rd1 nc1 = q" and rel: "in_relief ij1 = in_relief ij" and link: "relinked S tb tb1"
    and full: "\<forall>b. b \<in> set [0..<PRIORITY_BANDS] \<or> rd b \<noteq> [] \<or> nc b = [] \<longrightarrow> rd1 b \<noteq> [] \<or> nc1 b = []"
    using refill_bands_inv [OF I, of "[0..<PRIORITY_BANDS]"] q unfolding refill_def by blast
  have front: "\<exists>r''. rd1 b' = j # r''" if "q b' = j # r'" for b' j r'
  proof -
    have "b' < PRIORITY_BANDS" using separate_band [OF inj_rel_separate [OF R], of j b'] that by simp
    then have "rd1 b' \<noteq> [] \<or> nc1 b' = []" using full by simp
    then show ?thesis using that unfolding ids [symmetric] by (cases "rd1 b'") (auto simp: band_ids_def)
  qed
  have R1: "inj_rel ij1 tb1 q" using I1 ids by (rule inj_relI)
  obtain j r' where "q b\<^sub>0 = j # r'" using ne by (cases "q b\<^sub>0") auto
  with front oldest_band_none [OF I1] obtain b where o: "oldest_band ij1 tb1 = Some b"
    by (cases "oldest_band ij1 tb1") fastforce+
  obtain i r where i: "rd1 b = i # r" and least: "\<forall>b' j r'. rd1 b' = j # r' \<longrightarrow> stamp tb1 i \<le> stamp tb1 j"
    using oldest_band_some [OF I1 o] by blast
  obtain i' r' ij' tb' where p: "q b = i' # r'" "pop_banded ij1 tb1 = Some (Some (i', b), ij', tb')"
    "inj_rel ij' tb' (q(b := r'))" "unat (in_relief ij') = unat (in_relief ij1) - 1"
    using pop_banded_relief [OF R1 o] n rel by auto
  have "i' = i" using front [OF p(1)] i by auto
  moreover have "\<forall>b' j r'. q b' = j # r' \<longrightarrow> stamp tb i \<le> stamp tb j"
    using front least by (metis relinked_stamp [OF link])
  ultimately show ?thesis using f p rel by metis
qed

theorem relief_serves_oldest_witness:
  "\<exists>ij1 tb1 i b r ij' tb'.
    refill (set_starving True (fst ex_queue)) (snd ex_queue) = Some (ij1, tb1) \<and>
    pop_banded ij1 tb1 = Some (Some (i, b), ij', tb') \<and> ex_bands b = i # r \<and>
    inj_rel ij' tb' (ex_bands(b := r)) \<and>
    (\<forall>b' j r'. ex_bands b' = j # r' \<longrightarrow> stamp (snd ex_queue) i \<le> stamp (snd ex_queue) j) \<and>
    unat (in_relief ij') = 63"
proof -
  have "in_relief (set_starving True (fst ex_queue)) = 64"
    by (simp add: set_starving_def STARVE_RELIEF_def)
  moreover have "ex_bands 0 \<noteq> []" by (simp add: ex_bands_def)
  ultimately show ?thesis
    using relief_serves_oldest [of "set_starving True (fst ex_queue)" "snd ex_queue" ex_bands 0] ex_queue_rel
    by simp
qed

text \<open>
  no sequence of pushes, pops, promotions, refills and relief loses a task or serves one
  twice: every operation returns, and the tasks served together with the tasks still queued
  are the tasks queued at first together with the tasks pushed. The count is exactly the
  number of tasks queued, so it never wraps, and zero means there is none.
\<close>
theorem injector_conserves:
  assumes "inj_rel ij tb q"
  shows "\<exists>pushed popped ij' tb' q'. inj_run ops (ij, tb) = Some (pushed, popped, ij', tb') \<and>
    inj_rel ij' tb' q' \<and> mset popped + mset (all_ids q') = mset (all_ids q) + mset pushed \<and>
    unat (injector_len ij') = length (all_ids q') \<and> (injector_is_empty ij' \<longleftrightarrow> (\<forall>b. q' b = []))"
proof -
  obtain pushed popped ij' tb' q' where r: "inj_run ops (ij, tb) = Some (pushed, popped, ij', tb')"
    and R: "inj_rel ij' tb' q'" and m: "mset popped + mset (all_ids q') = mset (all_ids q) + mset pushed"
    using inj_run_balance [OF assms, of ops] unfolding inj_balance_def by blast
  have len: "unat (in_len ij') = total q'" by (rule inj_rel_len [OF R])
  then have "in_len ij' = 0 \<longleftrightarrow> (\<forall>b. q' b = [])"
    using total_zero [OF inj_rel_separate [OF R]] by (metis unat_eq_zero)
  with r R m len show ?thesis
    by (auto simp: injector_len_def injector_is_empty_def total_all_ids)
qed

theorem injector_conserves_witness:
  "\<exists>pushed popped ij' tb' q'.
     inj_run [IPop, IPromote 0, IPush 1, IRefill, IPopFrom 1] ex_queue = Some (pushed, popped, ij', tb') \<and>
     inj_rel ij' tb' q' \<and> mset popped + mset (all_ids q') = mset [0, 1, 2] + mset pushed"
proof -
  have "mset (all_ids ex_bands) = mset [0, 1, 2]"
    by (simp add: all_ids_def ex_bands_def PRIORITY_BANDS_def numeral_eq_Suc)
  then show ?thesis
    using injector_conserves [OF ex_queue_rel(1), of "[IPop, IPromote 0, IPush 1, IRefill, IPopFrom 1]"]
    by (metis prod.collapse)
qed

text \<open>
  C11: draining an injector ends, and returns every queued task exactly once, leaving every
  band empty.
\<close>
theorem drain_exactly_once:
  assumes "inj_rel ij tb q"
  shows "\<exists>out ij' tb'. drain ij tb = Some (out, ij', tb') \<and> mset out = mset (all_ids q) \<and>
    distinct out \<and> inj_rel ij' tb' (\<lambda>_. [])"
proof -
  obtain out ij' tb' where d: "drain ij tb = Some (out, ij', tb')" "mset out = mset (all_ids q)"
    "inj_rel ij' tb' (\<lambda>_. [])"
    using drain_bands_rel [OF assms, of "[]"] by (auto simp: drain_def)
  have "distinct (all_ids q)"
  proof (rule card_distinct)
    have "set (all_ids q) = (\<Union>b < PRIORITY_BANDS. set (q b))" by (auto simp: all_ids_def)
    then show "card (set (all_ids q)) = length (all_ids q)"
      using total_card [OF inj_rel_separate [OF assms]] by (simp add: total_all_ids)
  qed
  with d show ?thesis by (metis mset_eq_imp_distinct_iff)
qed

theorem drain_exactly_once_witness:
  "\<exists>out ij' tb'. drain (fst ex_queue) (snd ex_queue) = Some (out, ij', tb') \<and>
    mset out = mset (all_ids ex_bands) \<and> distinct out \<and> inj_rel ij' tb' (\<lambda>_. [])"
  using drain_exactly_once [OF ex_queue_rel(1)] .

end
