(* ===== verification/Workers.thy ===== *)
theory Workers
  imports Thread_Slots Injector
begin

text \<open>
  \<open>src/modules/worker.rs\<close> and \<open>src/modules/sleep_thread.rs\<close>: one worker, with the ring
  of ids waiting for it, its LIFO slot and the note of what it holds, and one sleep thread.
  The ring's ends are 32 bit counters that wrap; a cell is the low bits of one. Tasks are
  claimed in the task table, which the operations that claim take and return.

  The loops the threads follow are with the pool, which they search for work.
\<close>

section \<open>Claiming a local entry\<close>

definition claim_local :: "nat \<Rightarrow> ('t, 'v, 'f) table \<Rightarrow> bool \<times> ('t, 'v, 'f) table" where
  "claim_local i tb =
     (case live_slot i tb of
        None \<Rightarrow> (False, tb)
      | Some d \<Rightarrow> (let (mine, d1) = claim_queued QUEUED_LOCAL d in (mine, put_slot i d1 tb)))"

section \<open>The worker\<close>

record worker =
  wk_slot :: thread_slot
  wk_head :: u32
  wk_tail :: u32
  wk_completed :: u64
  wk_watched :: u64
  wk_lifo :: u32
  wk_streak :: u32
  wk_port :: u32
  wk_waits :: u32
  wk_nested :: "nat \<Rightarrow> nat"
  wk_ring :: "nat \<Rightarrow> u32"

definition worker_new :: worker where
  "worker_new =
     \<lparr>wk_slot = thread_slot_new, wk_head = 0, wk_tail = 0, wk_completed = 0, wk_watched = 0,
      wk_lifo = 0, wk_streak = 0, wk_port = 0, wk_waits = 0, wk_nested = (\<lambda>_. 0), wk_ring = (\<lambda>_. 0)\<rparr>"

definition cell :: "u32 \<Rightarrow> nat" where
  "cell index = unat (index AND LOCAL_QUEUE_MASK)"

definition backlog :: "worker \<Rightarrow> nat" where
  "backlog w = unat (wk_tail w - wk_head w) + (if wk_lifo w \<noteq> 0 then 1 else 0)"

definition has_room :: "worker \<Rightarrow> bool" where
  "has_room w \<longleftrightarrow> unat (wk_tail w - wk_head w) < LOCAL_QUEUE"

definition put_lifo :: "nat \<Rightarrow> worker \<Rightarrow> bool \<times> worker" where
  "put_lifo i w =
     (let (ok, l) = compare_exchange (wk_lifo w) 0 (of_nat i + 1) in (ok, w\<lparr>wk_lifo := l\<rparr>))"

definition take_lifo ::
  "worker \<Rightarrow> ('t, 'v, 'f) table \<Rightarrow> (nat \<times> bool) option \<times> worker \<times> ('t, 'v, 'f) table" where
  "take_lifo w tb =
     (let raw = wk_lifo w; w1 = w\<lparr>wk_lifo := 0\<rparr> in
      if raw = 0 then (None, w1, tb)
      else
        (let i = unat raw - 1; (claimed, tb1) = claim_local i tb
         in (Some (i, claimed), w1, tb1)))"

definition took_from :: "bool \<Rightarrow> worker \<Rightarrow> worker" where
  "took_from from_lifo w =
     (if from_lifo then w\<lparr>wk_streak := wk_streak w + 1\<rparr> else w\<lparr>wk_streak := 0\<rparr>)"

definition wait_began :: "worker \<Rightarrow> worker" where
  "wait_began w = w\<lparr>wk_waits := wk_waits w + 1\<rparr>"

definition wait_ended :: "worker \<Rightarrow> worker" where
  "wait_ended w = w\<lparr>wk_waits := wk_waits w - 1\<rparr>"

text \<open>\<open>in_wait port\<close> is whether the kernel says that thread is waiting.\<close>

definition waiting_in_kernel :: "(u32 \<Rightarrow> bool) \<Rightarrow> worker \<Rightarrow> bool" where
  "waiting_in_kernel in_wait w \<longleftrightarrow> wk_port w \<noteq> 0 \<and> in_wait (wk_port w)"

definition blocked_in_a_call :: "(u32 \<Rightarrow> bool) \<Rightarrow> worker \<Rightarrow> bool" where
  "blocked_in_a_call in_wait w \<longleftrightarrow> wk_waits w = 0 \<and> waiting_in_kernel in_wait w"

definition moved :: "worker \<Rightarrow> bool \<times> worker" where
  "moved w = (wk_watched w \<noteq> wk_completed w, w\<lparr>wk_watched := wk_completed w\<rparr>)"

definition worker_start :: "bool \<Rightarrow> worker \<Rightarrow> bool \<times> worker" where
  "worker_start spawned w =
     (let (ok, ts) = slot_start spawned (wk_slot w) in (ok, w\<lparr>wk_slot := ts\<rparr>))"

definition hold_nested :: "nat \<Rightarrow> nat \<Rightarrow> worker \<Rightarrow> worker" where
  "hold_nested depth i w = w\<lparr>wk_nested := (wk_nested w)(depth := i + 1)\<rparr>"

definition put_down_nested :: "nat \<Rightarrow> worker \<Rightarrow> worker" where
  "put_down_nested depth w =
     w\<lparr>wk_nested := (wk_nested w)(depth := 0), wk_completed := wk_completed w + 1\<rparr>"

section \<open>The ring\<close>

definition ring_push :: "nat \<Rightarrow> worker \<Rightarrow> bool \<times> worker" where
  "ring_push i w =
     (let tail = wk_tail w; head = wk_head w in
      if unat (tail - head) \<ge> LOCAL_QUEUE then (False, w)
      else (True, w\<lparr>wk_ring := (wk_ring w)(cell tail := of_nat i + 1), wk_tail := tail + 1\<rparr>))"

text \<open>A zero cell would spin for ever, which is \<open>None\<close>.\<close>

partial_function (option) ring_pop ::
  "worker \<Rightarrow> ('t, 'v, 'f) table \<Rightarrow> (nat option \<times> worker \<times> ('t, 'v, 'f) table) option" where
  [code]: "ring_pop w tb =
     (let head = wk_head w; tail = wk_tail w in
      if head = tail then Some (None, w, tb)
      else
        (let raw = wk_ring w (cell head) in
         if raw = 0 then ring_pop w tb
         else
           (let w1 = w\<lparr>wk_head := head + 1\<rparr>; i = unat raw - 1; (mine, tb1) = claim_local i tb in
            if mine then Some (Some i, w1, tb1) else ring_pop w1 tb1)))"

text \<open>
  What a thief does with the ids it has taken. Ids handed to \<open>executor::fail\<close> are collected
  in the last component.
\<close>

fun steal_ids ::
  "u32 list \<Rightarrow> worker \<Rightarrow> injector \<Rightarrow> ('t, 'v, 'f) table
    \<Rightarrow> nat \<times> worker \<times> injector \<times> ('t, 'v, 'f) table \<times> nat list" where
  "steal_ids [] thief ij tb = (0, thief, ij, tb, [])"
| "steal_ids (raw # ids) thief ij tb =
     (if raw = 0 then steal_ids ids thief ij tb
      else
        (let i = unat raw - 1; (pushed, thief1) = ring_push i thief in
         if pushed then
           (let (n, rest) = steal_ids ids thief1 ij tb in (n + 1, rest))
         else
           (let (mine, tb1) = claim_local i tb in
            if \<not> mine then steal_ids ids thief ij tb1
            else
              (let (ok, ij1, tb2) = push i ij tb1 in
               if ok then
                 (let (n, rest) = steal_ids ids thief ij1 tb2 in (n + 1, rest))
               else
                 (let (n, thief2, ij2, tb3, failed) = steal_ids ids thief ij1 tb2
                  in (n, thief2, ij2, tb3, i # failed))))))"

definition steal_count :: "worker \<Rightarrow> nat" where
  "steal_count w =
     (let available = unat (wk_tail w - wk_head w) in
      if available = 0 then 0 else min (max (available div 2) 1) (LOCAL_QUEUE div 2))"

definition steal_into ::
  "worker \<Rightarrow> worker \<Rightarrow> injector \<Rightarrow> ('t, 'v, 'f) table
    \<Rightarrow> nat \<times> worker \<times> worker \<times> injector \<times> ('t, 'v, 'f) table \<times> nat list" where
  "steal_into victim thief ij tb =
     (let head = wk_head victim; tk = steal_count victim in
      if tk = 0 then (0, victim, thief, ij, tb, [])
      else
        (let ids = map (\<lambda>offset. wk_ring victim (cell (head + of_nat offset))) [0..<tk];
             victim1 = victim\<lparr>wk_head := head + of_nat tk\<rparr>;
             (n, thief1, ij1, tb1, failed) = steal_ids ids thief ij tb
         in (n, victim1, thief1, ij1, tb1, failed)))"

section \<open>Recovery\<close>

fun take_nested :: "nat list \<Rightarrow> worker \<Rightarrow> nat list \<times> worker" where
  "take_nested [] w = ([], w)"
| "take_nested (k # ks) w =
     (let held = wk_nested w k;
          (rest, w1) = take_nested ks (w\<lparr>wk_nested := (wk_nested w)(k := 0)\<rparr>)
      in (if held = 0 then rest else (held - 1) # rest, w1))"

partial_function (option) pop_all ::
  "nat list \<Rightarrow> worker \<Rightarrow> ('t, 'v, 'f) table \<Rightarrow> (nat list \<times> worker \<times> ('t, 'v, 'f) table) option" where
  [code]: "pop_all ids w tb = do {
     (got, w1, tb1) \<leftarrow> ring_pop w tb;
     case got of
       None \<Rightarrow> Some (ids, w1, tb1)
     | Some i \<Rightarrow> pop_all (ids @ [i]) w1 tb1
   }"

definition recover_worker ::
  "worker \<Rightarrow> ('t, 'v, 'f) table
    \<Rightarrow> (nat list \<times> nat list \<times> worker \<times> ('t, 'v, 'f) table) option" where
  "recover_worker w tb =
     (let (held, ts) = take_held (wk_slot w);
          stranded = (if held \<noteq> NO_TASK then [held] else []);
          (nested, w1) = take_nested [0..<HELP_DEPTH] (w\<lparr>wk_slot := ts\<rparr>)
      in do {
        (ids, w2, tb1) \<leftarrow> pop_all [] w1 tb;
        Some (ids, stranded @ nested, w2, tb1)
      })"

definition release_worker :: "worker \<Rightarrow> worker" where
  "release_worker w =
     w\<lparr>wk_completed := 0, wk_watched := 0, wk_streak := 0, wk_port := 0,
       wk_slot := slot_empty (busied (wk_slot w))\<rparr>"

section \<open>Sleep threads\<close>

record sleep_thread =
  sl_slot :: thread_slot
  sl_completed :: u64
  sl_watched :: u64

definition sleep_new :: sleep_thread where
  "sleep_new = \<lparr>sl_slot = thread_slot_new, sl_completed = 0, sl_watched = 0\<rparr>"

definition sleep_start :: "bool \<Rightarrow> sleep_thread \<Rightarrow> bool \<times> sleep_thread" where
  "sleep_start spawned s =
     (let (ok, ts) = slot_start spawned (sl_slot s) in (ok, s\<lparr>sl_slot := ts\<rparr>))"

definition sleep_moved :: "sleep_thread \<Rightarrow> bool \<times> sleep_thread" where
  "sleep_moved s = (sl_watched s \<noteq> sl_completed s, s\<lparr>sl_watched := sl_completed s\<rparr>)"

definition sleep_recover :: "sleep_thread \<Rightarrow> nat \<times> sleep_thread" where
  "sleep_recover s =
     (let (stranded, ts) = take_held (sl_slot s)
      in (stranded, s\<lparr>sl_slot := slot_empty (busied ts)\<rparr>))"

section \<open>The ring as a list\<close>

definition ring_size :: "worker \<Rightarrow> nat" where
  "ring_size w = unat (wk_tail w - wk_head w)"

definition ring_cells :: "worker \<Rightarrow> u32 list" where
  "ring_cells w = map (\<lambda>k. wk_ring w (cell (wk_head w + of_nat k))) [0..<ring_size w]"

text \<open>The ring holds the ids \<open>xs\<close>, each as its successor, and no more than it has cells.\<close>

definition ring_holds :: "worker \<Rightarrow> nat list \<Rightarrow> bool" where
  "ring_holds w xs \<longleftrightarrow>
     ring_size w \<le> LOCAL_QUEUE \<and> ring_cells w = map (\<lambda>i. of_nat i + 1) xs \<and>
     (\<forall>i \<in> set xs. i < MAX_TASK_ID)"

lemma cell_add: "cell (h + of_nat k) = (unat h + k) mod 256"
proof -
  have m: "LOCAL_QUEUE_MASK = mask 8" by (simp add: LOCAL_QUEUE_MASK_def mask_eq_exp_minus_1)
  have "cell (h + of_nat k) = unat (h + of_nat k) mod 256"
    unfolding cell_def m take_bit_eq_mask [symmetric] by (simp add: take_bit_eq_mod unat_mod_distrib)
  also have "unat (h + of_nat k) = (unat h + k) mod 4294967296"
    by (simp add: unat_word_ariths unat_of_nat mod_simps)
  also have "(unat h + k) mod 4294967296 mod 256 = (unat h + k) mod 256"
    by (rule mod_mod_cancel) simp
  finally show ?thesis .
qed

lemma cell_distinct: "j < k \<Longrightarrow> k < j + 256 \<Longrightarrow> cell (h + of_nat j) \<noteq> cell (h + of_nat k)"
proof
  assume jk: "j < k" "k < j + 256" and "cell (h + of_nat j) = cell (h + of_nat k)"
  then have "(unat h + j) mod 256 = (unat h + k) mod 256" by (simp add: cell_add)
  then have "256 dvd (unat h + k) - (unat h + j)" by (metis mod_eq_dvd_iff_nat add_le_mono1 jk(1) less_imp_le nat_add_left_cancel_le)
  with jk show False by (auto dest: dvd_imp_le)
qed

lemma ring_tail: "wk_tail w = wk_head w + of_nat (ring_size w)"
  by (simp add: ring_size_def)

lemma ring_size_add:
  "wk_tail w' = wk_head w + of_nat n \<Longrightarrow> wk_head w' = wk_head w \<Longrightarrow> n < 4294967296 \<Longrightarrow> ring_size w' = n"
  by (simp add: ring_size_def unat_of_nat)

lemma ring_holds_length: "ring_holds w xs \<Longrightarrow> ring_size w = length xs"
  by (metis ring_holds_def ring_cells_def length_map length_upt diff_zero)

lemma ring_push_holds:
  assumes R: "ring_holds w xs" and room: "has_room w" and i: "i < MAX_TASK_ID"
  shows "\<exists>w'. ring_push i w = (True, w') \<and> ring_holds w' (xs @ [i]) \<and> wk_slot w' = wk_slot w \<and>
    wk_lifo w' = wk_lifo w"
proof -
  let ?n = "ring_size w" and ?w = "w\<lparr>wk_ring := (wk_ring w)(cell (wk_tail w) := of_nat i + 1), wk_tail := wk_tail w + 1\<rparr>"
  have n: "?n < 256" using room by (simp add: has_room_def ring_size_def LOCAL_QUEUE_def)
  have size: "ring_size ?w = Suc ?n"
    by (rule ring_size_add [of _ w]) (use n ring_tail [of w] in \<open>simp_all\<close>)
  have "cell (wk_head w + of_nat k) \<noteq> cell (wk_tail w)" if "k < ?n" for k
    using cell_distinct [of k ?n "wk_head w"] that n ring_tail [of w] by auto
  then have "ring_cells ?w = ring_cells w @ [of_nat i + 1]"
    unfolding ring_cells_def size using ring_tail [of w] by (auto simp del: upt_Suc simp: upt_Suc_append)
  then have "ring_holds ?w (xs @ [i])"
    using R size n i by (simp add: ring_holds_def LOCAL_QUEUE_def)
  moreover have "ring_push i w = (True, ?w)"
    using room by (simp add: ring_push_def has_room_def Let_def)
  ultimately show ?thesis by auto
qed

lemma ring_push_full: "\<not> has_room w \<Longrightarrow> ring_push i w = (False, w)"
  by (simp add: ring_push_def has_room_def)

text \<open>Moving the head past the first cells drops the first ids.\<close>

lemma ring_advance:
  assumes R: "ring_holds w xs" and k: "k \<le> length xs"
  shows "ring_holds (w\<lparr>wk_head := wk_head w + of_nat k\<rparr>) (drop k xs)"
proof -
  let ?w = "w\<lparr>wk_head := wk_head w + of_nat k\<rparr>"
  have len: "ring_size w = length xs" "length xs \<le> 256"
    using R ring_holds_length by (auto simp: ring_holds_def LOCAL_QUEUE_def)
  have "wk_tail w - (wk_head w + of_nat k) = of_nat (length xs - k)"
    using ring_tail [of w] len k by (simp add: of_nat_diff)
  then have size: "ring_size ?w = length xs - k"
    using len by (simp add: ring_size_def unat_of_nat)
  have "ring_cells ?w = drop k (ring_cells w)"
    unfolding ring_cells_def size len(1)
    by (rule nth_equalityI) (use k in \<open>auto simp: ac_simps\<close>)
  with R size len show ?thesis
    by (auto simp: ring_holds_def drop_map LOCAL_QUEUE_def dest: in_set_dropD)
qed

lemma raw_id: "i < MAX_TASK_ID \<Longrightarrow> (of_nat i + 1 :: u32) \<noteq> 0 \<and> unat (of_nat i + 1 :: u32) = Suc i"
proof -
  assume "i < MAX_TASK_ID"
  then have "unat (of_nat i + 1 :: u32) = Suc i"
    by (subst unat_plus_one) (simp_all add: unat_of_nat MAX_TASK_ID_val)
  then show ?thesis by (metis Zero_not_Suc unat_0)
qed

lemma ring_first:
  assumes "ring_holds w (i # xs)"
  shows "wk_head w \<noteq> wk_tail w" "wk_ring w (cell (wk_head w)) = of_nat i + 1"
proof -
  have len: "ring_size w = Suc (length xs)" using ring_holds_length [OF assms] by simp
  then show "wk_head w \<noteq> wk_tail w" by (auto simp: ring_size_def)
  have "ring_cells w ! 0 = of_nat i + 1" using assms by (simp add: ring_holds_def)
  then show "wk_ring w (cell (wk_head w)) = of_nat i + 1"
    using len by (simp add: ring_cells_def del: upt_Suc)
qed

section \<open>Popping\<close>

definition claimable :: "('t, 'v, 'f) table \<Rightarrow> nat \<Rightarrow> bool" where
  "claimable tb i \<longleftrightarrow>
     slot_ok i tb \<and> td_state (tb_mem tb i) \<noteq> Free \<and> td_queued (tb_mem tb i) = QUEUED_LOCAL"

abbreviation unqueue :: "nat \<Rightarrow> ('t, 'v, 'f) table \<Rightarrow> ('t, 'v, 'f) table" where
  "unqueue i tb \<equiv> put_slot i (mark_queued QUEUED_NOWHERE (tb_mem tb i)) tb"

lemma put_slot_same: "put_slot i (tb_mem tb i) tb = tb"
  by (simp add: put_slot_def)

lemma claim_local_eq:
  "claim_local i tb = (if claimable tb i then (True, unqueue i tb) else (False, tb))"
  by (auto simp: claim_local_def claimable_def live_slot_simps claim_queued_def compare_exchange_def
      mark_queued_def put_slot_same)

lemma ring_pop_empty: "ring_holds w [] \<Longrightarrow> ring_pop w tb = Some (None, w, tb)"
proof -
  assume "ring_holds w []"
  then have "wk_head w = wk_tail w" using ring_holds_length ring_tail by fastforce
  then show ?thesis by (subst ring_pop.simps) simp
qed

lemma ring_pop_cons:
  assumes "ring_holds w (i # xs)"
  shows "ring_pop w tb =
    (let w1 = w\<lparr>wk_head := wk_head w + 1\<rparr> in
     if claimable tb i then Some (Some i, w1, unqueue i tb) else ring_pop w1 tb)"
    and "ring_holds (w\<lparr>wk_head := wk_head w + 1\<rparr>) xs"
proof -
  have "i < MAX_TASK_ID" using assms by (simp add: ring_holds_def)
  then show "ring_pop w tb =
    (let w1 = w\<lparr>wk_head := wk_head w + 1\<rparr> in
     if claimable tb i then Some (Some i, w1, unqueue i tb) else ring_pop w1 tb)"
    using ring_first [OF assms] raw_id by (subst ring_pop.simps) (simp add: claim_local_eq Let_def)
  show "ring_holds (w\<lparr>wk_head := wk_head w + 1\<rparr>) xs"
    using ring_advance [OF assms, of 1] by simp
qed

text \<open>A pop steps over what was claimed elsewhere and takes the first that was not.\<close>

lemma ring_pop_spec:
  assumes "ring_holds w xs"
  shows "\<exists>w'. (case dropWhile (\<lambda>i. \<not> claimable tb i) xs of
      [] \<Rightarrow> ring_pop w tb = Some (None, w', tb) \<and> ring_holds w' []
    | i # r \<Rightarrow> ring_pop w tb = Some (Some i, w', unqueue i tb) \<and> ring_holds w' r)"
  using assms
proof (induction xs arbitrary: w)
  case Nil
  then show ?case by (auto simp: ring_pop_empty)
next
  case (Cons i xs)
  show ?case
  proof (cases "claimable tb i")
    case True
    with ring_pop_cons(1) [OF Cons.prems, of tb] ring_pop_cons(2) [OF Cons.prems]
    show ?thesis by (auto simp: Let_def)
  next
    case False
    then have step: "ring_pop w tb = ring_pop (w\<lparr>wk_head := wk_head w + 1\<rparr>) tb"
      using ring_pop_cons(1) [OF Cons.prems, of tb] by (simp add: Let_def)
    from False Cons.IH [OF ring_pop_cons(2) [OF Cons.prems]] show ?thesis unfolding step by simp
  qed
qed

section \<open>The ring as a queue\<close>

definition local_holds :: "worker \<times> ('t, 'v, 'f) table \<Rightarrow> nat list \<Rightarrow> bool" where
  "local_holds s xs \<longleftrightarrow>
     ring_holds (fst s) xs \<and> distinct xs \<and> (\<forall>i \<in> set xs. claimable (snd s) i)"

definition local_accepts :: "nat \<Rightarrow> worker \<times> ('t, 'v, 'f) table \<Rightarrow> bool" where
  "local_accepts i s \<longleftrightarrow>
     has_room (fst s) \<and> claimable (snd s) i \<and> of_nat i + 1 \<notin> set (ring_cells (fst s))"

definition local_push :: "nat \<Rightarrow> worker \<times> ('t, 'v, 'f) table \<Rightarrow> worker \<times> ('t, 'v, 'f) table" where
  "local_push i s = (snd (ring_push i (fst s)), snd s)"

definition local_pop ::
  "worker \<times> ('t, 'v, 'f) table \<Rightarrow> (nat option \<times> worker \<times> ('t, 'v, 'f) table) option" where
  "local_pop s = ring_pop (fst s) (snd s)"

lemma claimable_unqueue: "claimable (unqueue i tb) j \<longleftrightarrow> claimable tb j \<and> j \<noteq> i"
  by (auto simp: claimable_def QUEUED_LOCAL_def QUEUED_NOWHERE_def)

lemma claimable_id: "claimable tb i \<Longrightarrow> i < MAX_TASK_ID"
  by (simp add: claimable_def slot_ok_def)

interpretation ring_queue: fifo local_holds local_accepts local_push local_pop
proof
  fix s :: "worker \<times> ('t, 'v, 'f) table" and xs x
  assume h: "local_holds s xs" and a: "local_accepts x s"
  have "x \<notin> set xs" using h a by (auto simp: local_holds_def local_accepts_def ring_holds_def)
  moreover obtain w' where "ring_push x (fst s) = (True, w')" "ring_holds w' (xs @ [x])"
    using ring_push_holds [of "fst s" xs x] h a claimable_id
    by (auto simp: local_holds_def local_accepts_def)
  ultimately show "local_holds (local_push x s) (xs @ [x])"
    using h a by (auto simp: local_holds_def local_push_def local_accepts_def)
next
  fix s :: "worker \<times> ('t, 'v, 'f) table"
  assume "local_holds s []"
  then show "\<exists>s'. local_pop s = Some (None, s') \<and> local_holds s' []"
    by (auto simp: local_holds_def local_pop_def ring_pop_empty)
next
  fix s :: "worker \<times> ('t, 'v, 'f) table" and x xs
  assume h: "local_holds s (x # xs)"
  then have R: "ring_holds (fst s) (x # xs)" and c: "claimable (snd s) x" by (auto simp: local_holds_def)
  from h c ring_pop_cons(1) [OF R, of "snd s"] ring_pop_cons(2) [OF R]
  show "\<exists>s'. local_pop s = Some (Some x, s') \<and> local_holds s' xs"
    by (auto simp: local_holds_def local_pop_def Let_def claimable_unqueue)
qed

section \<open>Stealing\<close>

lemma steal_ids_fit:
  assumes "ring_holds thief ys" "length ys + length xs \<le> LOCAL_QUEUE" "\<forall>i \<in> set xs. i < MAX_TASK_ID"
  shows "\<exists>thief'. steal_ids (map (\<lambda>i. of_nat i + 1) xs) thief ij tb = (length xs, thief', ij, tb, []) \<and>
    ring_holds thief' (ys @ xs) \<and> wk_slot thief' = wk_slot thief \<and> wk_lifo thief' = wk_lifo thief"
  using assms
proof (induction xs arbitrary: thief ys)
  case Nil
  then show ?case by simp
next
  case (Cons i xs)
  have "has_room thief"
    using Cons.prems(2) ring_holds_length [OF Cons.prems(1)] by (simp add: has_room_def ring_size_def)
  then obtain t1 where p: "ring_push i thief = (True, t1)" "ring_holds t1 (ys @ [i])"
    "wk_slot t1 = wk_slot thief" "wk_lifo t1 = wk_lifo thief"
    using ring_push_holds [OF Cons.prems(1)] Cons.prems(3) by auto
  with Cons.IH [OF p(2)] Cons.prems(2,3) raw_id [of i] show ?case by (auto simp: Let_def)
qed

text \<open>A thief with room takes the oldest half and leaves the rest.\<close>

lemma steal_into_fit:
  assumes V: "ring_holds victim xs" and T: "ring_holds thief ys"
    and room: "length ys + steal_count victim \<le> LOCAL_QUEUE"
  shows "\<exists>victim' thief'.
    steal_into victim thief ij tb = (steal_count victim, victim', thief', ij, tb, []) \<and>
    ring_holds victim' (drop (steal_count victim) xs) \<and>
    ring_holds thief' (ys @ take (steal_count victim) xs)"
proof -
  let ?k = "steal_count victim"
  have len: "ring_size victim = length xs" by (rule ring_holds_length [OF V])
  have k: "?k \<le> length xs" "?k = 0 \<longleftrightarrow> xs = []"
    using len by (auto simp: steal_count_def ring_size_def Let_def LOCAL_QUEUE_def min_def max_def Suc_le_eq)
  show ?thesis
  proof (cases "?k = 0")
    case True
    with V T show ?thesis by (simp add: steal_into_def Let_def)
  next
    case False
    have "map (\<lambda>o'. wk_ring victim (cell (wk_head victim + of_nat o'))) [0..<?k] = take ?k (ring_cells victim)"
      by (simp add: ring_cells_def len take_map k(1) min_def)
    then have ids: "map (\<lambda>o'. wk_ring victim (cell (wk_head victim + of_nat o'))) [0..<?k] =
        map (\<lambda>i. of_nat i + 1) (take ?k xs)"
      using V by (simp add: ring_holds_def take_map)
    have "\<forall>i \<in> set (take ?k xs). i < MAX_TASK_ID" using V by (auto simp: ring_holds_def dest: in_set_takeD)
    moreover have "length ys + length (take ?k xs) \<le> LOCAL_QUEUE" using room k by simp
    ultimately obtain thief' where
      "steal_ids (map (\<lambda>i. of_nat i + 1) (take ?k xs)) thief ij tb = (?k, thief', ij, tb, [])"
      "ring_holds thief' (ys @ take ?k xs)"
      using steal_ids_fit [OF T, where xs = "take ?k xs" and ij = ij and tb = tb] k by (auto simp: min_def)
    with False ids ring_advance [OF V k(1)] show ?thesis
      by (auto simp: steal_into_def Let_def)
  qed
qed

section \<open>Recovering a worker\<close>

lemma take_nested_ids:
  "distinct ks \<Longrightarrow> fst (take_nested ks w) =
     map (\<lambda>k. wk_nested w k - 1) (filter (\<lambda>k. wk_nested w k \<noteq> 0) ks)"
proof (induction ks arbitrary: w)
  case (Cons k ks)
  have "map (\<lambda>j. ((wk_nested w)(k := 0)) j - 1) (filter (\<lambda>j. ((wk_nested w)(k := 0)) j \<noteq> 0) ks) =
    map (\<lambda>j. wk_nested w j - 1) (filter (\<lambda>j. wk_nested w j \<noteq> 0) ks)"
    using Cons.prems by (auto intro!: map_cong filter_cong)
  with Cons.IH [of "w\<lparr>wk_nested := (wk_nested w)(k := 0)\<rparr>"] Cons.prems show ?case
    by (simp add: Let_def case_prod_beta del: fun_upd_apply)
qed simp

lemma take_nested_left:
  "snd (take_nested ks w) = w\<lparr>wk_nested := (\<lambda>k. if k \<in> set ks then 0 else wk_nested w k)\<rparr>"
proof (induction ks arbitrary: w)
  case (Cons k ks)
  have "(\<lambda>j. if j \<in> set ks then 0 else ((wk_nested w)(k := 0)) j) =
      (\<lambda>j. if j \<in> set (k # ks) then 0 else wk_nested w j)" by auto
  with Cons.IH [of "w\<lparr>wk_nested := (wk_nested w)(k := 0)\<rparr>"] show ?case
    by (simp add: Let_def case_prod_beta del: fun_upd_apply list.set(2) cong: if_cong)
qed simp

lemma claimable_fold:
  "claimable (fold (\<lambda>i tb. unqueue i tb) is tb) j \<longleftrightarrow> claimable tb j \<and> j \<notin> set is"
  by (induction "is" arbitrary: tb) (auto simp: claimable_unqueue)

lemma pop_all_spec:
  assumes "ring_holds w xs" "distinct xs"
  shows "\<exists>w'. pop_all ids w tb =
      Some (ids @ filter (claimable tb) xs, w', fold (\<lambda>i tb. unqueue i tb) (filter (claimable tb) xs) tb) \<and>
    ring_holds w' [] \<and> wk_slot w' = wk_slot w \<and> wk_lifo w' = wk_lifo w"
  using assms
proof (induction xs arbitrary: w tb ids)
  case Nil
  then show ?case by (subst pop_all.simps) (simp add: ring_pop_empty)
next
  case (Cons i xs)
  let ?w = "w\<lparr>wk_head := wk_head w + 1\<rparr>"
  note pop = ring_pop_cons [OF Cons.prems(1)]
  have d: "distinct xs" "i \<notin> set xs" using Cons.prems(2) by simp_all
  show ?case
  proof (cases "claimable tb i")
    case True
    have same: "filter (claimable (unqueue i tb)) xs = filter (claimable tb) xs"
      using d by (intro filter_cong) (auto simp: claimable_unqueue)
    have "pop_all ids w tb = pop_all (ids @ [i]) ?w (unqueue i tb)"
      using True pop(1) [of tb] by (subst pop_all.simps) (simp add: Let_def)
    with Cons.IH [OF pop(2) d(1), of "ids @ [i]" "unqueue i tb"] True same show ?thesis by auto
  next
    case False
    then have "ring_pop w tb = ring_pop ?w tb"
      using pop(1) [of tb] by (simp add: Let_def)
    then have "pop_all ids w tb = pop_all ids ?w tb"
      by (simp add: pop_all.simps [of ids w] pop_all.simps [of ids ?w])
    with Cons.IH [OF pop(2) d(1), of ids tb] False show ?thesis by auto
  qed
qed

lemma ring_holds_frame [simp]:
  "ring_holds (w\<lparr>wk_slot := ts\<rparr>) = ring_holds w" "ring_holds (w\<lparr>wk_nested := f\<rparr>) = ring_holds w"
  "ring_holds (w\<lparr>wk_lifo := l\<rparr>) = ring_holds w"
  by (simp_all add: ring_holds_def ring_size_def ring_cells_def fun_eq_iff)

text \<open>The tasks a worker notes it is running, in its loop and while helping.\<close>

definition held_ids :: "worker \<Rightarrow> nat list" where
  "held_ids w =
     (if ts_current (wk_slot w) = 0 then [] else [ts_current (wk_slot w) - 1]) @
     map (\<lambda>k. wk_nested w k - 1) (filter (\<lambda>k. wk_nested w k \<noteq> 0) [0..<HELP_DEPTH])"

lemma recover_worker_spec:
  assumes "ring_holds w xs" "distinct xs" "ts_current (wk_slot w) \<le> NO_TASK"
  shows "\<exists>w'. recover_worker w tb =
      Some (filter (claimable tb) xs, held_ids w, w',
        fold (\<lambda>i tb. unqueue i tb) (filter (claimable tb) xs) tb) \<and>
    ring_holds w' [] \<and> wk_lifo w' = wk_lifo w"
proof -
  let ?w = "snd (take_nested [0..<HELP_DEPTH] (w\<lparr>wk_slot := snd (take_held (wk_slot w))\<rparr>))"
  have "ring_holds ?w xs" "wk_lifo ?w = wk_lifo w" using assms(1) by (simp_all add: take_nested_left)
  with pop_all_spec [OF this(1) assms(2), of "[]" tb] obtain w' where
    "pop_all [] ?w tb =
      Some (filter (claimable tb) xs, w', fold (\<lambda>i tb. unqueue i tb) (filter (claimable tb) xs) tb)"
    "ring_holds w' []" "wk_lifo w' = wk_lifo w" by auto
  moreover have "ts_current (wk_slot w) - 1 \<noteq> NO_TASK" if "ts_current (wk_slot w) \<noteq> 0"
    using that assms(3) by simp
  ultimately show ?thesis
    by (auto simp: recover_worker_def take_held_def held_ids_def case_prod_beta Let_def take_nested_ids)
qed

section \<open>Properties\<close>

text \<open>
  C13: a worker's ring is first in, first out over any history of pushes that found room and
  pops, however often its 32 bit ends have wrapped: what has come out followed by what is left
  is what was there at first followed by what was pushed, and every pop returns.
\<close>
theorem ring_in_order:
  assumes "local_holds s xs" "queue_valid local_accepts local_push local_pop ops s"
  shows "\<exists>out s' rest. queue_run local_push local_pop ops s = Some (out, s') \<and>
    local_holds s' rest \<and> out @ rest = xs @ added ops \<and> length rest \<le> LOCAL_QUEUE"
proof -
  obtain out s' rest where r: "queue_run local_push local_pop ops s = Some (out, s')"
    "local_holds s' rest" "out @ rest = xs @ added ops"
    using ring_queue.in_order [OF assms] by blast
  moreover have "length rest \<le> LOCAL_QUEUE"
    using r(2) ring_holds_length by (fastforce simp: local_holds_def ring_holds_def)
  ultimately show ?thesis by blast
qed

text \<open>A ring whose ends are about to wrap.\<close>

definition ex_ring :: worker where
  "ex_ring = worker_new\<lparr>wk_head := - 1, wk_tail := - 1\<rparr>"

definition ex_local :: "(nat, nat, nat) table" where
  "ex_local =
     ex_table\<lparr>tb_mem := (\<lambda>i. mark_queued QUEUED_LOCAL (tb_mem ex_table i))\<rparr>"

lemma ex_ring_holds: "ring_holds ex_ring []"
  by (simp add: ring_holds_def ex_ring_def ring_size_def ring_cells_def)

lemma ex_local_claimable: "i < 3 \<Longrightarrow> claimable ex_local i"
  by (simp add: claimable_def ex_local_def ex_table_def slot_ok_def position_first MAX_TASK_ID_val ex_task_def)

theorem ring_in_order_witness:
  "\<exists>out s' rest. queue_run local_push local_pop [Enq 1, Enq 2, Deq] (ex_ring, ex_local) = Some (out, s') \<and>
    local_holds s' rest \<and> out @ rest = [1, 2]"
proof -
  have h: "local_holds (ex_ring, ex_local) []" using ex_ring_holds by (simp add: local_holds_def)
  obtain w1 where w1: "ring_push 1 ex_ring = (True, w1)" "ring_holds w1 [1]"
    using ring_push_holds [OF ex_ring_holds, of 1]
    by (auto simp: has_room_def ex_ring_def LOCAL_QUEUE_def MAX_TASK_ID_val)
  have "local_accepts 1 (ex_ring, ex_local)"
    using ex_local_claimable by (simp add: local_accepts_def has_room_def ex_ring_def LOCAL_QUEUE_def
        ring_cells_def ring_size_def)
  moreover have "local_accepts 2 (w1, ex_local)"
    using w1(2) ring_holds_length [OF w1(2)] ex_local_claimable
    by (simp add: local_accepts_def has_room_def LOCAL_QUEUE_def ring_size_def ring_holds_def)
  ultimately have "queue_valid local_accepts local_push local_pop [Enq 1, Enq 2, Deq] (ex_ring, ex_local)"
    using w1(1) by (simp add: local_push_def split: option.splits)
  with ring_in_order [OF h] show ?thesis by fastforce
qed

text \<open>
  a steal moves the older half of the victim's ring, at least one and at most half a
  ring, onto the end of the thief's in the same order, and leaves the rest where it was. No
  task is lost, run twice or failed on the way.
\<close>
theorem steal_takes_half:
  assumes "ring_holds victim xs" "ring_holds thief ys" "length ys + steal_count victim \<le> LOCAL_QUEUE"
  shows "\<exists>victim' thief'.
    steal_into victim thief ij tb = (steal_count victim, victim', thief', ij, tb, []) \<and>
    ring_holds victim' (drop (steal_count victim) xs) \<and>
    ring_holds thief' (ys @ take (steal_count victim) xs) \<and>
    (xs \<noteq> [] \<longrightarrow> 0 < steal_count victim \<and> steal_count victim \<le> max 1 (length xs div 2))"
proof -
  have "unat (wk_tail victim - wk_head victim) = length xs"
    using ring_holds_length [OF assms(1)] by (simp add: ring_size_def)
  then have "xs \<noteq> [] \<longrightarrow> 0 < steal_count victim \<and> steal_count victim \<le> max 1 (length xs div 2)"
    by (auto simp: steal_count_def Let_def LOCAL_QUEUE_def)
  with steal_into_fit [OF assms] show ?thesis by blast
qed

theorem steal_takes_half_witness:
  "\<exists>victim' thief'.
     steal_into (snd (ring_push 2 (snd (ring_push 1 ex_ring)))) worker_new injector_new ex_local =
       (1, victim', thief', injector_new, ex_local, []) \<and>
     ring_holds victim' [2] \<and> ring_holds thief' [1]"
proof -
  have "ring_holds (snd (ring_push 1 ex_ring)) [1]"
    using ring_push_holds [OF ex_ring_holds, of 1]
    by (auto simp: has_room_def ex_ring_def LOCAL_QUEUE_def MAX_TASK_ID_val)
  moreover from this have "has_room (snd (ring_push 1 ex_ring))"
    using ring_holds_length by (fastforce simp: has_room_def ring_size_def LOCAL_QUEUE_def)
  ultimately have v: "ring_holds (snd (ring_push 2 (snd (ring_push 1 ex_ring)))) [1, 2]" (is "ring_holds ?v _")
    using ring_push_holds [of "snd (ring_push 1 ex_ring)" "[1]" 2] by (auto simp: MAX_TASK_ID_val)
  have c: "steal_count ?v = 1"
    using ring_holds_length [OF v] by (simp add: steal_count_def ring_size_def LOCAL_QUEUE_def)
  have "ring_holds worker_new []" by (simp add: ring_holds_def worker_new_def ring_size_def ring_cells_def)
  with steal_takes_half [OF v this, of injector_new ex_local] c show ?thesis
    by (auto simp: LOCAL_QUEUE_def)
qed

text \<open>
  recovering a worker that went down accounts for everything it had: every task still
  waiting in its ring comes back as runnable, once and in order, and every task it was
  running, in its loop or while helping, comes back as stranded. The ring is left empty.
\<close>
theorem recover_accounts_for_all:
  assumes "ring_holds w xs" "distinct xs" "ts_current (wk_slot w) \<le> NO_TASK"
  shows "\<exists>w' tb'. recover_worker w tb = Some (filter (claimable tb) xs, held_ids w, w', tb') \<and>
    ring_holds w' [] \<and> (\<forall>i. claimable tb' i \<longleftrightarrow> claimable tb i \<and> i \<notin> set xs)"
proof -
  have "claimable (fold (\<lambda>i tb. unqueue i tb) (filter (claimable tb) xs) tb) i \<longleftrightarrow>
      claimable tb i \<and> i \<notin> set xs" for i by (auto simp: claimable_fold)
  with recover_worker_spec [OF assms, of tb] show ?thesis by blast
qed

theorem recover_accounts_for_all_witness:
  "\<exists>w' tb'. recover_worker (worker_new\<lparr>wk_slot := hold 7 thread_slot_new, wk_nested := (\<lambda>_. 0)(3 := 9)\<rparr>) ex_local =
      Some ([], [7, 8], w', tb') \<and> ring_holds w' []"
proof -
  let ?w = "worker_new\<lparr>wk_slot := hold 7 thread_slot_new, wk_nested := (\<lambda>_. 0)(3 := 9)\<rparr>"
  have "ring_holds ?w []" by (simp add: ring_holds_def worker_new_def ring_size_def ring_cells_def)
  moreover have "filter (\<lambda>k. wk_nested ?w k \<noteq> 0) [0..<HELP_DEPTH] = [3]"
    by (simp add: HELP_DEPTH_def upt_rec numeral_eq_Suc)
  ultimately show ?thesis
    using recover_accounts_for_all [of ?w "[]" ex_local] by (auto simp: hold_def NO_TASK_def held_ids_def)
qed

end
