(* ===== verification/Pool.thy ===== *)
theory Pool
  imports Workers
begin

text \<open>
  \<open>src/modules/worker_pool.rs\<close> with \<open>tuning.rs\<close>: every worker and sleep thread, the
  queues they pull from, and the policy the manager applies to them on every tick.

  \<open>machine\<close> holds what the pool asks of its surroundings: the kernel's count of cores and
  of threads a process may hold, whether the n-th attempt to start a thread succeeds (a
  refusal by the kernel or by a fault a test asked for), whether a thread is waiting in the
  kernel, what the kernel does with pages, the sizes the runtime was started with, and whether
  the executor's manager is up. The task table the queues link through is \<open>pl_table\<close>. The
  ids handed to \<open>executor::fail\<close> are collected in \<open>pl_failed\<close>, in order. A count of calls
  is a natural number where the source has a \<open>usize\<close> that only ever counts threads.

  Operations that pop from a queue are in the option monad, since a pop may not return from a
  circular queue.
\<close>

section \<open>Sizes\<close>

record tuning =
  tn_workers_per_core :: nat
  tn_sleep_threads_per_core :: nat
  tn_worker_stack :: nat

definition tuning_new :: tuning where
  "tuning_new =
     \<lparr>tn_workers_per_core = WORKER_MULTIPLIER, tn_sleep_threads_per_core = SLEEP_MULTIPLIER,
      tn_worker_stack = WORKER_STACK\<rparr>"

definition set_workers_per_core :: "nat \<Rightarrow> tuning \<Rightarrow> tuning" where
  "set_workers_per_core n t = t\<lparr>tn_workers_per_core := n\<rparr>"

definition set_sleep_threads_per_core :: "nat \<Rightarrow> tuning \<Rightarrow> tuning" where
  "set_sleep_threads_per_core n t = t\<lparr>tn_sleep_threads_per_core := n\<rparr>"

definition set_worker_stack :: "nat \<Rightarrow> tuning \<Rightarrow> tuning" where
  "set_worker_stack bytes t = t\<lparr>tn_worker_stack := bytes\<rparr>"

definition tuning_check :: "tuning \<Rightarrow> unit res" where
  "tuning_check t =
     (if tn_workers_per_core t = 0 \<or> tn_sleep_threads_per_core t = 0 \<or>
         tn_worker_stack t < MIN_WORKER_STACK
      then Inl BadArgument else Inr ())"

record machine =
  mc_online :: int
  mc_taskthreads :: "int option"
  mc_tuning :: tuning
  mc_spawn :: "nat \<Rightarrow> bool"
  mc_in_wait :: "u32 \<Rightarrow> bool"
  mc_manager :: bool
  mc_page :: nat
  mc_freed :: "nat \<Rightarrow> bool"
  mc_zeroes :: "nat \<Rightarrow> bool"
  mc_granted :: "nat \<Rightarrow> bool"

definition cores :: "machine \<Rightarrow> nat" where
  "cores mc = (if mc_online mc < 1 then 1 else nat (mc_online mc))"

definition thread_budget :: "machine \<Rightarrow> nat" where
  "thread_budget mc =
     (case mc_taskthreads mc of
        Some threads \<Rightarrow> if threads > 0 then nat threads else MAX_WORKERS + THREAD_RESERVE
      | None \<Rightarrow> MAX_WORKERS + THREAD_RESERVE)"

definition pool_floor :: "machine \<Rightarrow> nat" where
  "pool_floor mc = cores mc"

definition clamp :: "nat \<Rightarrow> nat \<Rightarrow> nat \<Rightarrow> nat" where
  "clamp lo hi v = (if v < lo then lo else if v > hi then hi else v)"

definition ceiling :: "machine \<Rightarrow> nat" where
  "ceiling mc = clamp (pool_floor mc) MAX_WORKERS (thread_budget mc - THREAD_RESERVE)"

text \<open>Products of sizes wrap at 64 bits, as they do in a release build.\<close>

definition pool_target :: "machine \<Rightarrow> nat" where
  "pool_target mc = min (cores mc * tn_workers_per_core (mc_tuning mc) mod 2 ^ 64) (ceiling mc)"

definition sleep_target :: "machine \<Rightarrow> nat" where
  "sleep_target mc =
     min (cores mc * tn_sleep_threads_per_core (mc_tuning mc) mod 2 ^ 64) (ceiling mc)"

definition idle_ticks :: u32 where
  "idle_ticks = of_nat (IDLE_REAP div max MANAGER_TICK 1)"

definition over_ticks :: u32 where
  "over_ticks = of_nat (max (IDLE_REAP_OVER div max MANAGER_TICK 1) 1)"

definition LOCAL_REFILL :: nat where
  "LOCAL_REFILL = LOCAL_QUEUE div 4"

definition earned :: "bool \<Rightarrow> nat \<Rightarrow> u32 \<Rightarrow> bool \<times> u32" where
  "earned overloaded over ticks =
     (if \<not> overloaded then (False, 0)
      else
        (let held = unat ticks + 1 in
         if held < over + 2 then (False, ticks + 1) else (True, 0)))"

definition raise :: "nat \<Rightarrow> nat \<Rightarrow> nat" where
  "raise limit bound = (if limit > bound then limit else bound)"

section \<open>The pool\<close>

record ('t, 'v, 'f) pool =
  pl_workers :: "nat \<Rightarrow> worker"
  pl_injector :: injector
  pl_sleeps :: "nat \<Rightarrow> sleep_thread"
  pl_blocking :: injector
  pl_live :: nat
  pl_sleeps_live :: nat
  pl_sleeps_highest :: nat
  pl_sleeps_parked :: u32
  pl_highest :: nat
  pl_parked :: u32
  pl_stopped :: bool
  pl_trim_ticks :: u32
  pl_wake :: nat
  pl_sweep :: nat
  pl_peak_workers :: nat
  pl_peak_sleeps :: nat
  pl_overloaded :: u32
  pl_sleeps_overloaded :: u32
  pl_starving :: bool
  pl_dead :: nat
  pl_deaths :: nat
  pl_storm_started :: u64
  pl_storm_deaths :: u32
  pl_blocked :: nat
  pl_lifo_filled :: int
  pl_table :: "('t, 'v, 'f) table"
  pl_spawns :: nat
  pl_failed :: "nat list"

definition pool_new :: "('t, 'v, 'f) pool" where
  "pool_new =
     \<lparr>pl_workers = (\<lambda>_. worker_new), pl_injector = injector_new, pl_sleeps = (\<lambda>_. sleep_new),
      pl_blocking = injector_new, pl_live = 0, pl_sleeps_live = 0, pl_sleeps_highest = 0,
      pl_sleeps_parked = 0, pl_highest = 0, pl_parked = 0, pl_stopped = True, pl_trim_ticks = 0,
      pl_wake = 0, pl_sweep = 0, pl_peak_workers = 0, pl_peak_sleeps = 0, pl_overloaded = 0,
      pl_sleeps_overloaded = 0, pl_starving = False, pl_dead = 0, pl_deaths = 0,
      pl_storm_started = 0, pl_storm_deaths = 0, pl_blocked = 0, pl_lifo_filled = 0,
      pl_table = table_new, pl_spawns = 0, pl_failed = []\<rparr>"

definition put_worker :: "nat \<Rightarrow> worker \<Rightarrow> ('t, 'v, 'f) pool \<Rightarrow> ('t, 'v, 'f) pool" where
  "put_worker k w p = p\<lparr>pl_workers := (pl_workers p)(k := w)\<rparr>"

definition put_sleep :: "nat \<Rightarrow> sleep_thread \<Rightarrow> ('t, 'v, 'f) pool \<Rightarrow> ('t, 'v, 'f) pool" where
  "put_sleep k s p = p\<lparr>pl_sleeps := (pl_sleeps p)(k := s)\<rparr>"

definition fail_task :: "nat \<Rightarrow> ('t, 'v, 'f) pool \<Rightarrow> ('t, 'v, 'f) pool" where
  "fail_task i p = p\<lparr>pl_failed := pl_failed p @ [i]\<rparr>"

abbreviation worker_state :: "('t, 'v, 'f) pool \<Rightarrow> nat \<Rightarrow> worker_state" where
  "worker_state p k \<equiv> ts_state (wk_slot (pl_workers p k))"

abbreviation sleep_state :: "('t, 'v, 'f) pool \<Rightarrow> nat \<Rightarrow> worker_state" where
  "sleep_state p k \<equiv> ts_state (sl_slot (pl_sleeps p k))"

definition on_worker_slot :: "nat \<Rightarrow> (thread_slot \<Rightarrow> thread_slot) \<Rightarrow> ('t, 'v, 'f) pool \<Rightarrow> ('t, 'v, 'f) pool" where
  "on_worker_slot k f p =
     put_worker k ((pl_workers p k)\<lparr>wk_slot := f (wk_slot (pl_workers p k))\<rparr>) p"

definition on_sleep_slot :: "nat \<Rightarrow> (thread_slot \<Rightarrow> thread_slot) \<Rightarrow> ('t, 'v, 'f) pool \<Rightarrow> ('t, 'v, 'f) pool" where
  "on_sleep_slot k f p =
     put_sleep k ((pl_sleeps p k)\<lparr>sl_slot := f (sl_slot (pl_sleeps p k))\<rparr>) p"

section \<open>Counting threads\<close>

definition left :: "('t, 'v, 'f) pool \<Rightarrow> ('t, 'v, 'f) pool" where
  "left p = p\<lparr>pl_live := pl_live p - 1\<rparr>"

definition sleep_left :: "('t, 'v, 'f) pool \<Rightarrow> ('t, 'v, 'f) pool" where
  "sleep_left p = p\<lparr>pl_sleeps_live := pl_sleeps_live p - 1\<rparr>"

definition parked_in :: "('t, 'v, 'f) pool \<Rightarrow> ('t, 'v, 'f) pool" where
  "parked_in p = p\<lparr>pl_parked := pl_parked p + 1\<rparr>"

definition parked_out :: "('t, 'v, 'f) pool \<Rightarrow> ('t, 'v, 'f) pool" where
  "parked_out p = p\<lparr>pl_parked := pl_parked p - 1\<rparr>"

definition sleep_parked_in :: "('t, 'v, 'f) pool \<Rightarrow> ('t, 'v, 'f) pool" where
  "sleep_parked_in p = p\<lparr>pl_sleeps_parked := pl_sleeps_parked p + 1\<rparr>"

definition sleep_parked_out :: "('t, 'v, 'f) pool \<Rightarrow> ('t, 'v, 'f) pool" where
  "sleep_parked_out p = p\<lparr>pl_sleeps_parked := pl_sleeps_parked p - 1\<rparr>"

definition blocked_in :: "('t, 'v, 'f) pool \<Rightarrow> ('t, 'v, 'f) pool" where
  "blocked_in p = p\<lparr>pl_blocked := pl_blocked p + 1\<rparr>"

definition blocked_out :: "('t, 'v, 'f) pool \<Rightarrow> ('t, 'v, 'f) pool" where
  "blocked_out p = p\<lparr>pl_blocked := pl_blocked p - 1\<rparr>"

definition all_blocked :: "('t, 'v, 'f) pool \<Rightarrow> bool" where
  "all_blocked p \<longleftrightarrow> pl_blocked p \<ge> pl_live p"

definition has_queued_work :: "('t, 'v, 'f) pool \<Rightarrow> bool" where
  "has_queued_work p \<longleftrightarrow>
     \<not> injector_is_empty (pl_injector p) \<or>
     list_ex (\<lambda>k. backlog (pl_workers p k) > 0) [0..<pl_highest p]"

definition pool_close :: "('t, 'v, 'f) pool \<Rightarrow> ('t, 'v, 'f) pool" where
  "pool_close p = p\<lparr>pl_stopped := True\<rparr>"

definition pool_open :: "('t, 'v, 'f) pool \<Rightarrow> ('t, 'v, 'f) pool" where
  "pool_open p = p\<lparr>pl_stopped := False\<rparr>"

section \<open>Starting threads\<close>

function start_sleep_loop ::
  "machine \<Rightarrow> nat \<Rightarrow> nat \<Rightarrow> nat \<Rightarrow> ('t, 'v, 'f) pool \<Rightarrow> bool \<times> ('t, 'v, 'f) pool" where
  "start_sleep_loop mc limit index claimed p =
     (if index < min (max (pl_sleeps_highest p + 1) claimed) MAX_WORKERS then
        (let s = pl_sleeps p index; index1 = index + 1 in
         if \<not> pl_sleeps_live p < limit then (False, p)
         else
           (let p1 = p\<lparr>pl_sleeps_live := pl_sleeps_live p + 1\<rparr>;
                (mine, ts) = slot_claim (sl_slot s) in
            if \<not> mine then start_sleep_loop mc limit index1 (index1 + 1) (sleep_left p1)
            else
              (let p2 = p1\<lparr>pl_sleeps_highest := raise index1 (pl_sleeps_highest p1)\<rparr>;
                   (ok, s1) = sleep_start (mc_spawn mc (pl_spawns p2)) (s\<lparr>sl_slot := ts\<rparr>);
                   p3 = put_sleep index s1 (p2\<lparr>pl_spawns := pl_spawns p2 + 1\<rparr>) in
               if \<not> ok then start_sleep_loop mc limit index1 claimed (sleep_left p3)
               else (True, p3\<lparr>pl_peak_sleeps := raise (pl_sleeps_live p3) (pl_peak_sleeps p3)\<rparr>))))
      else (False, p))"
  by auto
termination
  by (relation "measure (\<lambda>(mc, limit, index, claimed, p). MAX_WORKERS - index)") auto

declare start_sleep_loop.simps [simp del]

definition start_sleep :: "machine \<Rightarrow> nat \<Rightarrow> ('t, 'v, 'f) pool \<Rightarrow> bool \<times> ('t, 'v, 'f) pool" where
  "start_sleep mc limit p =
     (let limit = min limit (ceiling mc) in
      if pl_stopped p \<or> pl_sleeps_live p \<ge> limit then (False, p)
      else start_sleep_loop mc limit 0 0 p)"

datatype start_reason = Floor | Grow | Replace

function start_one_loop ::
  "machine \<Rightarrow> nat \<Rightarrow> nat \<Rightarrow> nat \<Rightarrow> ('t, 'v, 'f) pool \<Rightarrow> bool \<times> ('t, 'v, 'f) pool" where
  "start_one_loop mc limit index claimed p =
     (if index < min (max (pl_highest p + 1) claimed) MAX_WORKERS then
        (let w = pl_workers p index; index1 = index + 1 in
         if \<not> pl_live p < limit then (False, p)
         else
           (let p1 = p\<lparr>pl_live := pl_live p + 1\<rparr>;
                (mine, ts) = slot_claim (wk_slot w) in
            if \<not> mine then start_one_loop mc limit index1 (index1 + 1) (left p1)
            else
              (let p2 = p1\<lparr>pl_highest := raise index1 (pl_highest p1)\<rparr>;
                   (ok, w1) = worker_start (mc_spawn mc (pl_spawns p2)) (w\<lparr>wk_slot := ts\<rparr>);
                   p3 = put_worker index w1 (p2\<lparr>pl_spawns := pl_spawns p2 + 1\<rparr>) in
               if \<not> ok then start_one_loop mc limit index1 claimed (left p3)
               else (True, p3\<lparr>pl_peak_workers := raise (pl_live p3) (pl_peak_workers p3)\<rparr>))))
      else (False, p))"
  by auto
termination
  by (relation "measure (\<lambda>(mc, limit, index, claimed, p). MAX_WORKERS - index)") auto

declare start_one_loop.simps [simp del]

definition start_limit :: "machine \<Rightarrow> start_reason \<Rightarrow> nat" where
  "start_limit mc start = (case start of Floor \<Rightarrow> pool_target mc | _ \<Rightarrow> ceiling mc)"

definition start_one :: "machine \<Rightarrow> start_reason \<Rightarrow> ('t, 'v, 'f) pool \<Rightarrow> bool \<times> ('t, 'v, 'f) pool" where
  "start_one mc start p =
     (let limit = start_limit mc start in
      if pl_stopped p \<or> pl_live p \<ge> limit then (False, p)
      else start_one_loop mc limit 0 0 p)"

text \<open>\<open>ensure_floor\<close> starts one worker at a time; every success raises the count, so it ends.\<close>

fun floor_loop :: "nat \<Rightarrow> machine \<Rightarrow> ('t, 'v, 'f) pool \<Rightarrow> ('t, 'v, 'f) pool" where
  "floor_loop 0 mc p = p"
| "floor_loop (Suc n) mc p =
     (if pl_live p < pool_floor mc then
        (let (ok, p1) = start_one mc Floor p in if ok then floor_loop n mc p1 else p1)
      else p)"

definition ensure_floor :: "machine \<Rightarrow> ('t, 'v, 'f) pool \<Rightarrow> ('t, 'v, 'f) pool" where
  "ensure_floor mc p =
     (if pl_stopped p then p else floor_loop (pool_floor mc - pl_live p) mc p)"

section \<open>Waking threads\<close>

fun wake_workers :: "nat list \<Rightarrow> ('t, 'v, 'f) pool \<Rightarrow> bool \<times> ('t, 'v, 'f) pool" where
  "wake_workers [] p = (False, p)"
| "wake_workers (k # ks) p =
     (if worker_state p k = Parked \<and> fst (wake_slot (wk_slot (pl_workers p k)))
      then (True, on_worker_slot k (\<lambda>ts. snd (wake_slot ts)) p)
      else wake_workers ks p)"

definition rotation :: "nat \<Rightarrow> nat \<Rightarrow> nat list" where
  "rotation start n = map (\<lambda>offset. (start + offset) mod n) [0..<n]"

definition wake_one :: "('t, 'v, 'f) pool \<Rightarrow> bool \<times> ('t, 'v, 'f) pool" where
  "wake_one p =
     (if pl_highest p = 0 then (False, p)
      else wake_workers (rotation (pl_wake p) (pl_highest p)) (p\<lparr>pl_wake := pl_wake p + 1\<rparr>))"

fun wake_sleeps :: "nat list \<Rightarrow> ('t, 'v, 'f) pool \<Rightarrow> bool \<times> ('t, 'v, 'f) pool" where
  "wake_sleeps [] p = (False, p)"
| "wake_sleeps (k # ks) p =
     (if sleep_state p k = Parked \<and> fst (wake_slot (sl_slot (pl_sleeps p k)))
      then (True, on_sleep_slot k (\<lambda>ts. snd (wake_slot ts)) p)
      else wake_sleeps ks p)"

definition wake_sleep :: "('t, 'v, 'f) pool \<Rightarrow> bool \<times> ('t, 'v, 'f) pool" where
  "wake_sleep p =
     (if pl_sleeps_highest p = 0 then (False, p)
      else wake_sleeps (rotation (pl_wake p) (pl_sleeps_highest p)) (p\<lparr>pl_wake := pl_wake p + 1\<rparr>))"

section \<open>Clearing up after dead threads\<close>

definition note_death :: "nat \<Rightarrow> ('t, 'v, 'f) pool \<Rightarrow> ('t, 'v, 'f) pool" where
  "note_death elapsed p =
     (let p1 = p\<lparr>pl_dead := pl_dead p + 1, pl_deaths := pl_deaths p + 1\<rparr>;
          now = of_nat elapsed + 1; began = pl_storm_started p1 in
      if began = 0 \<or> saturating_sub now began > of_nat RESTART_WINDOW
      then p1\<lparr>pl_storm_started := now, pl_storm_deaths := 1\<rparr>
      else p1\<lparr>pl_storm_deaths := pl_storm_deaths p1 + 1\<rparr>)"

definition recovered :: "('t, 'v, 'f) pool \<Rightarrow> ('t, 'v, 'f) pool" where
  "recovered p = p\<lparr>pl_dead := pl_dead p - 1\<rparr>"

definition largest_pool :: "machine \<Rightarrow> ('t, 'v, 'f) pool \<Rightarrow> nat" where
  "largest_pool mc p = max (max (pl_peak_workers p + pl_peak_sleeps p) (pool_floor mc)) 1"

definition in_a_storm :: "machine \<Rightarrow> nat \<Rightarrow> ('t, 'v, 'f) pool \<Rightarrow> bool" where
  "in_a_storm mc elapsed p \<longleftrightarrow>
     (let began = pl_storm_started p in
      began \<noteq> 0 \<and>
      (let now = of_nat elapsed + 1 in
       saturating_sub now began \<le> of_nat RESTART_WINDOW \<and>
       unat (pl_storm_deaths p) > RESTART_LIMIT * largest_pool mc p))"

definition pool_take_lifo :: "nat \<Rightarrow> ('t, 'v, 'f) pool \<Rightarrow> nat option \<times> ('t, 'v, 'f) pool" where
  "pool_take_lifo k p =
     (let (got, w, tb) = take_lifo (pl_workers p k) (pl_table p);
          p1 = (put_worker k w p)\<lparr>pl_table := tb\<rparr>
      in case got of
           None \<Rightarrow> (None, p1)
         | Some (i, claimed) \<Rightarrow>
             (if claimed then Some i else None, p1\<lparr>pl_lifo_filled := pl_lifo_filled p1 - 1\<rparr>))"

definition lifo_waiting :: "('t, 'v, 'f) pool \<Rightarrow> bool" where
  "lifo_waiting p \<longleftrightarrow> pl_lifo_filled p > 0"

text \<open>Queueing a task again, which is failed if its slot has gone.\<close>

definition requeue :: "nat \<Rightarrow> ('t, 'v, 'f) pool \<Rightarrow> ('t, 'v, 'f) pool" where
  "requeue i p =
     (let (ok, ij, tb) = push i (pl_injector p) (pl_table p);
          p1 = p\<lparr>pl_injector := ij, pl_table := tb\<rparr>
      in if ok then p1 else fail_task i p1)"

definition pool_recover :: "nat \<Rightarrow> ('t, 'v, 'f) pool \<Rightarrow> ('t, 'v, 'f) pool option" where
  "pool_recover k p =
     (let (mine, ts) = claim_recovery (wk_slot (pl_workers p k)) in
      if \<not> mine then Some p
      else
        (let p1 = recovered (put_worker k ((pl_workers p k)\<lparr>wk_slot := ts\<rparr>) p);
             (lifo, p2) = pool_take_lifo k p1;
             p3 = (case lifo of None \<Rightarrow> p2 | Some i \<Rightarrow> requeue i p2)
         in do {
           (ids, stranded, w, tb) \<leftarrow> recover_worker (pl_workers p3 k) (pl_table p3);
           let p4 = (put_worker k w p3)\<lparr>pl_table := tb\<rparr>;
           let p5 = fold requeue ids p4;
           let p6 = fold fail_task stranded p5;
           Some (left (put_worker k (release_worker (pl_workers p6 k)) p6))
         }))"

definition recover_sleep :: "nat \<Rightarrow> ('t, 'v, 'f) pool \<Rightarrow> ('t, 'v, 'f) pool" where
  "recover_sleep k p =
     (let (mine, ts) = claim_recovery (sl_slot (pl_sleeps p k)) in
      if \<not> mine then p
      else
        (let p1 = recovered p;
             (stranded, s) = sleep_recover ((pl_sleeps p1 k)\<lparr>sl_slot := ts\<rparr>);
             p2 = put_sleep k s p1;
             p3 = (if stranded \<noteq> NO_TASK then fail_task stranded p2 else p2)
         in sleep_left p3))"

fun sweep_workers :: "nat list \<Rightarrow> ('t, 'v, 'f) pool \<Rightarrow> ('t, 'v, 'f) pool option" where
  "sweep_workers [] p = Some p"
| "sweep_workers (k # ks) p = do {
     p1 \<leftarrow> (if needs_recovery (worker_state p k) then pool_recover k p else Some p);
     sweep_workers ks p1
   }"

definition sweep_sleeps :: "nat list \<Rightarrow> ('t, 'v, 'f) pool \<Rightarrow> ('t, 'v, 'f) pool" where
  "sweep_sleeps ks p =
     fold (\<lambda>k p. if needs_recovery (sleep_state p k) then recover_sleep k p else p) ks p"

definition sweep_all :: "('t, 'v, 'f) pool \<Rightarrow> ('t, 'v, 'f) pool option" where
  "sweep_all p = do {
     p1 \<leftarrow> sweep_workers [0..<pl_highest p] p;
     Some (sweep_sleeps [0..<pl_sleeps_highest p1] p1)
   }"

definition abandon :: "('t, 'v, 'f) pool \<Rightarrow> ('t, 'v, 'f) pool option" where
  "abandon p = sweep_all p"

definition sweep_one :: "('t, 'v, 'f) pool \<Rightarrow> ('t, 'v, 'f) pool option" where
  "sweep_one p =
     (if pl_highest p = 0 then Some p
      else
        (let cursor = pl_sweep p; p1 = p\<lparr>pl_sweep := cursor + 1\<rparr>; index = cursor mod pl_highest p in
         do {
           p2 \<leftarrow> (if needs_recovery (worker_state p1 index) then pool_recover index p1 else Some p1);
           let sleeps = pl_sleeps_highest p2;
           Some (if sleeps \<noteq> 0 \<and> needs_recovery (sleep_state p2 (cursor mod sleeps))
             then recover_sleep (cursor mod sleeps) p2 else p2)
         }))"

section \<open>Queueing tasks\<close>

definition sweep_if_dead :: "('t, 'v, 'f) pool \<Rightarrow> ('t, 'v, 'f) pool option" where
  "sweep_if_dead p = (if pl_dead p \<noteq> 0 then sweep_all p else Some p)"

definition submit :: "machine \<Rightarrow> nat \<Rightarrow> ('t, 'v, 'f) pool \<Rightarrow> (bool \<times> ('t, 'v, 'f) pool) option" where
  "submit mc i p =
     (if pl_stopped p then Some (False, p)
      else do {
        p1 \<leftarrow> sweep_if_dead p;
        let p2 = (if pl_live p1 = 0 then ensure_floor mc p1 else p1);
        if pl_live p2 = 0 then Some (False, p2)
        else
          (let (ok, ij, tb) = push i (pl_injector p2) (pl_table p2);
               p3 = p2\<lparr>pl_injector := ij, pl_table := tb\<rparr>
           in if \<not> ok then Some (False, p3)
              else Some (True, if pl_parked p3 \<noteq> 0 then snd (wake_one p3) else p3))
      })"

definition offload :: "machine \<Rightarrow> nat \<Rightarrow> ('t, 'v, 'f) pool \<Rightarrow> (bool \<times> ('t, 'v, 'f) pool) option" where
  "offload mc i p =
     (if pl_stopped p then Some (False, p)
      else do {
        p1 \<leftarrow> sweep_if_dead p;
        let (up, p2) =
          (if pl_sleeps_live p1 = 0 then start_sleep mc (sleep_target mc) p1 else (True, p1));
        if \<not> up then Some (False, p2)
        else
          (let (ok, ij, tb) = push i (pl_blocking p2) (pl_table p2);
               p3 = p2\<lparr>pl_blocking := ij, pl_table := tb\<rparr>
           in if \<not> ok then Some (False, p3)
              else
                (let (woke, p4) = (if pl_sleeps_parked p3 \<noteq> 0 then wake_sleep p3 else (False, p3))
                 in if woke then Some (True, p4)
                    else Some (True, snd (start_sleep mc (sleep_target mc) p4))))
      })"

definition submit_local ::
  "machine \<Rightarrow> nat \<Rightarrow> nat \<Rightarrow> ('t, 'v, 'f) pool \<Rightarrow> (bool \<times> ('t, 'v, 'f) pool) option" where
  "submit_local mc k i p =
     (if pl_stopped p then Some (False, p)
      else
        (case live_slot i (pl_table p) of
           None \<Rightarrow> Some (False, p)
         | Some d \<Rightarrow>
             (let p1 = p\<lparr>pl_table := put_slot i (mark_queued QUEUED_LOCAL d) (pl_table p)\<rparr>;
                  (lifo, w) = put_lifo i (pl_workers p1 k);
                  wake = (\<lambda>p. Some (True, if pl_parked p \<noteq> 0 then snd (wake_one p) else p))
              in if lifo then
                   wake ((put_worker k w p1)\<lparr>pl_lifo_filled := pl_lifo_filled p1 + 1\<rparr>)
                 else
                   (let (pushed, w) = ring_push i (pl_workers p1 k) in
                    if pushed then wake (put_worker k w p1)
                    else
                      (let (mine, d1) = claim_queued QUEUED_LOCAL (tb_mem (pl_table p1) i);
                           p2 = p1\<lparr>pl_table := put_slot i d1 (pl_table p1)\<rparr>
                       in if \<not> mine then Some (True, p2) else submit mc i p2)))))"

section \<open>Finding work\<close>

fun steal_from :: "nat list \<Rightarrow> nat \<Rightarrow> ('t, 'v, 'f) pool \<Rightarrow> (nat option \<times> ('t, 'v, 'f) pool) option" where
  "steal_from [] k p = Some (None, p)"
| "steal_from (v # vs) k p =
     (if v = k \<or> \<not> alive (worker_state p v) then steal_from vs k p
      else
        (let (n, victim, thief, ij, tb, failed) =
               steal_into (pl_workers p v) (pl_workers p k) (pl_injector p) (pl_table p);
             p1 = fold fail_task failed
               ((put_worker k thief (put_worker v victim p))\<lparr>pl_injector := ij, pl_table := tb\<rparr>)
         in do {
           (got, p2) \<leftarrow>
             (if n \<noteq> 0 then do {
                (got, w, tb) \<leftarrow> ring_pop (pl_workers p1 k) (pl_table p1);
                Some (got, (put_worker k w p1)\<lparr>pl_table := tb\<rparr>)
              }
              else Some (None, p1));
           case got of
             Some i \<Rightarrow> Some (Some i, p2)
           | None \<Rightarrow>
               (let (lifo, p3) = pool_take_lifo v p2 in
                case lifo of
                  Some i \<Rightarrow> Some (Some i, p3)
                | None \<Rightarrow> steal_from vs k p3)
         }))"

definition steal :: "nat \<Rightarrow> ('t, 'v, 'f) pool \<Rightarrow> (nat option \<times> ('t, 'v, 'f) pool) option" where
  "steal k p =
     steal_from (rotation (pl_sweep p) (pl_highest p)) k (p\<lparr>pl_sweep := pl_sweep p + 1\<rparr>)"

text \<open>
  Topping the ring up from the band just served. A push that finds no room ends it, so it
  makes at most as many rounds as the share it aims for; \<open>None\<close> is a pop that doesn't return.
\<close>

partial_function (option) refill_ring ::
  "nat \<Rightarrow> nat \<Rightarrow> nat \<Rightarrow> ('t, 'v, 'f) pool \<Rightarrow> ('t, 'v, 'f) pool option" where
  [code]: "refill_ring k b share p =
     (if \<not> (backlog (pl_workers p k) < share \<and> has_room (pl_workers p k)) then Some p
      else do {
        (got, ij, tb) \<leftarrow> pop_from b (pl_injector p) (pl_table p);
        let p1 = p\<lparr>pl_injector := ij, pl_table := tb\<rparr>;
        case got of
          None \<Rightarrow> Some p1
        | Some extra \<Rightarrow>
            (case live_slot extra (pl_table p1) of
               None \<Rightarrow> refill_ring k b share p1
             | Some d \<Rightarrow>
                 (let p2 = p1\<lparr>pl_table := put_slot extra (mark_queued QUEUED_LOCAL d) (pl_table p1)\<rparr>;
                      (pushed, w) = ring_push extra (pl_workers p2 k) in
                  if pushed then refill_ring k b share (put_worker k w p2)
                  else
                    (let (mine, tb) = claim_local extra (pl_table p2); p3 = p2\<lparr>pl_table := tb\<rparr>
                     in Some (if mine then requeue extra p3 else p3))))
      })"

text \<open>The end of \<open>find_work\<close>: the LIFO slot it passed over, then the peers.\<close>

definition last_resort :: "nat \<Rightarrow> ('t, 'v, 'f) pool \<Rightarrow> (nat option \<times> ('t, 'v, 'f) pool) option" where
  "last_resort k p =
     (let (lifo, p1) = pool_take_lifo k p in
      case lifo of
        Some i \<Rightarrow> Some (Some i, put_worker k (took_from True (pl_workers p1 k)) p1)
      | None \<Rightarrow> steal k p1)"

definition beyond_lifo :: "nat \<Rightarrow> ('t, 'v, 'f) pool \<Rightarrow> (nat option \<times> ('t, 'v, 'f) pool) option" where
  "beyond_lifo k p =
     (let p1 = put_worker k (took_from False (pl_workers p k)) p in do {
        (got, w, tb) \<leftarrow> ring_pop (pl_workers p1 k) (pl_table p1);
        let p2 = (put_worker k w p1)\<lparr>pl_table := tb\<rparr>;
        case got of
          Some i \<Rightarrow> Some (Some i, p2)
        | None \<Rightarrow> do {
            (got, ij, tb) \<leftarrow> pop_banded (pl_injector p2) (pl_table p2);
            let p3 = p2\<lparr>pl_injector := ij, pl_table := tb\<rparr>;
            case got of
              Some (i, b) \<Rightarrow> do {
                let share = min (unat (injector_len (pl_injector p3)) div max (pl_live p3) 1) LOCAL_REFILL;
                p4 \<leftarrow> refill_ring k b share p3;
                Some (Some i, p4)
              }
            | None \<Rightarrow> last_resort k p3
          }
      })"

definition find_work :: "nat \<Rightarrow> ('t, 'v, 'f) pool \<Rightarrow> (nat option \<times> ('t, 'v, 'f) pool) option" where
  "find_work k p =
     (if wk_streak (pl_workers p k) < LIFO_STREAK then
        (let (lifo, p1) = pool_take_lifo k p in
         case lifo of
           Some i \<Rightarrow> Some (Some i, put_worker k (took_from True (pl_workers p1 k)) p1)
         | None \<Rightarrow> beyond_lifo k p1)
      else beyond_lifo k p)"

definition find_help ::
  "nat \<Rightarrow> bool \<Rightarrow> ('t, 'v, 'f) pool \<Rightarrow> (nat option \<times> ('t, 'v, 'f) pool) option" where
  "find_help k unrelated p =
     (let (lifo, p1) = pool_take_lifo k p in
      case lifo of
        Some i \<Rightarrow> Some (Some i, p1)
      | None \<Rightarrow> if unrelated then find_work k p1 else Some (None, p1))"

section \<open>The manager's tick\<close>

definition age_queue :: "u64 \<Rightarrow> ('t, 'v, 'f) pool \<Rightarrow> ('t, 'v, 'f) pool option" where
  "age_queue now p =
     (case oldest (pl_injector p) (pl_table p) of
        None \<Rightarrow> Some (p\<lparr>pl_injector := set_starving False (pl_injector p), pl_starving := False\<rparr>)
      | Some (b, i) \<Rightarrow>
          (case live_slot i (pl_table p) of
             None \<Rightarrow> Some p
           | Some d \<Rightarrow>
               (let starving = age now d > STARVE_AGE;
                    p1 = p\<lparr>pl_injector := set_starving starving (pl_injector p), pl_starving := starving\<rparr>
                in if \<not> starving then Some p1
                   else do {
                     (ij, tb) \<leftarrow> promote b (pl_injector p1) (pl_table p1);
                     Some (p1\<lparr>pl_injector := ij, pl_table := tb\<rparr>)
                   })))"

fun balance_wake :: "nat list \<Rightarrow> nat \<Rightarrow> ('t, 'v, 'f) pool \<Rightarrow> ('t, 'v, 'f) pool" where
  "balance_wake [] spare p = p"
| "balance_wake (k # ks) spare p =
     (if spare = 0 then p
      else if worker_state p k = Parked \<and> fst (wake_slot (wk_slot (pl_workers p k)))
      then balance_wake ks (spare - 1) (on_worker_slot k (\<lambda>ts. snd (wake_slot ts)) p)
      else balance_wake ks spare p)"

definition balance :: "('t, 'v, 'f) pool \<Rightarrow> ('t, 'v, 'f) pool" where
  "balance p =
     (if pl_parked p = 0 then p
      else
        (let spare = unat (injector_len (pl_injector p)) +
               sum_list (map (\<lambda>k. backlog (pl_workers p k) - 1)
                 (filter (\<lambda>k. alive (worker_state p k)) [0..<pl_highest p]))
         in balance_wake [0..<pl_highest p] spare p))"

fun sleeps_all_stuck_loop :: "nat list \<Rightarrow> bool \<Rightarrow> ('t, 'v, 'f) pool \<Rightarrow> bool \<times> ('t, 'v, 'f) pool" where
  "sleeps_all_stuck_loop [] stuck p = (stuck, p)"
| "sleeps_all_stuck_loop (k # ks) stuck p =
     (if \<not> slot_alive (sl_slot (pl_sleeps p k)) then sleeps_all_stuck_loop ks stuck p
      else
        (let (mv, s) = sleep_moved (pl_sleeps p k)
         in sleeps_all_stuck_loop ks (stuck \<and> slot_busy (sl_slot s) \<and> \<not> mv) (put_sleep k s p)))"

definition sleeps_all_stuck :: "('t, 'v, 'f) pool \<Rightarrow> bool \<times> ('t, 'v, 'f) pool" where
  "sleeps_all_stuck p = sleeps_all_stuck_loop [0..<pl_sleeps_highest p] True p"

definition sleeps_all_busy :: "('t, 'v, 'f) pool \<Rightarrow> bool" where
  "sleeps_all_busy p \<longleftrightarrow>
     list_all (\<lambda>k. slot_busy (sl_slot (pl_sleeps p k)))
       (filter (\<lambda>k. slot_alive (sl_slot (pl_sleeps p k))) [0..<pl_sleeps_highest p])"

fun wake_pending :: "nat \<Rightarrow> ('t, 'v, 'f) pool \<Rightarrow> nat \<times> ('t, 'v, 'f) pool" where
  "wake_pending 0 p = (0, p)"
| "wake_pending (Suc n) p =
     (if pl_sleeps_parked p \<noteq> 0 then
        (let (woke, p1) = wake_sleep p in if woke then wake_pending n p1 else (Suc n, p1))
      else (Suc n, p))"

fun start_pending :: "machine \<Rightarrow> nat \<Rightarrow> ('t, 'v, 'f) pool \<Rightarrow> nat \<times> ('t, 'v, 'f) pool" where
  "start_pending mc 0 p = (0, p)"
| "start_pending mc (Suc n) p =
     (let (up, p1) = start_sleep mc (sleep_target mc) p
      in if up then start_pending mc n p1 else (Suc n, p1))"

fun start_sleeps :: "machine \<Rightarrow> nat \<Rightarrow> ('t, 'v, 'f) pool \<Rightarrow> ('t, 'v, 'f) pool" where
  "start_sleeps mc 0 p = p"
| "start_sleeps mc (Suc n) p =
     (let (up, p1) = start_sleep mc (ceiling mc) p in if up then start_sleeps mc n p1 else p1)"

definition balance_blocking :: "machine \<Rightarrow> ('t, 'v, 'f) pool \<Rightarrow> ('t, 'v, 'f) pool" where
  "balance_blocking mc p =
     (let (pending1, p1) = wake_pending (unat (injector_len (pl_blocking p))) p;
          (pending, p2) = start_pending mc pending1 p1;
          live = pl_sleeps_live p2
      in if pending = 0 \<or> live < sleep_target mc then p2\<lparr>pl_sleeps_overloaded := 0\<rparr>
         else
           (let (stuck, p3) = sleeps_all_stuck p2 in
            if stuck then
              (let (earnt, ticks) = earned True 0 (pl_sleeps_overloaded p3);
                   p4 = p3\<lparr>pl_sleeps_overloaded := ticks\<rparr>
               in if earnt then start_sleeps mc (min pending (max live 1)) p4 else p4)
            else
              (let overloaded = pending \<ge> max live 1 * OVERLOAD_RATIO \<and> sleeps_all_busy p3;
                   (earnt, ticks) = earned overloaded (live - sleep_target mc) (pl_sleeps_overloaded p3);
                   p4 = p3\<lparr>pl_sleeps_overloaded := ticks\<rparr>
               in if earnt then snd (start_sleep mc (ceiling mc) p4) else p4)))"

definition pool_idle :: "('t, 'v, 'f) pool \<Rightarrow> bool" where
  "pool_idle p \<longleftrightarrow>
     injector_is_empty (pl_injector p) \<and> injector_is_empty (pl_blocking p) \<and>
     list_all (\<lambda>k. \<not> (slot_busy (wk_slot (pl_workers p k)) \<or> backlog (pl_workers p k) > 0))
       (filter (\<lambda>k. alive (worker_state p k)) [0..<pl_highest p])"

definition trim_table :: "machine \<Rightarrow> ('t, 'v, 'f) pool \<Rightarrow> ('t, 'v, 'f) pool option" where
  "trim_table mc p =
     (let due = pl_trim_ticks p + 1; p1 = p\<lparr>pl_trim_ticks := due\<rparr> in
      if unat due < TRIM_INTERVAL then Some p1
      else if \<not> pool_idle p1 then Some p1
      else do {
        (_, tb) \<leftarrow> trim (mc_page mc) (mc_freed mc) (mc_zeroes mc) (mc_granted mc) [] (pl_table p1);
        Some (p1\<lparr>pl_trim_ticks := 0, pl_table := tb\<rparr>)
      })"

fun reap_sleeps_loop :: "machine \<Rightarrow> nat list \<Rightarrow> ('t, 'v, 'f) pool \<Rightarrow> ('t, 'v, 'f) pool" where
  "reap_sleeps_loop mc [] p = p"
| "reap_sleeps_loop mc (k # ks) p =
     (if \<not> alive (sleep_state p k) then reap_sleeps_loop mc ks p
      else if sleep_state p k \<noteq> Parked then reap_sleeps_loop mc ks (on_sleep_slot k busied p)
      else
        (let ticks = (if pl_sleeps_live p > sleep_target mc then over_ticks else idle_ticks);
             (n, ts) = idled (sl_slot (pl_sleeps p k));
             p1 = on_sleep_slot k (\<lambda>_. ts) p
         in reap_sleeps_loop mc ks (if n \<ge> ticks then on_sleep_slot k stop_slot p1 else p1)))"

definition reap_sleeps :: "machine \<Rightarrow> ('t, 'v, 'f) pool \<Rightarrow> ('t, 'v, 'f) pool" where
  "reap_sleeps mc p =
     (if \<not> injector_is_empty (pl_blocking p) then p
      else reap_sleeps_loop mc [0..<pl_sleeps_highest p] p)"

fun reap_loop :: "machine \<Rightarrow> nat list \<Rightarrow> ('t, 'v, 'f) pool \<Rightarrow> ('t, 'v, 'f) pool" where
  "reap_loop mc [] p = p"
| "reap_loop mc (k # ks) p =
     (if \<not> alive (worker_state p k) then reap_loop mc ks p
      else if \<not> (worker_state p k = Parked \<and> backlog (pl_workers p k) = 0)
      then reap_loop mc ks (on_worker_slot k busied p)
      else
        (let ticks = (if pl_live p > pool_target mc then over_ticks else idle_ticks);
             (n, ts) = idled (wk_slot (pl_workers p k));
             p1 = on_worker_slot k (\<lambda>_. ts) p
         in if n < ticks \<or> pl_live p1 \<le> pool_floor mc then reap_loop mc ks p1
            else reap_loop mc ks (on_worker_slot k stop_slot p1)))"

definition reap :: "machine \<Rightarrow> ('t, 'v, 'f) pool \<Rightarrow> ('t, 'v, 'f) pool" where
  "reap mc p = reap_loop mc [0..<pl_highest p] p"

text \<open>What one look over the workers tells the manager.\<close>

record look =
  lk_pending :: nat
  lk_stuck :: bool
  lk_all_stuck :: bool
  lk_idle :: bool
  lk_stranded :: bool
  lk_workers :: "nat list"

definition available :: "worker_state \<Rightarrow> bool" where
  "available st \<longleftrightarrow> st = Starting \<or> st = Idle \<or> st = Parked"

fun look_over :: "nat list \<Rightarrow> look \<Rightarrow> ('t, 'v, 'f) pool \<Rightarrow> look \<times> ('t, 'v, 'f) pool" where
  "look_over [] lk p = (lk, p)"
| "look_over (k # ks) lk p =
     (if \<not> alive (worker_state p k) then look_over ks lk p
      else
        (let (mv, w) = moved (pl_workers p k);
             p1 = put_worker k w p;
             n = backlog w;
             lk1 = lk\<lparr>lk_pending := lk_pending lk + n,
                      lk_idle := lk_idle lk \<or> (available (ts_state (wk_slot w)) \<and> n = 0)\<rparr>
         in if slot_busy (wk_slot w) \<and> \<not> mv
            then look_over ks
                   (lk1\<lparr>lk_stuck := True, lk_workers := lk_workers lk1 @ [k],
                        lk_stranded := lk_stranded lk1 \<or> n > 0\<rparr>) p1
            else look_over ks (lk1\<lparr>lk_all_stuck := False\<rparr>) p1))"

fun start_workers :: "machine \<Rightarrow> nat \<Rightarrow> ('t, 'v, 'f) pool \<Rightarrow> ('t, 'v, 'f) pool" where
  "start_workers mc 0 p = p"
| "start_workers mc (Suc n) p =
     (let (up, p1) = start_one mc Grow p in if up then start_workers mc n p1 else p1)"

definition grow :: "machine \<Rightarrow> ('t, 'v, 'f) pool \<Rightarrow> ('t, 'v, 'f) pool" where
  "grow mc p =
     (let live = pl_live p in
      if live \<ge> ceiling mc then p
      else
        (let (lk, p1) = look_over [0..<pl_highest p]
               \<lparr>lk_pending = unat (injector_len (pl_injector p)), lk_stuck = False, lk_all_stuck = True,
                lk_idle = False, lk_stranded = False, lk_workers = []\<rparr> p
         in if lk_pending lk = 0 \<or> lk_idle lk \<or> \<not> lk_stuck lk then p1\<lparr>pl_overloaded := 0\<rparr>
            else
              (let blocked = length (filter (\<lambda>k. blocked_in_a_call (mc_in_wait mc) (pl_workers p1 k))
                     (lk_workers lk));
                   running = live - blocked
               in if blocked > 0 \<and> running < pool_target mc then
                    (let (earnt, ticks) = earned True 0 (pl_overloaded p1);
                         p2 = p1\<lparr>pl_overloaded := ticks\<rparr>
                     in if earnt then start_workers mc (min (pool_target mc - running) (lk_pending lk)) p2
                        else p2)
                  else if live < pool_target mc then snd (start_one mc Grow p1)
                  else
                    (let overloaded = lk_all_stuck lk \<and>
                           (lk_pending lk \<ge> max live 1 * OVERLOAD_RATIO \<or> pl_starving p1 \<or> lk_stranded lk);
                         (earnt, ticks) = earned overloaded (live - pool_target mc) (pl_overloaded p1);
                         p2 = p1\<lparr>pl_overloaded := ticks\<rparr>
                     in if earnt then snd (start_one mc Grow p2) else p2))))"

definition pool_tick :: "machine \<Rightarrow> u64 \<Rightarrow> ('t, 'v, 'f) pool \<Rightarrow> ('t, 'v, 'f) pool option" where
  "pool_tick mc now p = do {
     (ij, tb) \<leftarrow> refill (pl_injector p) (pl_table p);
     p1 \<leftarrow> age_queue now (p\<lparr>pl_injector := ij, pl_table := tb\<rparr>);
     p2 \<leftarrow> sweep_all p1;
     trim_table mc
       (reap_sleeps mc (reap mc (grow mc (balance_blocking mc (balance (ensure_floor mc p2))))))
   }"

section \<open>Stopping, healing and statistics\<close>

definition stop_all :: "('t, 'v, 'f) pool \<Rightarrow> ('t, 'v, 'f) pool" where
  "stop_all p =
     fold (\<lambda>k. on_sleep_slot k stop_slot) [0..<pl_sleeps_highest p]
       (fold (\<lambda>k. on_worker_slot k stop_slot) [0..<pl_highest p] p)"

text \<open>\<open>heal\<close> also says whether everything still waiting has to be written off.\<close>

definition heal :: "machine \<Rightarrow> nat \<Rightarrow> ('t, 'v, 'f) pool \<Rightarrow> (bool \<times> ('t, 'v, 'f) pool) option" where
  "heal mc elapsed p = do {
     p1 \<leftarrow> sweep_all p;
     if pl_stopped p1 then Some (False, p1)
     else
       (let storm = in_a_storm mc elapsed p1 \<and> \<not> mc_manager mc;
            p2 = (if storm then p1
                  else
                    (let p2 = ensure_floor mc p1
                     in if \<not> injector_is_empty (pl_blocking p2)
                        then snd (start_sleep mc (sleep_target mc) p2) else p2));
            stranded = pl_live p2 = 0 \<and> \<not> mc_manager mc
        in Some (storm \<or> stranded, p2))
   }"

definition heal_if_needed :: "machine \<Rightarrow> nat \<Rightarrow> ('t, 'v, 'f) pool \<Rightarrow> (bool \<times> ('t, 'v, 'f) pool) option" where
  "heal_if_needed mc elapsed p =
     (if pl_dead p \<noteq> 0 then heal mc elapsed p else Some (False, p))"

record worker_stats =
  ws_busy :: bool
  ws_backlog :: nat
  ws_completed :: u64

record pool_stats =
  ps_live :: nat
  ps_queued :: nat
  ps_blocking_queued :: nat
  ps_workers :: "worker_stats list"
  ps_sleep_threads :: nat
  ps_sleep_busy :: nat
  ps_slots :: nat
  ps_peak_slots :: nat
  ps_target :: nat
  ps_ceiling :: nat
  ps_sleep_target :: nat
  ps_peak_workers :: nat
  ps_peak_sleep_threads :: nat
  ps_deaths :: nat
  ps_recovering :: nat

definition stats :: "machine \<Rightarrow> ('t, 'v, 'f) pool \<Rightarrow> pool_stats" where
  "stats mc p =
     (let ws = filter (\<lambda>k. alive (worker_state p k)) [0..<pl_highest p];
          ss = filter (\<lambda>k. slot_alive (sl_slot (pl_sleeps p k))) [0..<pl_sleeps_highest p]
      in \<lparr>ps_live = tb_live (pl_table p),
          ps_queued = unat (injector_len (pl_injector p)),
          ps_blocking_queued = unat (injector_len (pl_blocking p)),
          ps_workers = map (\<lambda>k. \<lparr>ws_busy = slot_busy (wk_slot (pl_workers p k)),
            ws_backlog = backlog (pl_workers p k), ws_completed = wk_completed (pl_workers p k)\<rparr>) ws,
          ps_sleep_threads = length ss,
          ps_sleep_busy = length (filter (\<lambda>k. slot_busy (sl_slot (pl_sleeps p k))) ss),
          ps_slots = tb_next_id (pl_table p), ps_peak_slots = peak (pl_table p),
          ps_target = pool_target mc, ps_ceiling = ceiling mc, ps_sleep_target = sleep_target mc,
          ps_peak_workers = pl_peak_workers p, ps_peak_sleep_threads = pl_peak_sleeps p,
          ps_deaths = pl_deaths p, ps_recovering = pl_dead p\<rparr>)"

definition stats_len :: "pool_stats \<Rightarrow> nat" where
  "stats_len ps = length (ps_workers ps)"

definition stats_busy :: "pool_stats \<Rightarrow> nat" where
  "stats_busy ps = length (filter ws_busy (ps_workers ps))"

definition stats_backlog :: "pool_stats \<Rightarrow> nat" where
  "stats_backlog ps =
     ps_queued ps + ps_blocking_queued ps + sum_list (map ws_backlog (ps_workers ps))"

definition has_any_task :: "pool_stats \<Rightarrow> bool" where
  "has_any_task ps \<longleftrightarrow> stats_busy ps > 0 \<or> ps_sleep_busy ps > 0 \<or> stats_backlog ps > 0"

section \<open>Leaving\<close>

text \<open>A worker's way out: its LIFO slot and its ring go back to the shared queue.\<close>

partial_function (option) give_back :: "nat \<Rightarrow> ('t, 'v, 'f) pool \<Rightarrow> ('t, 'v, 'f) pool option" where
  [code]: "give_back k p = do {
     (got, w, tb) \<leftarrow> ring_pop (pl_workers p k) (pl_table p);
     let p1 = (put_worker k w p)\<lparr>pl_table := tb\<rparr>;
     case got of
       None \<Rightarrow> Some p1
     | Some i \<Rightarrow> give_back k (requeue i p1)
   }"

definition worker_left :: "nat \<Rightarrow> ('t, 'v, 'f) pool \<Rightarrow> ('t, 'v, 'f) pool option" where
  "worker_left k p =
     (let (lifo, p1) = pool_take_lifo k p;
          p2 = (case lifo of None \<Rightarrow> p1 | Some i \<Rightarrow> requeue i p1)
      in do {
        p3 \<leftarrow> give_back k p2;
        Some (left (put_worker k (release_worker (pl_workers p3 k)) p3))
      })"

definition sleep_thread_left :: "nat \<Rightarrow> ('t, 'v, 'f) pool \<Rightarrow> ('t, 'v, 'f) pool" where
  "sleep_thread_left k p = sleep_left (put_sleep k (snd (sleep_recover (pl_sleeps p k))) p)"

text \<open>A thread that unwinds is counted dead before its slot says so.\<close>

definition worker_dies :: "nat \<Rightarrow> nat \<Rightarrow> ('t, 'v, 'f) pool \<Rightarrow> ('t, 'v, 'f) pool" where
  "worker_dies elapsed k p = on_worker_slot k mark_dead (note_death elapsed p)"

definition sleep_thread_dies :: "nat \<Rightarrow> nat \<Rightarrow> ('t, 'v, 'f) pool \<Rightarrow> ('t, 'v, 'f) pool" where
  "sleep_thread_dies elapsed k p = on_sleep_slot k mark_dead (note_death elapsed p)"

section \<open>Sizes in order\<close>

lemma cores_pos: "0 < cores mc"
  by (simp add: cores_def)

lemma ceiling_bounds: "cores mc \<le> MAX_WORKERS \<Longrightarrow> pool_floor mc \<le> ceiling mc \<and> ceiling mc \<le> MAX_WORKERS"
  by (auto simp: ceiling_def clamp_def pool_floor_def)

lemma target_bounds:
  assumes "cores mc \<le> MAX_WORKERS" "tuning_check (mc_tuning mc) = Inr ()"
    and "cores mc * tn_workers_per_core (mc_tuning mc) < 2 ^ 64"
  shows "pool_floor mc \<le> pool_target mc" "pool_target mc \<le> ceiling mc"
proof -
  have "1 \<le> tn_workers_per_core (mc_tuning mc)"
    using assms(2) by (auto simp: tuning_check_def split: if_splits)
  then have "cores mc \<le> cores mc * tn_workers_per_core (mc_tuning mc)" by simp
  with assms(3) ceiling_bounds [OF assms(1)] show "pool_floor mc \<le> pool_target mc"
    by (simp add: pool_target_def pool_floor_def)
  show "pool_target mc \<le> ceiling mc" by (simp add: pool_target_def)
qed

section \<open>The count of workers\<close>

text \<open>The live count is the number of slots with a thread behind them, dead ones included.\<close>

definition used :: "('t, 'v, 'f) pool \<Rightarrow> nat set" where
  "used p = {k. worker_state p k \<noteq> Empty}"

definition live_ok :: "('t, 'v, 'f) pool \<Rightarrow> bool" where
  "live_ok p \<longleftrightarrow> pl_live p = card (used p) \<and> used p \<subseteq> {..<pl_highest p} \<and> pl_highest p \<le> MAX_WORKERS"

lemma used_put: "used (put_worker k w p) = (if ts_state (wk_slot w) = Empty then used p - {k} else insert k (used p))"
  by (auto simp: used_def put_worker_def)

lemma used_frame [simp]:
  "used (p\<lparr>pl_live := n\<rparr>) = used p" "used (p\<lparr>pl_highest := n\<rparr>) = used p" "used (p\<lparr>pl_spawns := n\<rparr>) = used p"
  "used (p\<lparr>pl_peak_workers := n\<rparr>) = used p" "used (left p) = used p"
  by (simp_all add: used_def left_def)

lemma put_worker_frame [simp]:
  "pl_live (put_worker k w p) = pl_live p" "pl_highest (put_worker k w p) = pl_highest p"
  "pl_workers (put_worker k w p) = (pl_workers p)(k := w)" "pl_table (put_worker k w p) = pl_table p"
  "pl_injector (put_worker k w p) = pl_injector p" "pl_failed (put_worker k w p) = pl_failed p"
  "pl_parked (put_worker k w p) = pl_parked p" "pl_stopped (put_worker k w p) = pl_stopped p"
  "pl_dead (put_worker k w p) = pl_dead p" "pl_spawns (put_worker k w p) = pl_spawns p"
  by (simp_all add: put_worker_def)

lemma slot_claim_eq: "slot_claim ts = (if ts_state ts = Empty then (True, ts\<lparr>ts_state := Starting\<rparr>) else (False, ts))"
  by (simp add: slot_ops)

lemma finite_used: "live_ok p \<Longrightarrow> finite (used p)"
  by (auto simp: live_ok_def intro: finite_subset)

text \<open>
  One search for a slot: it either starts a thread in an empty one, which is counted, or
  leaves the count as it was.
\<close>

definition started_in :: "nat \<Rightarrow> ('t, 'v, 'f) pool \<Rightarrow> ('t, 'v, 'f) pool \<Rightarrow> bool" where
  "started_in k p p' \<longleftrightarrow>
     worker_state p k = Empty \<and> k < MAX_WORKERS \<and>
     (\<forall>j. worker_state p' j = (if j = k then Starting else worker_state p j))"

text \<open>The three ways a pass of the search can go on.\<close>

definition can_try :: "nat \<Rightarrow> nat \<Rightarrow> nat \<Rightarrow> ('t, 'v, 'f) pool \<Rightarrow> bool" where
  "can_try limit index claimed p \<longleftrightarrow>
     index < min (max (pl_highest p + 1) claimed) MAX_WORKERS \<and> pl_live p < limit"

definition tried :: "nat \<Rightarrow> worker_state \<Rightarrow> ('t, 'v, 'f) pool \<Rightarrow> ('t, 'v, 'f) pool" where
  "tried index st p =
     put_worker index ((pl_workers p index)\<lparr>wk_slot := (wk_slot (pl_workers p index))\<lparr>ts_state := st\<rparr>\<rparr>)
       (p\<lparr>pl_highest := raise (index + 1) (pl_highest p), pl_spawns := pl_spawns p + 1\<rparr>)"

lemma start_one_over: "\<not> can_try limit index claimed p \<Longrightarrow> start_one_loop mc limit index claimed p = (False, p)"
  by (subst start_one_loop.simps) (auto simp: can_try_def Let_def)

lemma start_one_taken:
  "can_try limit index claimed p \<Longrightarrow> worker_state p index \<noteq> Empty \<Longrightarrow>
   start_one_loop mc limit index claimed p = start_one_loop mc limit (index + 1) (index + 2) p"
  by (subst start_one_loop.simps) (simp add: can_try_def Let_def slot_claim_eq left_def)

lemma start_one_refused:
  "can_try limit index claimed p \<Longrightarrow> worker_state p index = Empty \<Longrightarrow> \<not> mc_spawn mc (pl_spawns p) \<Longrightarrow>
   start_one_loop mc limit index claimed p =
     start_one_loop mc limit (index + 1) claimed (tried index Empty p)"
  by (subst start_one_loop.simps)
    (simp add: can_try_def Let_def slot_claim_eq left_def worker_start_def slot_start_def slot_empty_def
      tried_def put_worker_def)

lemma start_one_up:
  "can_try limit index claimed p \<Longrightarrow> worker_state p index = Empty \<Longrightarrow> mc_spawn mc (pl_spawns p) \<Longrightarrow>
   start_one_loop mc limit index claimed p =
     (True, (tried index Starting p)\<lparr>pl_live := pl_live p + 1,
       pl_peak_workers := raise (pl_live p + 1) (pl_peak_workers p)\<rparr>)"
  by (subst start_one_loop.simps)
    (simp add: can_try_def Let_def slot_claim_eq left_def worker_start_def slot_start_def tried_def put_worker_def)

lemma tried_frame [simp]:
  "pl_live (tried k st p) = pl_live p" "pl_stopped (tried k st p) = pl_stopped p"
  "worker_state (tried k st p) j = (if j = k then st else worker_state p j)"
  "pl_highest (tried k st p) = raise (k + 1) (pl_highest p)"
  by (simp_all add: tried_def put_worker_def)

lemma used_tried: "used (tried k st p) = (if st = Empty then used p - {k} else insert k (used p))"
  by (auto simp: used_def)

lemma live_ok_refused:
  "live_ok p \<Longrightarrow> k < MAX_WORKERS \<Longrightarrow> worker_state p k = Empty \<Longrightarrow> live_ok (tried k Empty p)"
proof -
  assume a: "live_ok p" "k < MAX_WORKERS" "worker_state p k = Empty"
  then have "used (tried k Empty p) = used p" by (auto simp: used_def)
  with a show ?thesis by (auto simp: live_ok_def raise_def)
qed

lemma live_ok_up:
  assumes "live_ok p" "k < MAX_WORKERS" "worker_state p k = Empty"
  shows "live_ok ((tried k Starting p)\<lparr>pl_live := pl_live p + 1, pl_peak_workers := n\<rparr>)"
proof -
  have "k \<notin> used p" using assms(3) by (simp add: used_def)
  with assms(1,2) finite_used [OF assms(1)] show ?thesis
    by (auto simp: live_ok_def used_tried raise_def)
qed

lemma can_try_index: "can_try limit index claimed p \<Longrightarrow> index < MAX_WORKERS"
  by (simp add: can_try_def)

definition start_result :: "nat \<Rightarrow> ('t, 'v, 'f) pool \<Rightarrow> bool \<times> ('t, 'v, 'f) pool \<Rightarrow> bool" where
  "start_result limit p r \<longleftrightarrow>
     live_ok (snd r) \<and> pl_stopped (snd r) = pl_stopped p \<and>
     (if fst r then pl_live (snd r) = pl_live p + 1 \<and> pl_live (snd r) \<le> limit \<and> (\<exists>k. started_in k p (snd r))
      else pl_live (snd r) = pl_live p \<and> (\<forall>j. worker_state (snd r) j = worker_state p j))"

lemma start_result_refused:
  assumes "start_result limit (tried k Empty p) r" "worker_state p k = Empty"
  shows "start_result limit p r"
proof -
  have "worker_state (tried k Empty p) j = worker_state p j" for j using assms(2) by simp
  then show ?thesis using assms(1) unfolding start_result_def started_in_def by (auto simp only: tried_frame(1,2))
qed

lemma start_one_loop_result:
  "live_ok p \<Longrightarrow> start_result limit p (start_one_loop mc limit index claimed p)"
proof (induction "MAX_WORKERS - index" arbitrary: index claimed p rule: less_induct)
  case less
  show ?case
  proof (cases "can_try limit index claimed p")
    case False
    then show ?thesis using less.prems by (simp add: start_one_over start_result_def)
  next
    case True
    note lt = can_try_index [OF True]
    then have m: "MAX_WORKERS - (index + 1) < MAX_WORKERS - index" by simp
    consider "worker_state p index \<noteq> Empty" | "worker_state p index = Empty" "\<not> mc_spawn mc (pl_spawns p)"
      | "worker_state p index = Empty" "mc_spawn mc (pl_spawns p)" by blast
    then show ?thesis
    proof cases
      case 1
      then show ?thesis using less.hyps [OF m less.prems] True by (simp add: start_one_taken)
    next
      case 2
      have "start_result limit (tried index Empty p)
          (start_one_loop mc limit (index + 1) claimed (tried index Empty p))"
        by (rule less.hyps [OF m live_ok_refused [OF less.prems lt 2(1)]])
      from start_result_refused [OF this 2(1)] 2 True show ?thesis by (simp add: start_one_refused)
    next
      case 3
      have "started_in index p ((tried index Starting p)\<lparr>pl_live := pl_live p + 1, pl_peak_workers := n\<rparr>)" for n
        using 3 lt by (simp add: started_in_def)
      with 3 True live_ok_up [OF less.prems lt 3(1)] show ?thesis
        by (auto simp: start_one_up start_result_def can_try_def)
    qed
  qed
qed

lemma start_one_result: "live_ok p \<Longrightarrow> start_result (start_limit mc r) p (start_one mc r p)"
proof (cases "pl_stopped p \<or> pl_live p \<ge> start_limit mc r")
  case True
  moreover assume "live_ok p"
  ultimately show ?thesis by (simp add: start_one_def start_result_def)
next
  case False
  moreover assume "live_ok p"
  ultimately show ?thesis using start_one_loop_result [of p] by (simp add: start_one_def Let_def)
qed

text \<open>If the kernel grants threads, a pool below its limit and its array finds a slot.\<close>

lemma empty_below:
  assumes "live_ok p" "pl_live p < MAX_WORKERS"
  shows "\<exists>k \<le> pl_highest p. k < MAX_WORKERS \<and> worker_state p k = Empty"
proof (cases "pl_highest p < MAX_WORKERS")
  case True
  have "pl_highest p \<notin> used p" using assms(1) by (auto simp: live_ok_def)
  with True show ?thesis by (auto simp: used_def)
next
  case False
  then have h: "pl_highest p = MAX_WORKERS" using assms(1) by (simp add: live_ok_def)
  have "card (used p) < card {..<MAX_WORKERS}" using assms by (simp add: live_ok_def)
  then obtain k where "k < MAX_WORKERS" "k \<notin> used p"
    using card_mono [OF finite_used [OF assms(1)], of "{..<MAX_WORKERS}"] by (metis lessThan_iff not_less subsetI)
  with h show ?thesis by (auto simp: used_def intro!: exI [of _ k])
qed

lemma start_one_loop_finds:
  assumes "live_ok p" "pl_live p < limit" "\<And>n. mc_spawn mc n"
    and "index \<le> k" "k \<le> pl_highest p" "k < MAX_WORKERS" "worker_state p k = Empty"
  shows "fst (start_one_loop mc limit index claimed p)"
  using assms(4)
proof (induction "k - index" arbitrary: index claimed)
  case 0
  then have "index = k" by simp
  moreover from this have "can_try limit index claimed p" using assms by (simp add: can_try_def)
  ultimately show ?case using assms by (simp add: start_one_up)
next
  case (Suc n)
  have c: "can_try limit index claimed p" using assms Suc by (simp add: can_try_def)
  show ?case
  proof (cases "worker_state p index = Empty")
    case True
    then show ?thesis using c assms(3) by (simp add: start_one_up)
  next
    case False
    then show ?thesis using c Suc.hyps(1) [of "index + 1" "index + 2"] Suc.hyps(2) Suc.prems
      by (simp add: start_one_taken)
  qed
qed

lemma start_one_succeeds:
  assumes "live_ok p" "\<not> pl_stopped p" "pl_live p < start_limit mc r" "pl_live p < MAX_WORKERS"
    and "\<And>n. mc_spawn mc n"
  shows "fst (start_one mc r p)"
proof -
  obtain k where "k \<le> pl_highest p" "k < MAX_WORKERS" "worker_state p k = Empty"
    using empty_below [OF assms(1,4)] by blast
  from start_one_loop_finds [OF assms(1,3,5) _ this] assms(2,3) show ?thesis
    by (simp add: start_one_def Let_def)
qed

lemma floor_loop_reaches:
  assumes "live_ok p" "\<not> pl_stopped p" "\<And>n. mc_spawn mc n"
    and "pool_floor mc \<le> pool_target mc" "pool_floor mc \<le> MAX_WORKERS"
  shows "live_ok (floor_loop (pool_floor mc - pl_live p) mc p) \<and>
    pl_live (floor_loop (pool_floor mc - pl_live p) mc p) = max (pl_live p) (pool_floor mc)"
  using assms(1,2)
proof (induction "pool_floor mc - pl_live p" arbitrary: p)
  case 0
  then show ?case by simp
next
  case (Suc n)
  have lt: "pl_live p < pool_floor mc" using Suc.hyps(2) by simp
  obtain ok p1 where s: "start_one mc Floor p = (ok, p1)" by fastforce
  have "fst (start_one mc Floor p)"
    by (rule start_one_succeeds [OF Suc.prems]) (use lt assms in \<open>auto simp: start_limit_def\<close>)
  with s have "ok" by simp
  with start_one_result [OF Suc.prems(1), of mc Floor] s
  have p1: "live_ok p1" "\<not> pl_stopped p1" "pl_live p1 = pl_live p + 1"
    using Suc.prems by (simp_all add: start_result_def)
  then have n: "n = pool_floor mc - pl_live p1" using Suc.hyps(2) by simp
  from Suc.hyps(1) [OF n p1(1,2)] show ?case
    unfolding Suc.hyps(2) [symmetric] floor_loop.simps(2) using lt s \<open>ok\<close> p1(3) n by (simp add: max_def)
qed

text \<open>Without the kernel's help, \<open>ensure_floor\<close> still stops only at the floor or at a refusal.\<close>

lemma floor_loop_fuel:
  "live_ok p \<Longrightarrow> pool_floor mc \<le> pl_live p + n \<Longrightarrow>
   pool_floor mc \<le> pl_live (floor_loop n mc p) \<or> (\<exists>q. start_one mc Floor q = (False, floor_loop n mc p))"
proof (induction n arbitrary: p)
  case 0
  then show ?case by simp
next
  case (Suc n)
  obtain ok p1 where s: "start_one mc Floor p = (ok, p1)" by fastforce
  have r: "start_result (start_limit mc Floor) p (ok, p1)" using start_one_result [OF Suc.prems(1)] s by metis
  show ?case
  proof (cases ok)
    case True
    then have "live_ok p1" "pl_live p1 = pl_live p + 1" using r by (simp_all add: start_result_def)
    with Suc.IH [of p1] Suc.prems True s show ?thesis by auto
  next
    case False
    with s show ?thesis by (cases "pl_live p < pool_floor mc") auto
  qed
qed

section \<open>Waking and queueing\<close>

lemma wake_slot_eq: "wake_slot ts = (if ts_state ts = Parked then (True, ts\<lparr>ts_state := Idle\<rparr>) else (False, ts))"
  by (simp add: slot_ops)

lemma on_worker_slot_frame [simp]:
  "pl_live (on_worker_slot k f p) = pl_live p" "pl_highest (on_worker_slot k f p) = pl_highest p"
  "pl_table (on_worker_slot k f p) = pl_table p" "pl_injector (on_worker_slot k f p) = pl_injector p"
  "pl_failed (on_worker_slot k f p) = pl_failed p"
  "worker_state (on_worker_slot k f p) j = (if j = k then ts_state (f (wk_slot (pl_workers p k))) else worker_state p j)"
  by (simp_all add: on_worker_slot_def)

text \<open>One parked worker of those searched is taken out of its park, and no other is touched.\<close>

lemma wake_workers_spec:
  "\<exists>k \<in> set ks. worker_state p k = Parked \<Longrightarrow>
   \<exists>k \<in> set ks. worker_state p k = Parked \<and>
     wake_workers ks p = (True, on_worker_slot k (\<lambda>ts. snd (wake_slot ts)) p)"
  by (induction ks) (auto simp: wake_slot_eq)

lemma wake_workers_none: "\<forall>k \<in> set ks. worker_state p k \<noteq> Parked \<Longrightarrow> wake_workers ks p = (False, p)"
  by (induction ks) auto

lemma rotation_set: "set (rotation start n) = {..<n}"
proof (cases "n = 0")
  case False
  have "k \<in> (\<lambda>j. (start + j) mod n) ` {0..<n}" if k: "k < n" for k
  proof
    let ?j = "(n - start mod n + k) mod n"
    have "start mod n < n" using False by simp
    then have "start mod n + (n - start mod n + k) = n + k" by linarith
    then have "(start mod n + (n - start mod n + k)) mod n = k" using k by simp
    then show "k = (start + ?j) mod n" by (simp add: mod_simps)
    show "?j \<in> {0..<n}" using False by simp
  qed
  with False show ?thesis by (auto simp: rotation_def)
qed (simp add: rotation_def)

lemma wake_one_spec:
  assumes "\<exists>k < pl_highest p. worker_state p k = Parked"
  shows "\<exists>k < pl_highest p. worker_state p k = Parked \<and>
    wake_one p = (True, on_worker_slot k (\<lambda>ts. snd (wake_slot ts)) (p\<lparr>pl_wake := pl_wake p + 1\<rparr>))"
proof -
  let ?p = "p\<lparr>pl_wake := pl_wake p + 1\<rparr>" and ?ks = "rotation (pl_wake p) (pl_highest p)"
  have "\<exists>k \<in> set ?ks. worker_state ?p k = Parked" using assms by (auto simp: rotation_set)
  from wake_workers_spec [OF this] show ?thesis
    using assms by (auto simp: wake_one_def rotation_set)
qed

lemma wake_workers_frame [simp]:
  "pl_table (snd (wake_workers ks p)) = pl_table p" "pl_injector (snd (wake_workers ks p)) = pl_injector p"
  by (induction ks) simp_all

lemma wake_one_frame [simp]:
  "pl_table (snd (wake_one p)) = pl_table p" "pl_injector (snd (wake_one p)) = pl_injector p"
  by (simp_all add: wake_one_def)

section \<open>Recovering a worker\<close>

text \<open>A task that can be queued again: live, and in no shared queue.\<close>

definition idle_task :: "('t, 'v, 'f) table \<Rightarrow> nat \<Rightarrow> bool" where
  "idle_task tb i \<longleftrightarrow>
     slot_ok i tb \<and> td_state (tb_mem tb i) \<noteq> Free \<and> td_queued (tb_mem tb i) \<noteq> QUEUED_SHARED"

lemma idle_task_live: "idle_task tb i \<Longrightarrow> live_slot i tb = Some (tb_mem tb i)"
  by (simp add: idle_task_def live_slot_simps)

lemma claimable_idle: "claimable tb i \<Longrightarrow> idle_task tb i"
  by (simp add: claimable_def idle_task_def QUEUED_LOCAL_def QUEUED_SHARED_def)

lemma push_frame:
  assumes "push i ij tb = (ok, ij', tb')" "j \<noteq> i"
  shows "tb_mem tb' j = tb_mem tb j" "slot_ok j tb' = slot_ok j tb"
  using assms by (auto simp: push_def link_incoming_def Let_def split: option.splits)

lemma requeue_rel:
  assumes R: "inj_rel (pl_injector p) (pl_table p) q" and i: "idle_task (pl_table p) i"
  shows "\<exists>ij tb b. requeue i p = p\<lparr>pl_injector := ij, pl_table := tb\<rparr> \<and> b < PRIORITY_BANDS \<and>
    inj_rel ij tb (q(b := q b @ [i])) \<and>
    (\<forall>j. j \<noteq> i \<longrightarrow> tb_mem tb j = tb_mem (pl_table p) j \<and> slot_ok j tb = slot_ok j (pl_table p))"
proof -
  let ?d = "tb_mem (pl_table p) i" and ?b = "min (band (tb_mem (pl_table p) i)) 3"
  have live: "live_slot i (pl_table p) = Some ?d" by (rule idle_task_live [OF i])
  have q: "td_queued ?d \<noteq> QUEUED_SHARED" using i by (simp add: idle_task_def)
  obtain ij tb where p: "push i (pl_injector p) (pl_table p) = (True, ij, tb)"
    and R': "inj_rel ij tb (q(?b := q ?b @ [i]))"
    using push_rel [OF R inj_rel_fresh [OF R live q] live] by blast
  have "requeue i p = p\<lparr>pl_injector := ij, pl_table := tb\<rparr>" using p by (simp add: requeue_def)
  moreover have "\<forall>j. j \<noteq> i \<longrightarrow> tb_mem tb j = tb_mem (pl_table p) j \<and> slot_ok j tb = slot_ok j (pl_table p)"
    using push_frame [OF p] by simp
  moreover have "?b < PRIORITY_BANDS" by (simp add: PRIORITY_BANDS_def)
  ultimately show ?thesis using R' by blast
qed

lemma requeue_all_rel:
  assumes "inj_rel (pl_injector p) (pl_table p) q" "distinct ids" "\<forall>i \<in> set ids. idle_task (pl_table p) i"
  shows "\<exists>ij tb q'. fold requeue ids p = p\<lparr>pl_injector := ij, pl_table := tb\<rparr> \<and> inj_rel ij tb q' \<and>
    mset (all_ids q') = mset (all_ids q) + mset ids \<and>
    (\<forall>j. j \<notin> set ids \<longrightarrow> tb_mem tb j = tb_mem (pl_table p) j \<and> slot_ok j tb = slot_ok j (pl_table p))"
  using assms
proof (induction ids arbitrary: p q)
  case Nil
  then show ?case by (intro exI [of _ "pl_injector p"] exI [of _ "pl_table p"] exI [of _ q]) simp
next
  case (Cons i ids)
  obtain ij tb b where r: "requeue i p = p\<lparr>pl_injector := ij, pl_table := tb\<rparr>" and b: "b < PRIORITY_BANDS"
    and R: "inj_rel ij tb (q(b := q b @ [i]))"
    and f: "\<forall>j. j \<noteq> i \<longrightarrow> tb_mem tb j = tb_mem (pl_table p) j \<and> slot_ok j tb = slot_ok j (pl_table p)"
    using requeue_rel [OF Cons.prems(1), of i] Cons.prems(3) by auto
  let ?p = "p\<lparr>pl_injector := ij, pl_table := tb\<rparr>"
  have "\<forall>j \<in> set ids. idle_task (pl_table ?p) j"
    using f Cons.prems(2,3) by (auto simp: idle_task_def)
  moreover have "inj_rel (pl_injector ?p) (pl_table ?p) (q(b := q b @ [i]))" using R by simp
  ultimately obtain ij' tb' q' where F: "fold requeue ids ?p = ?p\<lparr>pl_injector := ij', pl_table := tb'\<rparr>"
    "inj_rel ij' tb' q'" "mset (all_ids q') = mset (all_ids (q(b := q b @ [i]))) + mset ids"
    "\<forall>j. j \<notin> set ids \<longrightarrow> tb_mem tb' j = tb_mem (pl_table ?p) j \<and> slot_ok j tb' = slot_ok j (pl_table ?p)"
    using Cons.IH [of ?p "q(b := q b @ [i])"] Cons.prems(2) by (metis distinct.simps(2))
  have "fold requeue (i # ids) p = p\<lparr>pl_injector := ij', pl_table := tb'\<rparr>" using F(1) by (simp add: r)
  moreover have "mset (all_ids q') = mset (all_ids q) + mset (i # ids)"
    unfolding F(3) all_ids_push [OF b] by simp
  moreover have "\<forall>j. j \<notin> set (i # ids) \<longrightarrow> tb_mem tb' j = tb_mem (pl_table p) j \<and> slot_ok j tb' = slot_ok j (pl_table p)"
    using F(4) f by auto
  ultimately show ?case using F(2) by blast
qed

text \<open>Taking tasks out of a ring leaves the shared queue be.\<close>

lemma unqueue_rel:
  assumes "inj_rel ij tb q" "claimable tb i"
  shows "inj_rel ij (unqueue i tb) q"
proof (rule inj_rel_frame [OF assms(1)])
  fix b j assume "j \<in> set (q b)"
  then have "queued tb j" by (rule inj_rel_queued [OF assms(1)])
  then show "qlink (unqueue i tb) j = qlink tb j \<and> queued (unqueue i tb) j"
    using assms(2) by (auto simp: queued_def claimable_def QUEUED_LOCAL_def QUEUED_SHARED_def queue_next_def mark_queued_def)
qed

lemma unqueue_idle: "idle_task tb j \<Longrightarrow> idle_task (unqueue i tb) j"
  by (auto simp: idle_task_def QUEUED_NOWHERE_def QUEUED_SHARED_def)

lemma unqueue_all_rel:
  assumes "inj_rel ij tb q" "distinct ids" "\<forall>i \<in> set ids. claimable tb i"
  shows "inj_rel ij (fold (\<lambda>i tb. unqueue i tb) ids tb) q"
  using assms
proof (induction ids arbitrary: tb)
  case (Cons i ids)
  have "inj_rel ij (unqueue i tb) q" using unqueue_rel Cons.prems by auto
  moreover have "\<forall>j \<in> set ids. claimable (unqueue i tb) j"
    using Cons.prems by (auto simp: claimable_unqueue)
  ultimately show ?case using Cons.IH [of "unqueue i tb"] Cons.prems(2) by simp
qed simp

lemma unqueue_all_idle: "idle_task tb j \<Longrightarrow> idle_task (fold (\<lambda>i tb. unqueue i tb) ids tb) j"
  by (induction ids arbitrary: tb) (simp_all add: unqueue_idle)

definition lifo_ids :: "worker \<Rightarrow> nat list" where
  "lifo_ids w = (if wk_lifo w = 0 then [] else [unat (wk_lifo w) - 1])"

lemma fold_fail_task: "fold fail_task ids p = p\<lparr>pl_failed := pl_failed p @ ids\<rparr>"
  by (induction ids arbitrary: p) (simp_all add: fail_task_def)

lemma pool_take_lifo_frame [simp]:
  "pl_injector (snd (pool_take_lifo k p)) = pl_injector p" "pl_failed (snd (pool_take_lifo k p)) = pl_failed p"
  "pl_live (snd (pool_take_lifo k p)) = pl_live p" "pl_dead (snd (pool_take_lifo k p)) = pl_dead p"
  "pl_workers (snd (pool_take_lifo k p)) = (pl_workers p)(k := (pl_workers p k)\<lparr>wk_lifo := 0\<rparr>)"
  by (simp_all add: pool_take_lifo_def take_lifo_def case_prod_beta Let_def split: option.split)

lemma pool_take_lifo_claims:
  assumes "\<forall>i \<in> set (lifo_ids (pl_workers p k)). claimable (pl_table p) i"
  shows "fst (pool_take_lifo k p) = (case lifo_ids (pl_workers p k) of [] \<Rightarrow> None | i # _ \<Rightarrow> Some i)"
    and "pl_table (snd (pool_take_lifo k p)) =
      fold (\<lambda>i tb. unqueue i tb) (lifo_ids (pl_workers p k)) (pl_table p)"
  using assms by (simp_all add: pool_take_lifo_def take_lifo_def lifo_ids_def Let_def claim_local_eq)

text \<open>Everything a dead worker had comes back: what could still run is queued, the rest failed.\<close>

lemma pool_recover_rel:
  assumes R: "inj_rel (pl_injector p) (pl_table p) q" and dead: "worker_state p k = Dead"
    and ring: "ring_holds (pl_workers p k) xs" and d: "distinct (lifo_ids (pl_workers p k) @ xs)"
    and c: "\<forall>i \<in> set (lifo_ids (pl_workers p k) @ xs). claimable (pl_table p) i"
    and held: "ts_current (wk_slot (pl_workers p k)) \<le> NO_TASK"
  shows "\<exists>p' q'. pool_recover k p = Some p' \<and> inj_rel (pl_injector p') (pl_table p') q' \<and>
    mset (all_ids q') = mset (all_ids q) + mset (lifo_ids (pl_workers p k) @ xs) \<and>
    pl_failed p' = pl_failed p @ held_ids (pl_workers p k) \<and> worker_state p' k = Empty \<and>
    ring_holds (pl_workers p' k) [] \<and> lifo_ids (pl_workers p' k) = [] \<and>
    pl_live p' = pl_live p - 1 \<and> pl_dead p' = pl_dead p - 1"
proof -
  let ?w = "pl_workers p k"
  let ?l = "lifo_ids ?w" and ?u = "\<lambda>i tb. unqueue i tb"
  let ?p1 = "recovered (put_worker k (?w\<lparr>wk_slot := (wk_slot ?w)\<lparr>ts_state := Recovering\<rparr>\<rparr>) p)"
  let ?p2 = "snd (pool_take_lifo k ?p1)"
  have l1: "lifo_ids (pl_workers ?p1 k) = ?l" by (simp add: recovered_def lifo_ids_def)
  have fields1: "pl_table ?p1 = pl_table p" "pl_injector ?p1 = pl_injector p" "pl_failed ?p1 = pl_failed p"
    "pl_live ?p1 = pl_live p" "pl_dead ?p1 = pl_dead p - 1"
    "pl_workers ?p1 k = ?w\<lparr>wk_slot := (wk_slot ?w)\<lparr>ts_state := Recovering\<rparr>\<rparr>"
    by (simp_all add: recovered_def)
  have tl: "fst (pool_take_lifo k ?p1) = (case ?l of [] \<Rightarrow> None | i # _ \<Rightarrow> Some i)"
    "pl_table ?p2 = fold ?u ?l (pl_table p)"
    using pool_take_lifo_claims [of ?p1 k] c l1 fields1 by simp_all
  have R2: "inj_rel (pl_injector ?p2) (pl_table ?p2) q"
    unfolding tl(2) using R c d fields1 by (auto intro!: unqueue_all_rel)
  have idle2: "idle_task (pl_table ?p2) i" if "i \<in> set (?l @ xs)" for i
    unfolding tl(2) by (rule unqueue_all_idle) (use c that in \<open>auto intro: claimable_idle\<close>)
  define p3 where "p3 = fold requeue ?l ?p2"
  have p3: "(case fst (pool_take_lifo k ?p1) of None \<Rightarrow> ?p2 | Some i \<Rightarrow> requeue i ?p2) = p3"
    unfolding tl(1) p3_def by (simp add: lifo_ids_def)
  obtain ij3 tb3 q3 where P3: "p3 = ?p2\<lparr>pl_injector := ij3, pl_table := tb3\<rparr>" and R3: "inj_rel ij3 tb3 q3"
    and m3: "mset (all_ids q3) = mset (all_ids q) + mset ?l"
    and f3: "\<forall>j. j \<notin> set ?l \<longrightarrow> tb_mem tb3 j = tb_mem (pl_table ?p2) j \<and> slot_ok j tb3 = slot_ok j (pl_table ?p2)"
    using requeue_all_rel [OF R2, of ?l] idle2 d p3_def by auto
  have w3: "pl_workers p3 k = ?w\<lparr>wk_slot := (wk_slot ?w)\<lparr>ts_state := Recovering\<rparr>, wk_lifo := 0\<rparr>"
    unfolding P3 by (simp add: fields1)
  have c3: "claimable tb3 i" if "i \<in> set xs" for i
  proof -
    have "claimable (pl_table ?p2) i" unfolding tl(2) claimable_fold using c d that by auto
    then show ?thesis using f3 d that by (auto simp: claimable_def)
  qed
  then have all3: "filter (claimable tb3) xs = xs" by (simp add: filter_id_conv)
  have ring3: "ring_holds (pl_workers p3 k) xs" "ts_current (wk_slot (pl_workers p3 k)) \<le> NO_TASK"
    and held3: "held_ids (pl_workers p3 k) = held_ids ?w"
    unfolding w3 using ring held by (simp_all add: held_ids_def)
  obtain w' where rec: "recover_worker (pl_workers p3 k) (pl_table p3) =
      Some (xs, held_ids ?w, w', fold ?u xs tb3)" and w': "ring_holds w' []" "wk_lifo w' = 0"
    using recover_worker_spec [OF ring3(1) _ ring3(2), of tb3] d all3 held3 w3 P3 by auto
  let ?p4 = "(put_worker k w' p3)\<lparr>pl_table := fold ?u xs tb3\<rparr>"
  have R4: "inj_rel (pl_injector ?p4) (pl_table ?p4) q3"
    using unqueue_all_rel [OF R3, of xs] c3 d P3 by simp
  have idle4: "\<forall>i \<in> set xs. idle_task (pl_table ?p4) i"
    by (simp add: unqueue_all_idle [OF claimable_idle [OF c3]])
  obtain ij5 tb5 q5 where P5: "fold requeue xs ?p4 = ?p4\<lparr>pl_injector := ij5, pl_table := tb5\<rparr>"
    and R5: "inj_rel ij5 tb5 q5" and m5: "mset (all_ids q5) = mset (all_ids q3) + mset xs"
    using requeue_all_rel [OF R4 _ idle4] d by auto
  let ?p5 = "fold fail_task (held_ids ?w) (fold requeue xs ?p4)"
  have "claim_recovery (wk_slot ?w) = (True, (wk_slot ?w)\<lparr>ts_state := Recovering\<rparr>)"
    using dead by (simp add: claim_recovery_def exchange_def)
  then have "pool_recover k p = Some (left (put_worker k (release_worker (pl_workers ?p5 k)) ?p5))"
    using p3 rec by (simp add: pool_recover_def case_prod_beta Let_def)
  moreover have "ring_holds (release_worker w') []" "lifo_ids (release_worker w') = []"
    "ts_state (wk_slot (release_worker w')) = Empty"
    using w' by (simp_all add: release_worker_def lifo_ids_def slot_empty_def ring_holds_def ring_size_def ring_cells_def)
  ultimately show ?thesis
    using R5 m5 m3 unfolding fold_fail_task P5 by (auto simp: left_def P3 fields1)
qed

section \<open>Growing\<close>

text \<open>A look over the workers records that it looked, and changes nothing else of them.\<close>

definition same_workers :: "('t, 'v, 'f) pool \<Rightarrow> ('t, 'v, 'f) pool \<Rightarrow> bool" where
  "same_workers p p' \<longleftrightarrow>
     (\<forall>k. wk_slot (pl_workers p' k) = wk_slot (pl_workers p k) \<and>
          backlog (pl_workers p' k) = backlog (pl_workers p k)) \<and>
     pl_live p' = pl_live p \<and> pl_highest p' = pl_highest p \<and> pl_stopped p' = pl_stopped p"

lemma same_workers_refl: "same_workers p p"
  by (simp add: same_workers_def)

lemma same_workers_trans: "same_workers p q \<Longrightarrow> same_workers q r \<Longrightarrow> same_workers p r"
  by (simp add: same_workers_def)

lemma same_workers_moved: "same_workers p (put_worker k (snd (moved (pl_workers p k))) p)"
  by (simp add: same_workers_def moved_def backlog_def)

lemma look_over_same: "same_workers p (snd (look_over ks lk p))"
proof (induction ks arbitrary: lk p)
  case (Cons k ks)
  show ?case
    using Cons.IH same_workers_trans [OF same_workers_moved [of p k]] by (auto simp: Let_def case_prod_beta)
qed (simp add: same_workers_refl)

lemma same_workers_live: "same_workers p p' \<Longrightarrow> live_ok p \<Longrightarrow> live_ok p'"
  by (simp add: same_workers_def live_ok_def used_def)

lemma live_ok_frame [simp]:
  "live_ok (p\<lparr>pl_overloaded := n\<rparr>) = live_ok p"
  by (simp add: live_ok_def used_def)

lemma look_over_idle:
  "lk_idle lk \<Longrightarrow> lk_idle (fst (look_over ks lk p))"
  by (induction ks arbitrary: lk p) (auto simp: Let_def case_prod_beta)

lemma alive_available: "available st \<Longrightarrow> alive st"
  by (auto simp: available_def alive_def)

lemma look_over_finds:
  "k \<in> set ks \<Longrightarrow> available (worker_state p k) \<Longrightarrow> backlog (pl_workers p k) = 0 \<Longrightarrow>
   lk_idle (fst (look_over ks lk p))"
proof (induction ks arbitrary: lk p)
  case (Cons j ks)
  show ?case
  proof (cases "j = k")
    case True
    with Cons.prems show ?thesis
      by (auto simp: Let_def case_prod_beta alive_available moved_def backlog_def intro!: look_over_idle)
  next
    case False
    then have "k \<in> set ks" using Cons.prems by simp
    then show ?thesis using Cons.IH False Cons.prems(2,3) by (simp add: Let_def case_prod_beta)
  qed
qed simp

lemma start_one_bound:
  "live_ok p \<Longrightarrow> pool_target mc \<le> ceiling mc \<Longrightarrow>
   live_ok (snd (start_one mc r p)) \<and> pl_live p \<le> pl_live (snd (start_one mc r p)) \<and>
   pl_live (snd (start_one mc r p)) \<le> max (pl_live p) (ceiling mc)"
  using start_one_result [of p mc r]
  by (auto simp: start_result_def start_limit_def split: if_splits start_reason.splits)

lemma target_le_ceiling: "pool_target mc \<le> ceiling mc"
  by (simp add: pool_target_def)

lemma start_workers_bound:
  "live_ok p \<Longrightarrow> live_ok (start_workers mc n p) \<and> pl_live p \<le> pl_live (start_workers mc n p) \<and>
   pl_live (start_workers mc n p) \<le> max (pl_live p) (ceiling mc)"
proof (induction n arbitrary: p)
  case (Suc n)
  obtain ok p1 where s: "start_one mc Grow p = (ok, p1)" by fastforce
  note b = start_one_bound [OF Suc.prems target_le_ceiling, of mc Grow] 
  show ?case using Suc.IH [of p1] b s by (auto simp: Let_def max_def split: if_splits)
qed simp

definition grown :: "machine \<Rightarrow> ('t, 'v, 'f) pool \<Rightarrow> ('t, 'v, 'f) pool \<Rightarrow> bool" where
  "grown mc p r \<longleftrightarrow> live_ok r \<and> pl_live p \<le> pl_live r \<and> pl_live r \<le> max (pl_live p) (ceiling mc)"

lemma grown_if: "grown mc p a \<Longrightarrow> grown mc p b \<Longrightarrow> grown mc p (if c then a else b)"
  by simp

lemma grown_look: "live_ok p \<Longrightarrow> grown mc p (snd (look_over ks lk p))"
  using look_over_same [of p ks lk] same_workers_live [of p] by (auto simp: grown_def same_workers_def)

lemma grown_ticks: "grown mc p r \<Longrightarrow> grown mc p (r\<lparr>pl_overloaded := t\<rparr>)"
  by (simp add: grown_def)

lemma grown_start: "grown mc p r \<Longrightarrow> grown mc p (snd (start_one mc Grow r))"
  using start_one_bound [OF _ target_le_ceiling, of r mc Grow] by (auto simp: grown_def)

lemma grown_starts: "grown mc p r \<Longrightarrow> grown mc p (start_workers mc n r)"
  using start_workers_bound [of r mc n] by (auto simp: grown_def)

lemma grow_bound: "live_ok p \<Longrightarrow> grown mc p (grow mc p)"
proof -
  assume p: "live_ok p"
  then have "grown mc p p" by (simp add: grown_def)
  with grown_look [OF p, of mc] show ?thesis
    unfolding grow_def Let_def case_prod_beta by (intro grown_if grown_start grown_starts grown_ticks) auto
qed

section \<open>Earning a thread\<close>

lemma earned_run:
  "k + n \<le> over + 1 \<Longrightarrow> over + 2 < 2 ^ 32 \<Longrightarrow>
   calls (earned True over) (n + m) (of_nat k) = replicate n False @ calls (earned True over) m (of_nat (k + n))"
proof (induction n arbitrary: k)
  case (Suc n)
  have "unat (of_nat k :: u32) = k" using Suc.prems by (simp add: unat_of_nat)
  then have "earned True over (of_nat k) = (False, of_nat (Suc k))"
    using Suc.prems by (simp add: earned_def Let_def add.commute)
  with Suc.IH [of "Suc k"] Suc.prems show ?case by simp
qed simp

section \<open>Properties\<close>

text \<open>
  the pool can always be brought back to its floor. Whatever slots are in use, with the
  pool open, counts that are right and a kernel that grants threads, \<open>ensure_floor\<close> leaves at
  least one worker per core and never stops one that is there; the counts stay right.
\<close>
theorem floor_restored:
  assumes "live_ok p" "\<not> pl_stopped p" "\<forall>n. mc_spawn mc n"
    and "cores mc \<le> MAX_WORKERS" "tuning_check (mc_tuning mc) = Inr ()"
    and "cores mc * tn_workers_per_core (mc_tuning mc) < 2 ^ 64"
  shows "live_ok (ensure_floor mc p) \<and> pl_live (ensure_floor mc p) = max (pl_live p) (pool_floor mc)"
proof -
  have "pool_floor mc \<le> MAX_WORKERS" using assms(4) by (simp add: pool_floor_def)
  with floor_loop_reaches [OF assms(1,2) _ target_bounds(1) [OF assms(4-6)]] assms(2,3)
  show ?thesis by (simp add: ensure_floor_def)
qed

definition ex_machine :: machine where
  "ex_machine =
     \<lparr>mc_online = 4, mc_taskthreads = Some 2048, mc_tuning = tuning_new, mc_spawn = (\<lambda>_. True),
      mc_in_wait = (\<lambda>_. False), mc_manager = True, mc_page = 16384, mc_freed = (\<lambda>_. True),
      mc_zeroes = (\<lambda>_. True), mc_granted = (\<lambda>_. True)\<rparr>"

lemma ex_machine_sizes: "pool_floor ex_machine = 4" "pool_target ex_machine = 16" "ceiling ex_machine = 1792"
  by (simp_all add: pool_floor_def pool_target_def ceiling_def clamp_def cores_def thread_budget_def
      ex_machine_def tuning_new_def atap_consts)

lemma pool_new_live: "live_ok (pool_open pool_new)"
  by (simp add: live_ok_def used_def pool_open_def pool_new_def worker_new_def thread_slot_new_def)

theorem floor_restored_witness:
  "pl_live (ensure_floor ex_machine (pool_open pool_new :: (nat, nat, nat) pool)) = 4"
proof -
  have "tuning_check tuning_new = Inr ()" by (simp add: tuning_check_def tuning_new_def atap_consts)
  then have "live_ok (ensure_floor ex_machine (pool_open pool_new :: (nat, nat, nat) pool)) \<and>
      pl_live (ensure_floor ex_machine (pool_open pool_new :: (nat, nat, nat) pool)) =
      max (pl_live (pool_open pool_new :: (nat, nat, nat) pool)) (pool_floor ex_machine)"
    by (intro floor_restored [OF pool_new_live])
      (simp_all add: pool_open_def ex_machine_def cores_def tuning_new_def atap_consts)
  then show ?thesis by (simp add: ex_machine_sizes pool_open_def pool_new_def)
qed



text \<open>
  a thread past the target is earned by overload that lasts. With \<open>over\<close> threads past
  the target already, the first \<open>over + 1\<close> ticks of overload in a row earn nothing and the next
  one earns a thread; a tick without overload starts the count again.
\<close>
theorem earned_by_lasting_overload:
  assumes "over + 2 < 2 ^ 32"
  shows "calls (earned True over) (over + 2) 0 = replicate (over + 1) False @ [True] \<and>
    earned False over ticks = (False, 0)"
proof -
  have "calls (earned True over) ((over + 1) + 1) (of_nat 0) =
      replicate (over + 1) False @ calls (earned True over) 1 (of_nat (0 + (over + 1)))"
    by (rule earned_run) (use assms in simp_all)
  moreover have "unat (of_nat (over + 1) :: u32) = over + 1"
    using assms by (subst unat_of_nat) simp
  then have "calls (earned True over) 1 (of_nat (0 + (over + 1))) = [True]"
    by (simp add: earned_def Let_def numeral_eq_Suc)
  moreover have "(over + 1) + 1 = over + 2" by simp
  ultimately show ?thesis by (simp add: earned_def)
qed

theorem earned_by_lasting_overload_witness:
  "calls (earned True 3) 5 0 = replicate 4 False @ [True]"
  using earned_by_lasting_overload [of 3] by simp

text \<open>
  queueing a task puts it last in the band its priority picks, and if a worker of the
  pool is parked, exactly one is taken out of its park. Nobody else's state changes.
\<close>
theorem submit_queues_and_wakes:
  assumes R: "inj_rel (pl_injector p) (pl_table p) q" and i: "idle_task (pl_table p) i"
    and up: "\<not> pl_stopped p" "pl_dead p = 0" "0 < pl_live p"
    and parked: "pl_parked p \<noteq> 0" "\<exists>k < pl_highest p. worker_state p k = Parked"
  shows "\<exists>p' b k. submit mc i p = Some (True, p') \<and> b = min (band (tb_mem (pl_table p) i)) 3 \<and>
    inj_rel (pl_injector p') (pl_table p') (q(b := q b @ [i])) \<and> worker_state p k = Parked \<and>
    (\<forall>j. worker_state p' j = (if j = k then Idle else worker_state p j))"
proof -
  let ?d = "tb_mem (pl_table p) i" and ?b = "min (band (tb_mem (pl_table p) i)) 3"
  have live: "live_slot i (pl_table p) = Some ?d" by (rule idle_task_live [OF i])
  have q: "td_queued ?d \<noteq> QUEUED_SHARED" using i by (simp add: idle_task_def)
  obtain ij tb where p: "push i (pl_injector p) (pl_table p) = (True, ij, tb)"
    and R': "inj_rel ij tb (q(?b := q ?b @ [i]))"
    using push_rel [OF R inj_rel_fresh [OF R live q] live] by blast
  let ?p = "p\<lparr>pl_injector := ij, pl_table := tb\<rparr>"
  have "\<exists>k < pl_highest ?p. worker_state ?p k = Parked" using parked(2) by simp
  from wake_one_spec [OF this] obtain k where k: "worker_state p k = Parked" and
    w: "wake_one ?p = (True, on_worker_slot k (\<lambda>ts. snd (wake_slot ts)) (?p\<lparr>pl_wake := pl_wake ?p + 1\<rparr>))"
    by auto
  have "submit mc i p = Some (True, snd (wake_one ?p))"
    using up parked(1) p by (simp add: submit_def sweep_if_dead_def)
  moreover have "inj_rel (pl_injector (snd (wake_one ?p))) (pl_table (snd (wake_one ?p))) (q(?b := q ?b @ [i]))"
    using R' by simp
  moreover have "\<forall>j. worker_state (snd (wake_one ?p)) j = (if j = k then Idle else worker_state p j)"
    unfolding w using k by (simp add: wake_slot_eq)
  ultimately show ?thesis using k by blast
qed

text \<open>One parked worker and one task to queue.\<close>

definition ex_pool :: "(nat, nat, nat) pool" where
  "ex_pool =
     (put_worker 0 (worker_new\<lparr>wk_slot := thread_slot_new\<lparr>ts_state := Parked\<rparr>\<rparr>) (pool_open pool_new))
       \<lparr>pl_live := 1, pl_highest := 1, pl_parked := 1, pl_table := ex_table\<rparr>"

lemma ex_pool_rel: "inj_rel (pl_injector ex_pool) (pl_table ex_pool) (\<lambda>_. [])"
  using injector_new_rel [of ex_table] by (simp add: ex_pool_def pool_open_def pool_new_def)

lemma ex_pool_idle: "idle_task (pl_table ex_pool) 1"
  using ex_live(2) ex_unqueued by (simp add: idle_task_def ex_pool_def live_slot_simps split: if_splits)

theorem submit_queues_and_wakes_witness:
  "\<exists>p' b k. submit ex_machine 1 ex_pool = Some (True, p') \<and> b = 3 \<and>
     inj_rel (pl_injector p') (pl_table p') ((\<lambda>_. [])(b := [1])) \<and> worker_state ex_pool k = Parked \<and>
     (\<forall>j. worker_state p' j = (if j = k then Idle else worker_state ex_pool j))"
proof -
  have "tb_mem (pl_table ex_pool) 1 = ex_task 255 1" by (simp add: ex_pool_def ex_table_def)
  then show ?thesis
    using submit_queues_and_wakes [OF ex_pool_rel ex_pool_idle, of ex_machine] ex_band(2)
    by (simp add: ex_pool_def pool_open_def pool_new_def put_worker_def)
qed

text \<open>
  C14: nothing is lost when a worker's thread dies. Clearing up after it queues every task of
  its LIFO slot and its ring again, each once, fails exactly the tasks it was running, empties
  the slot for the next thread, and takes the thread out of the counts.
\<close>
theorem recovery_loses_nothing:
  assumes "inj_rel (pl_injector p) (pl_table p) q" "worker_state p k = Dead"
    and "ring_holds (pl_workers p k) xs" "distinct (lifo_ids (pl_workers p k) @ xs)"
    and "\<forall>i \<in> set (lifo_ids (pl_workers p k) @ xs). claimable (pl_table p) i"
    and "ts_current (wk_slot (pl_workers p k)) \<le> NO_TASK"
  shows "\<exists>p' q'. pool_recover k p = Some p' \<and> inj_rel (pl_injector p') (pl_table p') q' \<and>
    mset (all_ids q') = mset (all_ids q) + mset (lifo_ids (pl_workers p k) @ xs) \<and>
    pl_failed p' = pl_failed p @ held_ids (pl_workers p k) \<and> worker_state p' k = Empty \<and>
    ring_holds (pl_workers p' k) [] \<and> lifo_ids (pl_workers p' k) = [] \<and>
    pl_live p' = pl_live p - 1 \<and> pl_dead p' = pl_dead p - 1"
  by (rule pool_recover_rel [OF assms])

text \<open>A worker that died running task 5 with task 1 in its LIFO slot.\<close>

definition ex_dead :: "(nat, nat, nat) pool" where
  "ex_dead =
     (put_worker 0 (worker_new\<lparr>wk_slot := hold 5 (thread_slot_new\<lparr>ts_state := Dead\<rparr>), wk_lifo := 2\<rparr>)
        (pool_open pool_new))
       \<lparr>pl_live := 1, pl_highest := 1, pl_dead := 1, pl_lifo_filled := 1, pl_table := ex_local\<rparr>"

lemma worker_new_ring: "ring_holds worker_new []"
  by (simp add: ring_holds_def worker_new_def ring_size_def ring_cells_def)

theorem recovery_loses_nothing_witness:
  "\<exists>p' q'. pool_recover 0 ex_dead = Some p' \<and> inj_rel (pl_injector p') (pl_table p') q' \<and>
     mset (all_ids q') = {#1#} \<and> pl_failed p' = [5] \<and> worker_state p' 0 = Empty \<and> pl_live p' = 0"
proof -
  let ?w = "pl_workers ex_dead 0"
  have w: "?w = worker_new\<lparr>wk_slot := hold 5 (thread_slot_new\<lparr>ts_state := Dead\<rparr>), wk_lifo := 2\<rparr>"
    by (simp add: ex_dead_def)
  have l: "lifo_ids ?w = [1]" unfolding w by (simp add: lifo_ids_def)
  have h: "held_ids ?w = [5]" unfolding w by (simp add: held_ids_def hold_def worker_new_def)
  have "inj_rel (pl_injector ex_dead) (pl_table ex_dead) (\<lambda>_. [])"
    using injector_new_rel [of ex_local] by (simp add: ex_dead_def pool_open_def pool_new_def)
  moreover have "worker_state ex_dead 0 = Dead" unfolding w by (simp add: hold_def)
  moreover have "ring_holds ?w []" unfolding w using worker_new_ring by simp
  moreover have "ts_current (wk_slot ?w) \<le> NO_TASK" unfolding w by (simp add: hold_def NO_TASK_def)
  moreover have "claimable (pl_table ex_dead) 1"
    using ex_local_claimable [of 1] by (simp add: ex_dead_def)
  ultimately obtain p' q' where "pool_recover 0 ex_dead = Some p'"
    "inj_rel (pl_injector p') (pl_table p') q'" "mset (all_ids q') = mset (all_ids (\<lambda>_. [])) + {#1#}"
    "pl_failed p' = pl_failed ex_dead @ [5]" "worker_state p' 0 = Empty" "pl_live p' = pl_live ex_dead - 1"
    using recovery_loses_nothing [of ex_dead "\<lambda>_. []" 0 "[]"] l h by auto
  moreover have "all_ids (\<lambda>_. []) = []" by (simp add: all_ids_def)
  moreover have "pl_failed ex_dead = []" "pl_live ex_dead = 1"
    by (simp_all add: ex_dead_def pool_open_def pool_new_def)
  ultimately show ?thesis by auto
qed

text \<open>
  the LIFO slot can't starve the ring. After three tasks in a row out of its LIFO slot,
  a worker with a task in its ring serves the oldest of those next, and the LIFO slot keeps
  what it holds.
\<close>
theorem lifo_gives_way:
  assumes "LIFO_STREAK \<le> wk_streak (pl_workers p k)" "ring_holds (pl_workers p k) (i # xs)"
    and "claimable (pl_table p) i"
  shows "\<exists>p'. find_work k p = Some (Some i, p') \<and> ring_holds (pl_workers p' k) xs \<and>
    wk_lifo (pl_workers p' k) = wk_lifo (pl_workers p k) \<and> wk_streak (pl_workers p' k) = 0 \<and>
    pl_injector p' = pl_injector p"
proof -
  let ?w = "took_from False (pl_workers p k)"
  have r: "ring_holds ?w (i # xs)"
    using assms(2) by (simp add: took_from_def ring_holds_def ring_size_def ring_cells_def)
  have "ring_pop ?w (pl_table p) = Some (Some i, ?w\<lparr>wk_head := wk_head ?w + 1\<rparr>, unqueue i (pl_table p))"
    using ring_pop_cons(1) [OF r, of "pl_table p"] assms(3) by (simp add: Let_def)
  moreover have "\<not> wk_streak (pl_workers p k) < LIFO_STREAK" using assms(1) by (simp add: not_less)
  ultimately show ?thesis
    using ring_pop_cons(2) [OF r] by (simp add: find_work_def beyond_lifo_def Let_def) (simp add: took_from_def)
qed

definition ex_streak :: "(nat, nat, nat) pool" where
  "ex_streak =
     (put_worker 0 ((snd (ring_push 1 worker_new))\<lparr>wk_streak := 3, wk_lifo := 3\<rparr>) (pool_open pool_new))
       \<lparr>pl_table := ex_local\<rparr>"

theorem lifo_gives_way_witness:
  "\<exists>p'. find_work 0 ex_streak = Some (Some 1, p') \<and> wk_lifo (pl_workers p' 0) = 3"
proof -
  let ?w = "snd (ring_push 1 worker_new)"
  have "ring_holds ?w [1]"
    using ring_push_holds [OF worker_new_ring, of 1]
    by (auto simp: has_room_def worker_new_def LOCAL_QUEUE_def MAX_TASK_ID_val)
  then have "ring_holds (?w\<lparr>wk_streak := 3, wk_lifo := 3\<rparr>) [1]"
    by (simp add: ring_holds_def ring_size_def ring_cells_def)
  then show ?thesis
    using lifo_gives_way [of ex_streak 0 1 "[]"] ex_local_claimable [of 1]
    by (auto simp: ex_streak_def LIFO_STREAK_def)
qed

definition idle_pool :: "(nat, nat, nat) pool" where
  "idle_pool =
     (pool_open pool_new)
       \<lparr>pl_workers := (\<lambda>k. if k < 5
          then worker_new\<lparr>wk_slot := thread_slot_new\<lparr>ts_state := Parked, ts_idle_ticks := 49\<rparr>\<rparr>
          else worker_new),
        pl_live := 5, pl_highest := 5, pl_parked := 5\<rparr>"

text \<open>
  reaping can take the pool below its floor. Stopping a worker doesn't lower the count
  the floor is compared with until that worker's thread has left, so in one pass every worker
  idle for long enough is stopped as long as the pool is one past its floor: here all five
  workers of a pool whose floor is four.
\<close>
theorem reap_passes_floor:
  "live_ok idle_pool \<and> pl_live idle_pool = pool_floor ex_machine + 1 \<and>
   (\<forall>k \<in> {0, 1, 2, 3, 4}. worker_state idle_pool k = Parked \<and>
      worker_state (reap ex_machine idle_pool) k = Stopping)"
proof (intro conjI)
  have "used idle_pool = {..<5}"
    by (auto simp: used_def idle_pool_def worker_new_def thread_slot_new_def)
  then show "live_ok idle_pool" by (simp add: live_ok_def idle_pool_def MAX_WORKERS_def)
  show "pl_live idle_pool = pool_floor ex_machine + 1"
    by (simp add: idle_pool_def ex_machine_sizes)
  have ticks: "idle_ticks = 50" by (simp add: idle_ticks_def atap_consts)
  have "reap ex_machine idle_pool = reap_loop ex_machine [0, 1, 2, 3, 4] idle_pool"
    by (simp add: reap_def idle_pool_def upt_rec numeral_eq_Suc)
  then show "\<forall>k \<in> {0, 1, 2, 3, 4}. worker_state idle_pool k = Parked \<and>
      worker_state (reap ex_machine idle_pool) k = Stopping"
    by (simp add: idle_pool_def alive_def backlog_def worker_new_def thread_slot_new_def Let_def
        ex_machine_sizes idled_def ticks stop_slot_def on_worker_slot_def put_worker_def)
qed

theorem reap_passes_floor_witness:
  "worker_state (reap ex_machine idle_pool) 4 = Stopping"
  using reap_passes_floor by simp

definition huge_machine :: machine where
  "huge_machine = ex_machine\<lparr>mc_tuning := set_workers_per_core (2 ^ 62) tuning_new\<rparr>"

text \<open>
  a size the builder accepts can leave the runtime unable to start a worker. The product
  of cores and workers per core wraps, so with four cores and a quarter of the range per core
  the target is zero, below the floor; no worker is ever started and every task is refused.
\<close>
theorem target_wraps_to_zero:
  "tuning_check (mc_tuning huge_machine) = Inr () \<and> pool_floor huge_machine = 4 \<and>
   pool_target huge_machine = 0 \<and>
   submit huge_machine i (pool_open pool_new) = Some (False, pool_open pool_new :: ('t, 'v, 'f) pool)"
proof -
  let ?p = "pool_open pool_new :: ('t, 'v, 'f) pool"
  have p: "\<not> pl_stopped ?p" "pl_live ?p = 0" "pl_dead ?p = 0" by (simp_all add: pool_open_def pool_new_def)
  have t: "pool_target huge_machine = 0"
    by (simp add: pool_target_def huge_machine_def ex_machine_def cores_def set_workers_per_core_def)
  have f: "pool_floor huge_machine = 4"
    by (simp add: pool_floor_def huge_machine_def ex_machine_def cores_def)
  have s: "start_one huge_machine Floor ?p = (False, ?p)"
    by (simp add: start_one_def start_limit_def t)
  have "floor_loop (Suc n) huge_machine ?p = ?p" for n by (simp add: s)
  from this [of 3] have "ensure_floor huge_machine ?p = ?p" using p f by (simp add: ensure_floor_def)
  moreover have "tuning_check (mc_tuning huge_machine) = Inr ()"
    by (simp add: tuning_check_def huge_machine_def set_workers_per_core_def tuning_new_def atap_consts)
  ultimately show ?thesis
    using t f p by (simp add: submit_def sweep_if_dead_def)
qed

end
