(* ===== verification/Kernel_Events.thy ===== *)
theory Kernel_Events
  imports Atap_States "HOL-Library.Monad_Syntax"
begin

text \<open>
  How the crate talks to a kernel queue: \<open>src/modules/event_desc.rs\<close>, \<open>kevent.rs\<close>,
  \<open>kqueue.rs\<close>, \<open>wake_target.rs\<close>, \<open>int_check.rs\<close>, \<open>retried.rs\<close> and \<open>park.rs\<close>, with the
  steps and parks of \<open>src/futures/task.rs\<close> and \<open>src/futures/net/step.rs\<close>.

  The numbers at the top are those of the platform's headers. What a system call answers is
  a parameter: the n-th call of a kind is answered by the value of a function at n, so any
  sequence of answers is covered.
\<close>

type_synonym u16 = "16 word"

definition EVFILT_READ :: int where "EVFILT_READ = -1"
definition EVFILT_WRITE :: int where "EVFILT_WRITE = -2"
definition EVFILT_VNODE :: int where "EVFILT_VNODE = -4"
definition EVFILT_PROC :: int where "EVFILT_PROC = -5"
definition EVFILT_SIGNAL :: int where "EVFILT_SIGNAL = -6"
definition EVFILT_TIMER :: int where "EVFILT_TIMER = -7"
definition EVFILT_USER :: int where "EVFILT_USER = -10"
definition EV_ADD :: u16 where "EV_ADD = 0x1"
definition EV_DELETE :: u16 where "EV_DELETE = 0x2"
definition EV_ENABLE :: u16 where "EV_ENABLE = 0x4"
definition EV_ONESHOT :: u16 where "EV_ONESHOT = 0x10"
definition EV_UDATA_SPECIFIC :: u16 where "EV_UDATA_SPECIFIC = 0x100"
definition EV_ERROR :: u16 where "EV_ERROR = 0x4000"
definition NOTE_NSECONDS :: u32 where "NOTE_NSECONDS = 0x4"
definition NOTE_CRITICAL :: u32 where "NOTE_CRITICAL = 0x20"
definition NOTE_TRIGGER :: u32 where "NOTE_TRIGGER = 0x1000000"
definition NOTE_EXIT :: u32 where "NOTE_EXIT = 0x80000000"
definition EINTR :: int where "EINTR = 4"

lemmas filter_defs = EVFILT_READ_def EVFILT_WRITE_def EVFILT_VNODE_def EVFILT_PROC_def
  EVFILT_SIGNAL_def EVFILT_TIMER_def EVFILT_USER_def

lemmas flag_defs = EV_ADD_def EV_DELETE_def EV_ENABLE_def EV_ONESHOT_def EV_UDATA_SPECIFIC_def
  EV_ERROR_def NOTE_NSECONDS_def NOTE_CRITICAL_def NOTE_TRIGGER_def NOTE_EXIT_def

section \<open>Descriptions of events\<close>

record event_desc =
  ed_filter :: int
  ed_flags :: u16
  ed_fflags :: u32

text \<open>One constructor for each way the source makes a description.\<close>

datatype event_kind =
    NewTimer | NewTimerDelete | NewInterval | NewUserTrigger | NewProcExit | NewProcDelete
  | NewRead | NewReadDelete | NewWrite | NewWriteDelete
  | NewPark int u32 | NewParkDelete int | NewReady int u32 | NewReadyDelete int

fun event_desc_new :: "event_kind \<Rightarrow> event_desc" where
  "event_desc_new NewTimer =
     \<lparr>ed_filter = EVFILT_TIMER, ed_flags = EV_ADD OR EV_ONESHOT,
      ed_fflags = NOTE_NSECONDS OR NOTE_CRITICAL\<rparr>"
| "event_desc_new NewTimerDelete =
     \<lparr>ed_filter = EVFILT_TIMER, ed_flags = EV_DELETE, ed_fflags = 0\<rparr>"
| "event_desc_new NewInterval =
     \<lparr>ed_filter = EVFILT_TIMER, ed_flags = EV_ADD OR EV_ENABLE, ed_fflags = NOTE_NSECONDS\<rparr>"
| "event_desc_new NewUserTrigger =
     \<lparr>ed_filter = EVFILT_USER, ed_flags = EV_ADD OR EV_ONESHOT, ed_fflags = NOTE_TRIGGER\<rparr>"
| "event_desc_new NewProcExit =
     \<lparr>ed_filter = EVFILT_PROC, ed_flags = EV_ADD OR EV_ONESHOT, ed_fflags = NOTE_EXIT\<rparr>"
| "event_desc_new NewProcDelete =
     \<lparr>ed_filter = EVFILT_PROC, ed_flags = EV_DELETE, ed_fflags = 0\<rparr>"
| "event_desc_new NewRead = \<lparr>ed_filter = EVFILT_READ, ed_flags = EV_ADD, ed_fflags = 0\<rparr>"
| "event_desc_new NewReadDelete = \<lparr>ed_filter = EVFILT_READ, ed_flags = EV_DELETE, ed_fflags = 0\<rparr>"
| "event_desc_new NewWrite = \<lparr>ed_filter = EVFILT_WRITE, ed_flags = EV_ADD, ed_fflags = 0\<rparr>"
| "event_desc_new NewWriteDelete = \<lparr>ed_filter = EVFILT_WRITE, ed_flags = EV_DELETE, ed_fflags = 0\<rparr>"
| "event_desc_new (NewPark filtr notes) =
     \<lparr>ed_filter = filtr, ed_flags = EV_ADD OR EV_ONESHOT OR EV_UDATA_SPECIFIC, ed_fflags = notes\<rparr>"
| "event_desc_new (NewParkDelete filtr) =
     \<lparr>ed_filter = filtr, ed_flags = EV_DELETE OR EV_UDATA_SPECIFIC, ed_fflags = 0\<rparr>"
| "event_desc_new (NewReady filtr notes) =
     \<lparr>ed_filter = filtr, ed_flags = EV_ADD OR EV_ONESHOT, ed_fflags = notes\<rparr>"
| "event_desc_new (NewReadyDelete filtr) =
     \<lparr>ed_filter = filtr, ed_flags = EV_DELETE, ed_fflags = 0\<rparr>"

record kevent =
  ke_ident :: nat
  ke_filter :: int
  ke_flags :: u16
  ke_fflags :: u32
  ke_data :: int
  ke_udata :: nat

definition kevent_create :: "nat \<Rightarrow> int \<Rightarrow> nat \<Rightarrow> event_desc \<Rightarrow> kevent" where
  "kevent_create i data udata desc =
     \<lparr>ke_ident = i, ke_filter = ed_filter desc, ke_flags = ed_flags desc,
      ke_fflags = ed_fflags desc, ke_data = data, ke_udata = udata\<rparr>"

section \<open>Statuses\<close>

definition check :: "int \<Rightarrow> int option \<Rightarrow> int res" where
  "check status errno = (if status < 0 then Inl (CheckError errno) else Inr status)"

partial_function (option) retried :: "(nat \<Rightarrow> int \<times> int option) \<Rightarrow> nat \<Rightarrow> int res option" where
  [code]: "retried answer n =
     (let r = check (fst (answer n)) (snd (answer n)) in
      if r = Inl (CheckError (Some EINTR)) then retried answer (n + 1) else Some r)"

section \<open>Waiting on a queue\<close>

datatype waited = Arrived | WaitCancelled | WaitFailed

text \<open>
  One look through the events of a wake: \<open>cancelled\<close> is what the task's own state says at that
  moment. \<open>None\<close> is nothing of this task's.
\<close>

fun scan_events :: "bool \<Rightarrow> nat \<Rightarrow> int \<Rightarrow> kevent list \<Rightarrow> waited option" where
  "scan_events cancelled ident filtr [] = None"
| "scan_events cancelled ident filtr (e # es) =
     (if ke_flags e AND EV_ERROR \<noteq> 0 then scan_events cancelled ident filtr es
      else if ke_ident e = ident \<and> ke_filter e = filtr then Some Arrived
      else if ke_ident e = WAKE_IDENT \<and> ke_filter e = EVFILT_USER then
        (if cancelled then Some WaitCancelled else scan_events cancelled ident filtr es)
      else scan_events cancelled ident filtr es)"

partial_function (option) wait_for_within ::
  "(nat \<Rightarrow> kevent list res) \<Rightarrow> (nat \<Rightarrow> bool) \<Rightarrow> nat \<Rightarrow> int \<Rightarrow> bool \<Rightarrow> nat \<Rightarrow> waited option" where
  [code]: "wait_for_within listened cancelled ident filtr within n =
     (case listened n of
        Inl err \<Rightarrow>
          if err = CheckError (Some EINTR)
          then wait_for_within listened cancelled ident filtr within (n + 1)
          else Some WaitFailed
      | Inr es \<Rightarrow>
          (case scan_events (cancelled n) ident filtr es of
             Some r \<Rightarrow> Some r
           | None \<Rightarrow>
               if within then Some Arrived
               else wait_for_within listened cancelled ident filtr within (n + 1)))"

partial_function (option) wait_any :: "(nat \<Rightarrow> kevent list res) \<Rightarrow> nat \<Rightarrow> nat option" where
  [code]: "wait_any listened n =
     (if listened n = Inl (CheckError (Some EINTR)) then wait_any listened (n + 1) else Some n)"

section \<open>Wake targets\<close>

datatype wake_target = NoTarget | QueueTarget int | ParkedTarget u64

fun encode_target :: "wake_target \<Rightarrow> u64" where
  "encode_target NoTarget = 0"
| "encode_target (QueueTarget queue) = push_bit 1 (of_int queue + 1)"
| "encode_target (ParkedTarget waiter) = waiter OR 1"

definition decode_target :: "u64 \<Rightarrow> wake_target" where
  "decode_target raw =
     (if raw = 0 then NoTarget
      else if raw AND 1 = 1 then ParkedTarget (raw AND NOT 1)
      else QueueTarget (signed_take_bit 31 (uint (drop_bit 1 raw - 1))))"

section \<open>Steps and parks\<close>

text \<open>A signed number as the unsigned word of the machine.\<close>

definition usize_of :: "int \<Rightarrow> nat" where
  "usize_of k = nat (k mod 2 ^ 64)"

record park_req =
  pk_ident :: int
  pk_filter :: int
  pk_notes :: u32
  pk_deadline :: "nat option"

datatype 'a step = Done 'a | Park park_req

definition wait_on :: "int \<Rightarrow> int \<Rightarrow> 'a step res" where
  "wait_on ident filtr =
     Inr (Park \<lparr>pk_ident = ident, pk_filter = filtr, pk_notes = 0, pk_deadline = None\<rparr>)"

definition settle :: "'a res step res \<Rightarrow> 'a res step" where
  "settle s = (case s of Inl err \<Rightarrow> Done (Inl err) | Inr st \<Rightarrow> st)"

text \<open>
  What a thread that can't give itself back does between two steps. \<open>queue\<close> is its own queue
  or the refusal of one, \<open>accepted\<close> whether the watch went on.
\<close>

datatype wait_act = SleepFor nat | Change kevent | ListenFor nat | Listen

definition READY_POLL :: nat where [atap_consts]: "READY_POLL = 10 * 1000000"

definition wait_ready :: "nat \<Rightarrow> int res \<Rightarrow> bool \<Rightarrow> park_req \<Rightarrow> wait_act list" where
  "wait_ready now queue accepted pk =
     (case map_option (\<lambda>d. d - now) (pk_deadline pk) of
        Some 0 \<Rightarrow> []
      | left \<Rightarrow>
          (let poll = (case left of None \<Rightarrow> READY_POLL | Some l \<Rightarrow> min l READY_POLL);
               ev = (\<lambda>k. kevent_create (usize_of (pk_ident pk)) 0 0 (event_desc_new k))
           in case queue of
                Inl _ \<Rightarrow> [SleepFor poll]
              | Inr _ \<Rightarrow>
                  if \<not> accepted then [Change (ev (NewReady (pk_filter pk) (pk_notes pk))), SleepFor poll]
                  else
                    [Change (ev (NewReady (pk_filter pk) (pk_notes pk))),
                     (case left of Some l \<Rightarrow> ListenFor l | None \<Rightarrow> Listen),
                     Change (ev (NewReadyDelete (pk_filter pk)))]))"

text \<open>
  A task that parks, run to its end on one thread. \<open>stepped\<close> is the task's own code, on its
  state and the state of everything else, and \<open>waited\<close> what happens meanwhile to the latter.
\<close>

partial_function (option) drive ::
  "('t \<Rightarrow> 's \<Rightarrow> 'o step \<times> 't \<times> 's) \<Rightarrow> (park_req \<Rightarrow> 's \<Rightarrow> 's) \<Rightarrow> 't \<Rightarrow> 's \<Rightarrow> ('o \<times> 's) option" where
  [code]: "drive stepped waited t s =
     (case stepped t s of
        (Done out, _, s1) \<Rightarrow> Some (out, s1)
      | (Park pk, t1, s1) \<Rightarrow> drive stepped waited t1 (waited pk s1))"

section \<open>Facts\<close>

declare retried.simps [simp del] wait_for_within.simps [simp del] wait_any.simps [simp del]
  drive.simps [simp del]

text \<open>A call that is not interrupted for ever returns its first real answer.\<close>

lemma retried_returns:
  assumes "\<And>k. n \<le> k \<Longrightarrow> k < m \<Longrightarrow> check (fst (answer k)) (snd (answer k)) = Inl (CheckError (Some EINTR))"
    and "check (fst (answer m)) (snd (answer m)) \<noteq> Inl (CheckError (Some EINTR))" and "n \<le> m"
  shows "retried answer n = Some (check (fst (answer m)) (snd (answer m)))"
  using assms(3,1)
proof (induction n rule: inc_induct)
  case base
  then show ?case using assms(2) by (simp add: retried.simps)
next
  case (step n)
  then show ?case by (subst retried.simps) (simp add: Let_def)
qed

lemma scan_events_arrives:
  assumes "e \<in> set es" "ke_flags e AND EV_ERROR = 0" "ke_ident e = ident" "ke_filter e = filtr"
  shows "scan_events cancelled ident filtr es \<noteq> None"
  using assms by (induction es) auto

lemma scan_events_sound:
  "scan_events cancelled ident filtr es = Some Arrived \<Longrightarrow>
     \<exists>e\<in>set es. ke_ident e = ident \<and> ke_filter e = filtr"
  "scan_events cancelled ident filtr es = Some WaitCancelled \<Longrightarrow> cancelled"
  "scan_events cancelled ident filtr es \<noteq> Some WaitFailed"
  by (induction es) (auto split: if_splits)

lemma wait_for_within_returns:
  assumes "\<And>k. n \<le> k \<Longrightarrow> k < m \<Longrightarrow>
      listened k = Inl (CheckError (Some EINTR)) \<or>
      (\<exists>es. listened k = Inr es \<and> scan_events (cancelled k) ident filtr es = None)"
    and "listened m = Inr es" "scan_events (cancelled m) ident filtr es = Some r" "n \<le> m"
  shows "wait_for_within listened cancelled ident filtr False n = Some r"
  using assms(4,1)
proof (induction n rule: inc_induct)
  case base
  then show ?case using assms(2,3) by (simp add: wait_for_within.simps)
next
  case (step n)
  from step.prems [of n] step.hyps
  have "wait_for_within listened cancelled ident filtr False n =
    wait_for_within listened cancelled ident filtr False (n + 1)"
    by (subst wait_for_within.simps) auto
  with step show ?case by simp
qed

lemma push_bit_even: "push_bit 1 (w :: u64) AND 1 = 0"
  by (simp add: push_bit_eq_mult and_one_eq mod_2_eq_odd)

lemma drop_push_one: "unat (w :: u64) < 2 ^ 63 \<Longrightarrow> drop_bit 1 (push_bit 1 w) = w"
proof -
  assume w: "unat w < 2 ^ 63"
  then have "unat (w * 2) = unat w * 2" by (subst unat_word_ariths) simp
  then have "unat (drop_bit 1 (push_bit 1 w)) = unat w"
    by (simp add: drop_bit_eq_div push_bit_eq_mult unat_div_distrib)
  then show ?thesis by (simp add: word_unat_eq_iff)
qed

text \<open>A target packed into an event's user data is the one read back from it.\<close>

lemma target_roundtrip_queue:
  assumes "0 \<le> queue" "queue < 2 ^ 31"
  shows "decode_target (encode_target (QueueTarget queue)) = QueueTarget queue"
proof -
  let ?w = "of_int queue + 1 :: u64"
  have u: "unat (of_int queue :: u64) = nat queue"
    using assms by (simp add: unsigned_of_int take_bit_int_eq_self unat_eq_nat_uint)
  then have w: "unat ?w = Suc (nat queue)" using assms by (subst unat_plus_one) simp_all
  have d: "drop_bit 1 (push_bit 1 ?w) = ?w" by (rule drop_push_one) (use w assms in simp)
  have "push_bit 1 ?w \<noteq> 0"
    using d w by (metis drop_bit_of_0 nat.distinct(1) unsigned_0)
  moreover have "push_bit 1 ?w AND 1 \<noteq> 1" by (metis push_bit_even zero_neq_one)
  moreover have "signed_take_bit 31 (uint (of_int queue :: u64)) = queue"
    using u assms by (simp add: signed_take_bit_int_eq_self uint_word_of_int_eq take_bit_int_eq_self)
  ultimately show ?thesis by (simp only: encode_target.simps decode_target_def d if_False add_diff_cancel_right')
qed

lemma target_roundtrip_waiter:
  assumes "waiter AND 1 = 0"
  shows "decode_target (encode_target (ParkedTarget waiter)) = ParkedTarget waiter"
proof -
  have "(waiter OR 1) AND 1 = 1" by (simp add: and.commute bit.conj_disj_distrib)
  moreover have "(waiter OR 1) \<noteq> 0" by (metis bit.conj_cancel_right calculation bit.conj_zero_left zero_neq_one)
  moreover have "(waiter OR 1) AND NOT 1 = waiter"
  proof (rule bit_eqI)
    fix n assume "possible_bit TYPE(u64) n"
    moreover have "\<not> bit waiter 0" using assms by (simp add: and_one_eq bit_0 mod2_eq_if split: if_splits)
    ultimately show "bit ((waiter OR 1) AND NOT 1) n = bit waiter n"
      by (cases n) (auto simp: bit_simps)
  qed
  ultimately show ?thesis by (simp add: decode_target_def)
qed

end
