(* ===== verification/Executor.thy ===== *)
theory Executor
  imports Pool Kernel_Events
begin

text \<open>
  \<open>src/executor.rs\<close>: every way a task is made, started, run, parked, given to, read, ended
  and let go, with \<open>src/modules/series.rs\<close>, \<open>gated.rs\<close>, \<open>mailbox.rs\<close> and
  \<open>erased_task.rs\<close>, whose code runs as part of a task.

  \<open>world\<close> is the state of the process: the pool with its queues and the task table, the
  executor's own words, the acting thread's locals, the mailboxes, and a record of what was
  asked of the outside, in order: changes to kernel queues with the kernel's answer, listeners
  woken, calls on the far ends of registrations, the user's tasks and outputs dropped.
  \<open>env\<close> holds what the outside decides: which changes the kernel takes, how far ends answer,
  and what the user's types look like. The user's code is an argument of \<open>run_task\<close>: any
  function of the task's state and the world, so it may call the runtime itself.

  Each operation is one thread's, without interference by others; far ends are called after
  the operation that records the calls. \<open>None\<close> is an operation that doesn't return: a pop
  from a circular queue, or a panic outside the part of a run that catches them.
\<close>

section \<open>The world\<close>

text \<open>The crate's own tasks around a user's: one run of a series, and a task that waits.\<close>

datatype 'u erased = Bare 'u | GatedTask 'u | SeriesRun nat "'u erased"

datatype lifecycle = STOPPED | STARTING | LIVE | STOPPING

record ('u, 'v, 'f) world =
  wd_pool :: "('u erased, 'v, 'f) pool"
  wd_manager :: int
  wd_sequence :: u64
  wd_lifecycle :: lifecycle
  wd_ready :: bool
  wd_faults :: u32
  wd_current :: nat
  wd_worker :: "nat option"
  wd_depth :: nat
  wd_limit :: nat
  wd_clock :: clock
  wd_mail :: "nat \<Rightarrow> 'v option"
  wd_changes :: "(bool \<times> int \<times> kevent) list"
  wd_woken :: "nat list"
  wd_calls :: "('f, 'v) far_call list"
  wd_dropped :: "'u list"
  wd_discarded :: "'v list"

record ('u, 'v, 'f) env =
  en_machine :: machine
  en_accepts :: "nat \<Rightarrow> bool"
  en_panics :: "'f \<Rightarrow> 'v \<Rightarrow> bool"
  en_finished :: "'f \<Rightarrow> bool"
  en_blocking :: "'u \<Rightarrow> bool"
  en_layout :: "'u \<Rightarrow> nat \<times> nat"
  en_mapped :: "nat \<Rightarrow> bool"
  en_unit :: 'v

text \<open>The statics as the process starts with them.\<close>

definition world_new :: "clock \<Rightarrow> ('u, 'v, 'f) world" where
  "world_new ck =
     \<lparr>wd_pool = pool_new, wd_manager = DEAD_KQUEUE_ID, wd_sequence = 0, wd_lifecycle = STOPPED,
      wd_ready = False, wd_faults = 0, wd_current = NO_TASK, wd_worker = None, wd_depth = 0,
      wd_limit = 0, wd_clock = ck, wd_mail = (\<lambda>_. None), wd_changes = [], wd_woken = [],
      wd_calls = [], wd_dropped = [], wd_discarded = []\<rparr>"

abbreviation wd_table :: "('u, 'v, 'f) world \<Rightarrow> ('u erased, 'v, 'f) table" where
  "wd_table w \<equiv> pl_table (wd_pool w)"

abbreviation mem :: "nat \<Rightarrow> ('u, 'v, 'f) world \<Rightarrow> ('u erased, 'v, 'f) task_data" where
  "mem i w \<equiv> tb_mem (wd_table w) i"

abbreviation live_task :: "nat \<Rightarrow> ('u, 'v, 'f) world \<Rightarrow> ('u erased, 'v, 'f) task_data option" where
  "live_task i w \<equiv> live_slot i (wd_table w)"

definition on_table ::
  "(('u erased, 'v, 'f) table \<Rightarrow> ('u erased, 'v, 'f) table) \<Rightarrow> ('u, 'v, 'f) world \<Rightarrow> ('u, 'v, 'f) world" where
  "on_table f w = w\<lparr>wd_pool := (wd_pool w)\<lparr>pl_table := f (wd_table w)\<rparr>\<rparr>"

definition put_task ::
  "nat \<Rightarrow> ('u erased, 'v, 'f) task_data \<Rightarrow> ('u, 'v, 'f) world \<Rightarrow> ('u, 'v, 'f) world" where
  "put_task i d w = on_table (put_slot i d) w"

definition on_task ::
  "nat \<Rightarrow> (('u erased, 'v, 'f) task_data \<Rightarrow> ('u erased, 'v, 'f) task_data) \<Rightarrow> ('u, 'v, 'f) world
    \<Rightarrow> ('u, 'v, 'f) world" where
  "on_task i f w = put_task i (f (mem i w)) w"

definition machine_of :: "('u, 'v, 'f) env \<Rightarrow> ('u, 'v, 'f) world \<Rightarrow> machine" where
  "machine_of en w = (en_machine en)\<lparr>mc_manager := wd_manager w \<noteq> DEAD_KQUEUE_ID\<rparr>"

text \<open>A change put to a kernel queue, and whether the kernel took it.\<close>

definition kregister ::
  "('u, 'v, 'f) env \<Rightarrow> int \<Rightarrow> nat \<Rightarrow> int \<Rightarrow> nat \<Rightarrow> event_kind \<Rightarrow> ('u, 'v, 'f) world
    \<Rightarrow> bool \<times> ('u, 'v, 'f) world" where
  "kregister en kq ident data udata k w =
     (let ok = en_accepts en (length (wd_changes w)) in
      (ok, w\<lparr>wd_changes := wd_changes w @ [(ok, kq, kevent_create ident data udata (event_desc_new k))]\<rparr>))"

text \<open>A change to the manager's queue, which is refused once there is none.\<close>

definition manager_change ::
  "('u, 'v, 'f) env \<Rightarrow> nat \<Rightarrow> int \<Rightarrow> nat \<Rightarrow> event_kind \<Rightarrow> ('u, 'v, 'f) world
    \<Rightarrow> bool \<times> ('u, 'v, 'f) world" where
  "manager_change en ident data udata k w =
     (if wd_manager w = DEAD_KQUEUE_ID then (False, w)
      else kregister en (wd_manager w) ident data udata k w)"

definition intptr_MAX :: nat where "intptr_MAX = 2 ^ 63 - 1"

definition shutting_down :: "('u, 'v, 'f) world \<Rightarrow> bool" where
  "shutting_down w \<longleftrightarrow> wd_lifecycle w = STOPPING \<or> wd_lifecycle w = STOPPED"

definition manager_alive :: "('u, 'v, 'f) world \<Rightarrow> bool" where
  "manager_alive w \<longleftrightarrow> wd_manager w \<noteq> DEAD_KQUEUE_ID"

section \<open>Letting go\<close>

definition wake_listeners :: "('u, 'v, 'f) env \<Rightarrow> nat \<Rightarrow> ('u, 'v, 'f) world \<Rightarrow> ('u, 'v, 'f) world" where
  "wake_listeners en i w =
     (let w1 = w\<lparr>wd_woken := wd_woken w @ [i]\<rparr>; queue = td_select (mem i w) in
      if queue = NO_SELECT then w1 else snd (kregister en queue SELECT_IDENT 0 0 NewUserTrigger w1))"

definition gate_finished_at :: "nat \<Rightarrow> ('u, 'v, 'f) world \<Rightarrow> bool" where
  "gate_finished_at i w =
     (case td_gate (mem i w) of Some g \<Rightarrow> gate_finished g | None \<Rightarrow> td_extras (mem i w) = None)"

text \<open>
  What dropping a value leads to, depth first: a task, a claim on a slot, the rest of a slot
  whose last claim has gone, and last its id. A run of a series gives its claim on the
  series back before its own copy of the task goes. A task that waits clears its mailbox
  once its gate takes no more gives.
\<close>

datatype 'u drop_item = DropTask nat "'u erased" | DropClaim nat | FreeId nat

definition drops_of_extras :: "nat \<Rightarrow> ('u erased, 'f) extras option \<Rightarrow> 'u drop_item list" where
  "drops_of_extras i ex =
     (case ex of
        None \<Rightarrow> []
      | Some e \<Rightarrow> (case ex_prototype e of None \<Rightarrow> [] | Some t \<Rightarrow> [DropTask i t]) @ map DropClaim (ex_held e))"

definition let_go_calls :: "('t, 'f) extras option \<Rightarrow> ('f, 'v) far_call list" where
  "let_go_calls ex = (case ex of None \<Rightarrow> [] | Some e \<Rightarrow> drop_receivers (ex_receivers e))"

definition destroy_task :: "nat \<Rightarrow> ('u, 'v, 'f) world \<Rightarrow> 'u drop_item list \<times> ('u, 'v, 'f) world" where
  "destroy_task i w =
     (let (rm, d) = destroy (mem i w);
          w1 = put_task i d w
      in ((case rm_task rm of None \<Rightarrow> [] | Some t \<Rightarrow> [DropTask i t]) @
            drops_of_extras i (rm_extras rm) @ [FreeId i],
          w1\<lparr>wd_discarded := wd_discarded w1 @ (case rm_output rm of None \<Rightarrow> [] | Some v \<Rightarrow> [v]),
             wd_calls := wd_calls w1 @ let_go_calls (rm_extras rm)\<rparr>))"

definition live_ids :: "('u, 'v, 'f) world \<Rightarrow> nat set" where
  "live_ids w = {i. live_task i w \<noteq> None}"

fun drop_weight :: "'u drop_item \<Rightarrow> nat" where
  "drop_weight (DropTask i t) = 2 * size t + 1"
| "drop_weight (DropClaim i) = 1"
| "drop_weight (FreeId i) = 1"

lemma finite_live_ids: "finite (live_ids w)"
  by (rule finite_subset [of _ "{..<MAX_TASK_ID}"])
    (auto simp: live_ids_def live_slot_simps slot_ok_def split: if_splits)

lemma mem_put [simp]: "mem j (put_task i d w) = (if j = i then d else mem j w)"
  by (simp add: put_task_def on_table_def put_slot_def)

lemma ok_put [simp]: "slot_ok j (wd_table (put_task i d w)) = slot_ok j (wd_table w)"
  by (simp add: put_task_def on_table_def put_slot_def slot_ok_def)

lemma live_put:
  "live_task j (put_task i d w) =
     (if j = i then (if slot_ok i (wd_table w) \<and> td_state d \<noteq> Free then Some d else None) else live_task j w)"
  by (simp add: put_task_def on_table_def live_slot_simps put_slot_def slot_ok_def)

lemma destroy_state [simp]: "td_state (snd (destroy d)) = Free"
  by (simp add: destroy_def)

lemma live_cong: "wd_pool w' = wd_pool w \<Longrightarrow> live_ids w' = live_ids w"
  by (simp add: live_ids_def)

lemma live_fields:
  "live_ids (w\<lparr>wd_dropped := u\<rparr>) = live_ids w" "live_ids (w\<lparr>wd_mail := m\<rparr>) = live_ids w"
  by (simp_all add: live_ids_def)

lemma live_destroy:
  "live_ids (snd (destroy_task i w)) = live_ids w - {i}"
proof -
  have "live_ids (snd (destroy_task i w)) = live_ids (put_task i (snd (destroy (mem i w))) w)"
    by (rule live_cong) (simp add: destroy_task_def Let_def split_beta)
  also have "\<dots> = live_ids w - {i}" by (auto simp: live_ids_def live_put)
  finally show ?thesis .
qed

lemma live_ids_put_same:
  "td_state d = td_state (mem i w) \<Longrightarrow> live_ids (put_task i d w) = live_ids w"
  by (auto simp: live_ids_def live_put live_slot_simps)

lemma live_free: "live_ids (on_table (free_id i) w) = live_ids w"
  by (auto simp: live_ids_def on_table_def live_slot_simps free_id_def push_free_def put_slot_def
      set_next_def slot_ok_def slot_def Let_def split: option.splits)

lemma live_dropped:
  "live_task i w = Some d \<Longrightarrow> live_ids (put_task i (snd (drop_listener d)) w) = live_ids w"
  by (rule live_ids_put_same) (drule live_slotD, simp add: drop_listener_def)

function run_drops :: "'u drop_item list \<Rightarrow> ('u, 'v, 'f) world \<Rightarrow> ('u, 'v, 'f) world" where
  "run_drops [] w = w"
| "run_drops (FreeId i # ds) w = run_drops ds (on_table (free_id i) w)"
| "run_drops (DropTask i (Bare u) # ds) w = run_drops ds (w\<lparr>wd_dropped := wd_dropped w @ [u]\<rparr>)"
| "run_drops (DropTask i (GatedTask u) # ds) w =
     (let w1 = (if gate_finished_at i w then w\<lparr>wd_mail := (wd_mail w)(i := None)\<rparr> else w)
      in run_drops ds (w1\<lparr>wd_dropped := wd_dropped w1 @ [u]\<rparr>))"
| "run_drops (DropTask i (SeriesRun s t) # ds) w = run_drops (DropClaim s # DropTask s t # ds) w"
| "run_drops (DropClaim i # ds) w =
     (case live_task i w of
        None \<Rightarrow> run_drops ds w
      | Some d \<Rightarrow>
          (let (last, d1) = drop_listener d; w1 = put_task i d1 w in
           if \<not> last then run_drops ds w1
           else (let (items, w2) = destroy_task i w1 in run_drops (items @ ds) w2)))"
  by pat_completeness auto
termination
proof (relation "inv_image ({(x, y). x < y} <*lex*> {(x, y). x < y})
    (\<lambda>(ds, w). (card (live_ids w), sum_list (map drop_weight ds)))", goal_cases)
  case 1
  show ?case by (intro wf_inv_image wf_lex_prod wf_less)
next
  case (7 i ds w d x last d1 w1)
  then have "d1 = snd (drop_listener d)" "w1 = put_task i d1 w" by (metis snd_conv, simp)
  then have "live_ids w1 = live_ids w" by (simp add: live_dropped [OF 7(1)])
  then show ?case by simp
next
  case (8 i ds w d x last d1 w1 y items w2)
  then have "d1 = snd (drop_listener d)" "w1 = put_task i d1 w" by (metis snd_conv, simp)
  then have "live_ids w1 = live_ids w" by (simp add: live_dropped [OF 8(1)])
  moreover have "i \<in> live_ids w" using 8(1) by (simp add: live_ids_def)
  ultimately have "card (live_ids (snd (destroy_task i w1))) < card (live_ids w)"
    using live_destroy [of i w1] finite_live_ids [of w] by (metis card_Diff1_less)
  moreover from 8(6,7) have "w2 = snd (destroy_task i w1)" by (metis snd_conv)
  ultimately show ?case by simp
qed (simp_all add: live_free live_fields Let_def)

declare run_drops.simps(6) [simp del]

abbreviation drop_erased :: "nat \<Rightarrow> 'u erased \<Rightarrow> ('u, 'v, 'f) world \<Rightarrow> ('u, 'v, 'f) world" where
  "drop_erased i t w \<equiv> run_drops [DropTask i t] w"

definition exec_add_listener :: "nat \<Rightarrow> ('u, 'v, 'f) world \<Rightarrow> ('u, 'v, 'f) world" where
  "exec_add_listener i w = (if live_task i w = None then w else on_task i add_listener w)"

definition exec_drop_listener :: "nat \<Rightarrow> ('u, 'v, 'f) world \<Rightarrow> ('u, 'v, 'f) world" where
  "exec_drop_listener i w = run_drops [DropClaim i] w"

definition release :: "nat \<Rightarrow> ('u, 'v, 'f) world \<Rightarrow> ('u, 'v, 'f) world" where
  "release i w =
     (case live_task i w of
        None \<Rightarrow> w
      | Some d \<Rightarrow>
          (let (mine, d1) = claim_release d; w1 = put_task i d1 w
           in if \<not> mine then w1 else exec_drop_listener i w1))"

section \<open>Extras\<close>

text \<open>What a registration reads the output through.\<close>

definition output_view :: "('t, 'v, 'f) task_data \<Rightarrow> 'v option" where
  "output_view d = (if td_state d = Ready then td_cell d else None)"

definition put_receivers :: "'f receivers \<Rightarrow> ('t, 'v, 'f) task_data \<Rightarrow> ('t, 'v, 'f) task_data" where
  "put_receivers r d = d\<lparr>td_extras := map_option (\<lambda>ex. ex\<lparr>ex_receivers := r\<rparr>) (td_extras d)\<rparr>"

definition put_gate :: "gate \<Rightarrow> ('t, 'v, 'f) task_data \<Rightarrow> ('t, 'v, 'f) task_data" where
  "put_gate g d = d\<lparr>td_extras := map_option (\<lambda>ex. ex\<lparr>ex_gate := Some g\<rparr>) (td_extras d)\<rparr>"

definition far_calls :: "('f, 'v) far_call list \<Rightarrow> ('u, 'v, 'f) world \<Rightarrow> ('u, 'v, 'f) world" where
  "far_calls cs w = w\<lparr>wd_calls := wd_calls w @ cs\<rparr>"

definition close_extras :: "('u, 'v, 'f) env \<Rightarrow> nat \<Rightarrow> ('u, 'v, 'f) world \<Rightarrow> ('u, 'v, 'f) world" where
  "close_extras en i w =
     (case td_extras (mem i w) of
        None \<Rightarrow> w
      | Some ex \<Rightarrow>
          (let d = (case ex_gate ex of None \<Rightarrow> mem i w | Some g \<Rightarrow> put_gate (gate_finish g) (mem i w));
               (r, cs) = close (en_panics en) (en_finished en) [] (output_view d) (ex_receivers ex)
           in far_calls cs (put_task i (put_receivers r d) w)))"

definition close_finished_series :: "('u, 'v, 'f) env \<Rightarrow> nat \<Rightarrow> ('u, 'v, 'f) world \<Rightarrow> ('u, 'v, 'f) world" where
  "close_finished_series en i w =
     (let d = mem i w in
      if repeats (kind d) \<or> takes_input d \<or> td_state d = Pending then w else close_extras en i w)"

definition exec_note_output :: "nat \<Rightarrow> ('u, 'v, 'f) world \<Rightarrow> ('u, 'v, 'f) world" where
  "exec_note_output i w =
     (case td_extras (mem i w) of
        None \<Rightarrow> w
      | Some ex \<Rightarrow> put_task i (put_receivers (note_output (ex_receivers ex)) (mem i w)) w)"

definition forward_output :: "('u, 'v, 'f) env \<Rightarrow> nat \<Rightarrow> ('u, 'v, 'f) world \<Rightarrow> ('u, 'v, 'f) world" where
  "forward_output en i w =
     (case td_extras (mem i w) of
        None \<Rightarrow> w
      | Some ex \<Rightarrow>
          (let (r, cs) = walk (en_panics en) (en_finished en) [] (output_view (mem i w)) (ex_receivers ex)
           in far_calls cs (put_task i (put_receivers r (mem i w)) w)))"

definition exec_forward ::
  "('u, 'v, 'f) env \<Rightarrow> nat \<Rightarrow> 'f \<Rightarrow> ('u, 'v, 'f) world \<Rightarrow> ('u, 'v, 'f) world" where
  "exec_forward en i f w =
     (case live_task i w of
        None \<Rightarrow> far_calls [LetGo f] w
      | Some d \<Rightarrow>
          (let (ex, d1) = extras_or_attach d;
               (r, cs) = register (en_panics en) (en_finished en) [] (publishes_nothing_more d1)
                 (output_view d1) f (ex_receivers ex)
           in far_calls cs (put_task i (put_receivers r d1) w)))"

definition hold_claims :: "nat \<Rightarrow> nat list \<Rightarrow> ('u, 'v, 'f) world \<Rightarrow> ('u, 'v, 'f) world" where
  "hold_claims i claims w =
     (case live_task i w of
        Some d \<Rightarrow>
          (let (ex, d1) = extras_or_attach d
           in put_task i (d1\<lparr>td_extras := Some (extras_hold claims ex)\<rparr>) w)
      | None \<Rightarrow> run_drops (map DropClaim claims) w)"

section \<open>Failing, and why there is nothing to read\<close>

definition fail :: "('u, 'v, 'f) env \<Rightarrow> nat \<Rightarrow> ('u, 'v, 'f) world \<Rightarrow> ('u, 'v, 'f) world" where
  "fail en i w =
     (case live_task i w of
        None \<Rightarrow> w
      | Some d \<Rightarrow>
          (let w1 = (if \<not> terminal (td_state d)
                     then wake_listeners en i (on_task i (set_state Failed) w) else w)
           in release i (close_extras en i w1)))"

definition lost :: "('t, 'v, 'f) task_data \<Rightarrow> task_state \<Rightarrow> runtime_error" where
  "lost d st =
     (case st of
        Taken \<Rightarrow> if \<not> repeats (kind d) \<and> spent d \<and> \<not> open_for_gives d then Finished else AlreadyTaken
      | Cancelled \<Rightarrow> ECancelled
      | TimedOut \<Rightarrow> ETimedOut
      | Failed \<Rightarrow> TaskFailed
      | Pending \<Rightarrow> NotReady | Running \<Rightarrow> NotReady | Ready \<Rightarrow> NotReady
      | Free \<Rightarrow> NoSuchTask)"

definition settled_as :: "('t, 'v, 'f) task_data \<Rightarrow> task_state \<Rightarrow> unit res" where
  "settled_as d st = (if st = Ready then Inr () else Inl (lost d st))"

definition missing :: "nat \<Rightarrow> runtime_error" where
  "missing i = (if i = UNSTARTED_TASK_ID then NotInitialised else NoSuchTask)"

definition closed_as :: "('t, 'v, 'f) task_data \<Rightarrow> runtime_error" where
  "closed_as d =
     (case td_state d of
        Cancelled \<Rightarrow> ECancelled
      | TimedOut \<Rightarrow> ETimedOut
      | Failed \<Rightarrow> TaskFailed | Free \<Rightarrow> TaskFailed
      | _ \<Rightarrow> Finished)"

definition over :: "task_state \<Rightarrow> bool" where
  "over st \<longleftrightarrow> st = Cancelled \<or> st = TimedOut \<or> st = Failed"

definition exec_finished :: "nat \<Rightarrow> ('u, 'v, 'f) world \<Rightarrow> bool" where
  "exec_finished i w =
     (case live_task i w of
        None \<Rightarrow> True
      | Some d \<Rightarrow>
          over (td_state d) \<or>
          terminal (td_state d) \<and> \<not> repeats (kind d) \<and> \<not> open_for_gives d)"

definition exec_state :: "nat \<Rightarrow> ('u, 'v, 'f) world \<Rightarrow> task_state" where
  "exec_state i w = (case live_task i w of Some d \<Rightarrow> td_state d | None \<Rightarrow> Failed)"

definition poll_result :: "nat \<Rightarrow> ('u, 'v, 'f) world \<Rightarrow> 'v option res \<times> ('u, 'v, 'f) world" where
  "poll_result i w =
     (case live_task i w of
        None \<Rightarrow> (Inl (missing i), w)
      | Some d \<Rightarrow>
          (let (ok, d1) = enter_read d in
           if \<not> ok then (Inl (lost d1 (td_state d1)), put_task i d1 w)
           else (Inr (td_cell d1), put_task i (leave_read d1) w)))"

text \<open>Moving the output out leaves the bytes behind, which \<open>td_filled\<close> no longer counts as a value.\<close>

definition poll_take :: "nat \<Rightarrow> ('u, 'v, 'f) world \<Rightarrow> 'v option res \<times> ('u, 'v, 'f) world" where
  "poll_take i w =
     (case live_task i w of
        None \<Rightarrow> (Inl (missing i), w)
      | Some d \<Rightarrow>
          (let (ok, d1) = claim_result d in
           if \<not> ok then (Inl (lost d1 (td_state d1)), put_task i d1 w)
           else (Inr (td_cell d1), put_task i ((empty d1)\<lparr>td_cell := None\<rparr>) w)))"

section \<open>Timers, watches and parks\<close>

definition arm_timer :: "('u, 'v, 'f) env \<Rightarrow> nat \<Rightarrow> u64 \<Rightarrow> ('u, 'v, 'f) world \<Rightarrow> bool \<times> ('u, 'v, 'f) world" where
  "arm_timer en i interval w =
     manager_change en (i + SCHEDULE_IDENT_BASE) (sint interval) 0 NewTimer w"

definition wait_for ::
  "('u, 'v, 'f) env \<Rightarrow> nat \<Rightarrow> u64 \<Rightarrow> ('u, 'v, 'f) world \<Rightarrow> bool \<times> ('u, 'v, 'f) world" where
  "wait_for en i nanos w =
     (let (ok, w1) = arm_timer en i nanos (on_task i arm w)
      in if ok then (True, w1) else (False, on_task i disarm w1))"

definition wait_out :: "('u, 'v, 'f) env \<Rightarrow> nat \<Rightarrow> ('u, 'v, 'f) world \<Rightarrow> bool \<times> ('u, 'v, 'f) world" where
  "wait_out en i w = wait_for en i (td_interval (mem i w)) w"

definition schedule ::
  "('u, 'v, 'f) env \<Rightarrow> nat \<Rightarrow> u64 \<Rightarrow> ('u, 'v, 'f) world \<Rightarrow> bool \<times> ('u, 'v, 'f) world" where
  "schedule en i interval w =
     manager_change en (i + SCHEDULE_IDENT_BASE) (sint interval) 0 NewInterval w"

definition unschedule :: "('u, 'v, 'f) env \<Rightarrow> nat \<Rightarrow> ('u, 'v, 'f) world \<Rightarrow> ('u, 'v, 'f) world" where
  "unschedule en i w = snd (manager_change en (i + SCHEDULE_IDENT_BASE) 0 0 NewTimerDelete w)"

definition arm_timeout ::
  "('u, 'v, 'f) env \<Rightarrow> nat \<Rightarrow> nat \<Rightarrow> u64 \<Rightarrow> ('u, 'v, 'f) world \<Rightarrow> bool \<times> ('u, 'v, 'f) world" where
  "arm_timeout en i left_ns word w =
     manager_change en (i + TIMEOUT_IDENT_BASE) (int (clamp 1 intptr_MAX left_ns)) (unat word) NewTimer w"

text \<open>Putting a timeout on a run panics past the last instant, which is \<open>None\<close>.\<close>

definition exec_time_run :: "('u, 'v, 'f) env \<Rightarrow> nat \<Rightarrow> ('u, 'v, 'f) world \<Rightarrow> ('u, 'v, 'f) world option" where
  "exec_time_run en i w =
     (case Option.bind (td_extras (mem i w)) ex_timeout of
        None \<Rightarrow> Some w
      | Some timeout \<Rightarrow> do {
          (word, d) \<leftarrow> time_run (wd_clock w) timeout (mem i w);
          Some (snd (arm_timeout en i timeout word (put_task i d w)))
        })"

definition exec_untime_run :: "('u, 'v, 'f) env \<Rightarrow> nat \<Rightarrow> ('u, 'v, 'f) world \<Rightarrow> ('u, 'v, 'f) world" where
  "exec_untime_run en i w =
     (let (timed, d) = untime_run (mem i w); w1 = put_task i d w
      in if \<not> timed then w1
         else snd (manager_change en (i + TIMEOUT_IDENT_BASE) 0 0 NewTimerDelete w1))"

datatype fired = FiredEvent | FiredDeadline | FiredNeither

definition watch_park ::
  "('u, 'v, 'f) env \<Rightarrow> nat \<Rightarrow> park_req \<Rightarrow> ('u, 'v, 'f) world \<Rightarrow> bool \<times> ('u, 'v, 'f) world" where
  "watch_park en i pk w =
     (if wd_manager w = DEAD_KQUEUE_ID then (False, w)
      else
        (let (timed, w1) =
               (case pk_deadline pk of
                  None \<Rightarrow> (True, w)
                | Some deadline \<Rightarrow>
                    manager_change en (i + SCHEDULE_IDENT_BASE)
                      (int (clamp 1 intptr_MAX (deadline - ck_now (wd_clock w)))) PARK_TIMER NewTimer w)
         in if \<not> timed then (False, w1)
            else manager_change en (usize_of (pk_ident pk)) 0 i (NewPark (pk_filter pk) (pk_notes pk)) w1))"

definition unwatch_park ::
  "('u, 'v, 'f) env \<Rightarrow> nat \<Rightarrow> int \<times> int \<times> bool \<Rightarrow> fired \<Rightarrow> ('u, 'v, 'f) world \<Rightarrow> ('u, 'v, 'f) world" where
  "unwatch_park en i parked fired w =
     (if wd_manager w = DEAD_KQUEUE_ID then w
      else
        (let (ident, filtr, timed) = parked;
             w1 = (if timed \<and> fired \<noteq> FiredDeadline
                   then snd (manager_change en (i + SCHEDULE_IDENT_BASE) 0 0 NewTimerDelete w) else w)
         in if fired \<noteq> FiredEvent
            then snd (manager_change en (usize_of ident) 0 i (NewParkDelete filtr) w1) else w1))"

definition take_down :: "('u, 'v, 'f) env \<Rightarrow> nat \<Rightarrow> ('u, 'v, 'f) world \<Rightarrow> ('u, 'v, 'f) world" where
  "take_down en i w =
     (let (raw, d) = claim (mem i w);
          w1 = put_task i d w;
          w2 = (case raw of None \<Rightarrow> w1 | Some t \<Rightarrow> drop_erased i t w1);
          (ok, d2) = try_state Running Failed (mem i w2);
          w3 = put_task i d2 w2
      in release i (if ok then wake_listeners en i w3 else w3))"

definition unpark :: "('u, 'v, 'f) env \<Rightarrow> nat \<Rightarrow> ('u, 'v, 'f) world \<Rightarrow> ('u, 'v, 'f) world" where
  "unpark en i w =
     (let (got, d) = claim_parked (mem i w); w1 = put_task i d w
      in case got of
           None \<Rightarrow> w1
         | Some parked \<Rightarrow> take_down en i (unwatch_park en i parked FiredNeither w1))"

definition park_task ::
  "('u, 'v, 'f) env \<Rightarrow> nat \<Rightarrow> 'u erased \<Rightarrow> park_req \<Rightarrow> ('u, 'v, 'f) world \<Rightarrow> ('u, 'v, 'f) world" where
  "park_task en i t pk w =
     (let w1 = on_task i (\<lambda>d. park (pk_ident pk) (pk_filter pk) (pk_deadline pk \<noteq> None)
            (rearm (Some t) (add_listener d))) w;
          (watched, w2) = watch_park en i pk w1;
          w3 = (if \<not> watched \<or> td_state (mem i w2) \<noteq> Running then unpark en i w2 else w2)
      in exec_drop_listener i w3)"

section \<open>Queueing\<close>

text \<open>An operation of the pool; the tasks it fails on the way are failed once it is over.\<close>

definition with_pool ::
  "('u, 'v, 'f) env \<Rightarrow> (('u erased, 'v, 'f) pool \<Rightarrow> ('r \<times> ('u erased, 'v, 'f) pool) option)
    \<Rightarrow> ('u, 'v, 'f) world \<Rightarrow> ('r \<times> ('u, 'v, 'f) world) option" where
  "with_pool en f w = do {
     (r, p) \<leftarrow> f (wd_pool w);
     Some (r, fold (fail en) (pl_failed p) (w\<lparr>wd_pool := p\<lparr>pl_failed := []\<rparr>\<rparr>))
   }"

definition queue_task ::
  "('u, 'v, 'f) env \<Rightarrow> nat \<Rightarrow> bool \<Rightarrow> ('u, 'v, 'f) world \<Rightarrow> (bool \<times> ('u, 'v, 'f) world) option" where
  "queue_task en i blocking w =
     with_pool en (if blocking then offload (machine_of en w) i else submit (machine_of en w) i) w"

definition queue_spawned ::
  "('u, 'v, 'f) env \<Rightarrow> nat \<Rightarrow> bool \<Rightarrow> ('u, 'v, 'f) world \<Rightarrow> (bool \<times> ('u, 'v, 'f) world) option" where
  "queue_spawned en i blocking w =
     (case wd_worker w of
        Some k \<Rightarrow>
          if \<not> blocking \<and> wd_current w \<noteq> NO_TASK
          then with_pool en (submit_local (machine_of en w) k i) w
          else queue_task en i blocking w
      | None \<Rightarrow> queue_task en i blocking w)"

definition wake_parked ::
  "('u, 'v, 'f) env \<Rightarrow> nat \<Rightarrow> fired \<Rightarrow> ('u, 'v, 'f) world \<Rightarrow> ('u, 'v, 'f) world option" where
  "wake_parked en i fired w =
     (case live_task i w of
        None \<Rightarrow> Some w
      | Some d \<Rightarrow>
          (case claim_parked d of
             (None, d1) \<Rightarrow> Some (put_task i d1 w)
           | (Some parked, d1) \<Rightarrow> do {
               let w1 = unwatch_park en i parked fired (put_task i d1 w);
               (ok, w2) \<leftarrow> queue_task en i (td_blocking (mem i w1)) w1;
               Some (if ok then w2 else take_down en i w2)
             }))"

section \<open>Making a task\<close>

fun inner_task :: "'u erased \<Rightarrow> 'u" where
  "inner_task (Bare u) = u"
| "inner_task (GatedTask u) = u"
| "inner_task (SeriesRun s t) = inner_task t"

definition layout_of :: "('u, 'v, 'f) env \<Rightarrow> 'u erased \<Rightarrow> nat \<times> nat" where
  "layout_of en t = (case t of SeriesRun _ _ \<Rightarrow> (0, 1) | _ \<Rightarrow> en_layout en (inner_task t))"

text \<open>A slot for a new task: the id it has, or the id a handle gets when there is none.\<close>

definition take_slot ::
  "('u, 'v, 'f) env \<Rightarrow> nat \<times> nat \<Rightarrow> 'u erased option \<Rightarrow> task_setup \<Rightarrow> ('u, 'v, 'f) world
    \<Rightarrow> (nat option \<times> ('u, 'v, 'f) world) option" where
  "take_slot en layout t su w =
     (let (got, tb) = alloc (mc_granted (en_machine en)) (wd_table w);
          w1 = on_table (\<lambda>_. tb) w
      in case got of
           None \<Rightarrow> Some (None, w1)
         | Some i \<Rightarrow>
             if slot i tb = None then Some (None, on_table (free_id i) w1)
             else
               (let w2 = w1\<lparr>wd_sequence := wd_sequence w1 + 1\<rparr> in
                case init (wd_clock w) (en_mapped en) (fst layout) (snd layout) t Pending su (wd_sequence w1) of
                  InitPanics \<Rightarrow> None
                | InitRefused \<Rightarrow> Some (None, on_table (free_id i) w2)
                | InitReady d \<Rightarrow> Some (Some i, put_task i d w2)))"

definition create ::
  "('u, 'v, 'f) env \<Rightarrow> 'u erased \<Rightarrow> task_setup \<Rightarrow> gate option \<Rightarrow> ('u, 'v, 'f) world
    \<Rightarrow> (nat \<times> bool \<times> ('u, 'v, 'f) world) option" where
  "create en t su gate w =
     (let su = setup_blocking su (en_blocking en (inner_task t)) in
      if \<not> wd_ready w then Some (UNSTARTED_TASK_ID, False, drop_erased UNSTARTED_TASK_ID t w)
      else do {
        (got, w1) \<leftarrow> take_slot en (layout_of en t) (Some t) su w;
        case got of
          None \<Rightarrow> Some (MAX_TASK_ID, False, drop_erased MAX_TASK_ID t w1)
        | Some i \<Rightarrow>
            (let w2 = (if gate \<noteq> None \<or> su_timeout su \<noteq> None
                       then on_task i (attach_extras (extras_timed (su_timeout su) (su_parent su) (extras_new gate))) w1
                       else w1)
             in if gate \<noteq> None then Some (i, True, w2\<lparr>wd_mail := (wd_mail w2)(i := None)\<rparr>)
                else do {
                  (started, w3) \<leftarrow>
                    (if of_nat (su_start_delay su) = (0 :: u64) then queue_spawned en i (su_blocking su) w2
                     else Some (wait_for en i (of_nat (su_start_delay su)) w2));
                  if started then Some (i, True, w3)
                  else
                    (let w4 = (if live_task i w3 = None then w3
                               else wake_listeners en i (on_task i (set_state Failed) w3))
                     in Some (i, False, release i w4))
                })
      })"

definition spawn_run ::
  "('u, 'v, 'f) env \<Rightarrow> 'u erased \<Rightarrow> u8 \<Rightarrow> nat option \<Rightarrow> nat \<Rightarrow> ('u, 'v, 'f) world
    \<Rightarrow> (bool \<times> ('u, 'v, 'f) world) option" where
  "spawn_run en t priority timeout series w = do {
     (h, ok, w1) \<leftarrow> create en t ((setup_once priority)\<lparr>su_timeout := timeout, su_parent := series\<rparr>) None w;
     Some (ok, exec_drop_listener h w1)
   }"

text \<open>\<open>launch\<close> with \<open>SeriesTask::launch\<close>: a copy of the prototype, holding a claim on the series.\<close>

definition launch :: "('u, 'v, 'f) env \<Rightarrow> nat \<Rightarrow> ('u, 'v, 'f) world \<Rightarrow> (bool \<times> ('u, 'v, 'f) world) option" where
  "launch en i w =
     (case prototype (mem i w) of
        None \<Rightarrow> Some (False, w)
      | Some t \<Rightarrow>
          spawn_run en (SeriesRun i t) (priority_class (mem i w))
            (Option.bind (td_extras (mem i w)) ex_timeout) i (exec_add_listener i w))"

section \<open>Tasks that wait, and series\<close>

definition exec_release_held :: "nat \<Rightarrow> ('u, 'v, 'f) world \<Rightarrow> ('u, 'v, 'f) world" where
  "exec_release_held i w =
     (case td_extras (mem i w) of
        None \<Rightarrow> w
      | Some ex \<Rightarrow>
          (let (claims, ex1) = release_held ex
           in run_drops (map DropClaim claims) (on_task i (\<lambda>d. d\<lparr>td_extras := Some ex1\<rparr>) w)))"

definition finish_waiting :: "('u, 'v, 'f) env \<Rightarrow> nat \<Rightarrow> ('u, 'v, 'f) world \<Rightarrow> ('u, 'v, 'f) world" where
  "finish_waiting en i w =
     (let w1 = close_extras en i w;
          (raw, d) = claim (mem i w1);
          w2 = put_task i d w1;
          w3 = (case raw of None \<Rightarrow> w2 | Some t \<Rightarrow> drop_erased i t w2)
      in release i (on_task i finish_series (exec_release_held i w3)))"

definition let_go_waiting :: "('u, 'v, 'f) env \<Rightarrow> nat \<Rightarrow> ('u, 'v, 'f) world \<Rightarrow> ('u, 'v, 'f) world" where
  "let_go_waiting en i w =
     (case td_gate (mem i w) of
        None \<Rightarrow> w
      | Some g \<Rightarrow>
          (let (closed, g1) = close_waiting g; w1 = on_task i (put_gate g1) w in
           if \<not> closed then w1
           else
             (let (ok, d) = try_state Pending Failed (mem i w1); w2 = put_task i d w1
              in finish_waiting en i (if ok then wake_listeners en i w2 else w2))))"

definition abandon_task :: "('u, 'v, 'f) env \<Rightarrow> nat \<Rightarrow> ('u, 'v, 'f) world \<Rightarrow> ('u, 'v, 'f) world" where
  "abandon_task en i w = (if live_task i w = None then w else let_go_waiting en i w)"

definition end_schedule_now :: "('u, 'v, 'f) env \<Rightarrow> nat \<Rightarrow> ('u, 'v, 'f) world \<Rightarrow> ('u, 'v, 'f) world" where
  "end_schedule_now en i w = release i (close_finished_series en i (on_task i finish_series w))"

text \<open>
  The first run of a series that goes now. A schedule counts the runs it starts.
\<close>

datatype first_run = NoRun | LastRun | MoreRuns

definition launch_first ::
  "('u, 'v, 'f) env \<Rightarrow> nat \<Rightarrow> ('u, 'v, 'f) world \<Rightarrow> (first_run \<times> ('u, 'v, 'f) world) option" where
  "launch_first en i w =
     (if \<not> runs_remain (mem i w) then Some (NoRun, w)
      else do {
        (ok, w1) \<leftarrow> launch en i w;
        if \<not> ok then Some (NoRun, w1)
        else
          (let (done, d) = count_run (mem i w1)
           in Some (if done then LastRun else MoreRuns, put_task i d w1))
      })"

text \<open>
  The gate's answer once a run, or a series, is over, with the slot held meanwhile: whether
  another start is owed.
\<close>

definition after_series :: "('u, 'v, 'f) env \<Rightarrow> nat \<Rightarrow> ('u, 'v, 'f) world \<Rightarrow> bool \<times> ('u, 'v, 'f) world" where
  "after_series en i w =
     (let w1 = on_task i add_listener w in
      case td_gate (mem i w1) of
        None \<Rightarrow> (False, finish_waiting en i w1)
      | Some g \<Rightarrow>
          (let (answer, g1) = gate_after_run g; w2 = on_task i (put_gate g1) w1
           in case answer of
                Wait \<Rightarrow> (False, w2)
              | Again \<Rightarrow> (True, w2)
              | Finish \<Rightarrow> (False, finish_waiting en i w2)))"

definition reset_for_start :: "nat \<Rightarrow> gate \<Rightarrow> ('u, 'v, 'f) world \<Rightarrow> ('u, 'v, 'f) world" where
  "reset_for_start i g w =
     on_task i (\<lambda>d.
       let d1 = reset_series (wd_clock w) (g_runs g) (gate_until (ck_limit (wd_clock w)) (ck_now (wd_clock w)) g) d
       in if g_delay g \<noteq> 0 then set_start_delay (g_delay g) d1 else d1) w"

definition start_failed :: "('u, 'v, 'f) env \<Rightarrow> nat \<Rightarrow> ('u, 'v, 'f) world \<Rightarrow> ('u, 'v, 'f) world" where
  "start_failed en i w =
     (let w1 = on_task i (\<lambda>d. d\<lparr>td_extras := map_option finish_gate (td_extras d)\<rparr>) w;
          st = td_state (mem i w1)
      in finish_waiting en i
           (if st = Pending \<or> st = Ready \<or> st = Taken
            then wake_listeners en i (on_task i (set_state Failed) w1) else w1))"

text \<open>
  \<open>start_waiting\<close>, with \<open>start_series\<close> and \<open>rewait_series\<close> inside it where a series of one
  run is over as soon as it starts.
\<close>

partial_function (option) start_waiting ::
  "('u, 'v, 'f) env \<Rightarrow> nat \<Rightarrow> gate \<Rightarrow> ('u, 'v, 'f) world \<Rightarrow> (bool \<times> ('u, 'v, 'f) world) option" where
  [code]: "start_waiting en i g w =
     (let w1 = reset_for_start i g w in do {
        (started, w2) \<leftarrow>
          (if g_delay g \<noteq> 0 then Some (wait_for en i (g_delay g) w1)
           else if \<not> schedules (kind (mem i w1)) then queue_task en i (td_blocking (mem i w1)) w1
           else do {
             (first, w2) \<leftarrow> launch_first en i w1;
             case first of
               NoRun \<Rightarrow> Some (False, w2)
             | MoreRuns \<Rightarrow> Some (schedule en i (td_interval (mem i w2)) w2)
             | LastRun \<Rightarrow>
                 if takes_input (mem i w2) then
                   (let (again, w3) = after_series en i w2 in do {
                      w4 \<leftarrow> (if again then do { (_, w4) \<leftarrow> start_waiting en i g w3; Some w4 } else Some w3);
                      Some (True, exec_drop_listener i w4)
                    })
                 else Some (True, end_schedule_now en i w2)
           });
        Some (if started then (True, w2) else (False, start_failed en i w2))
      })"

definition rewait_series :: "('u, 'v, 'f) env \<Rightarrow> nat \<Rightarrow> ('u, 'v, 'f) world \<Rightarrow> ('u, 'v, 'f) world option" where
  "rewait_series en i w =
     (let (again, w1) = after_series en i w in do {
        w2 \<leftarrow> (case td_gate (mem i w1) of
                 Some g \<Rightarrow> if again then do { (_, w2) \<leftarrow> start_waiting en i g w1; Some w2 } else Some w1
               | None \<Rightarrow> Some w1);
        Some (exec_drop_listener i w2)
      })"

definition rewait ::
  "('u, 'v, 'f) env \<Rightarrow> nat \<Rightarrow> 'u erased \<Rightarrow> ('u, 'v, 'f) world \<Rightarrow> ('u, 'v, 'f) world option" where
  "rewait en i t w = rewait_series en i (on_task i (rearm (Some t)) w)"

definition start_series ::
  "('u, 'v, 'f) env \<Rightarrow> nat \<Rightarrow> ('u, 'v, 'f) world \<Rightarrow> (bool \<times> ('u, 'v, 'f) world) option" where
  "start_series en i w = do {
     (first, w1) \<leftarrow> launch_first en i w;
     case first of
       NoRun \<Rightarrow> Some (False, w1)
     | MoreRuns \<Rightarrow> Some (schedule en i (td_interval (mem i w1)) w1)
     | LastRun \<Rightarrow>
         if takes_input (mem i w1) then do { w2 \<leftarrow> rewait_series en i w1; Some (True, w2) }
         else Some (True, end_schedule_now en i w1)
   }"

definition end_schedule :: "('u, 'v, 'f) env \<Rightarrow> nat \<Rightarrow> ('u, 'v, 'f) world \<Rightarrow> ('u, 'v, 'f) world option" where
  "end_schedule en i w =
     (let w1 = unschedule en i w in
      if takes_input (mem i w1) then rewait_series en i w1 else Some (end_schedule_now en i w1))"

definition series_tick :: "('u, 'v, 'f) env \<Rightarrow> nat \<Rightarrow> ('u, 'v, 'f) world \<Rightarrow> ('u, 'v, 'f) world option" where
  "series_tick en i w =
     (let (clocked, w1) =
            (if td_start_delay (mem i w) \<noteq> 0 then
               (let w0 = on_task i clear_start_delay w in schedule en i (td_interval (mem i w0)) w0)
             else (True, w))
      in if \<not> clocked then end_schedule en i w1
         else if past_deadline (wd_clock w1) (unat (td_interval (mem i w1))) (mem i w1) \<or>
                 \<not> runs_remain (mem i w1)
         then end_schedule en i w1
         else do {
           (ok, w2) \<leftarrow> (if over (td_state (mem i w1)) then Some (False, w1) else launch en i w1);
           if ok then
             (let (done, d) = count_run (mem i w2); w3 = put_task i d w2
              in if done then end_schedule en i w3 else Some w3)
           else
             (let w3 = unschedule en i w2;
                  w4 = (if \<not> terminal (td_state (mem i w3))
                        then wake_listeners en i (on_task i (set_state Failed) w3) else w3)
              in Some (release i (close_extras en i w4)))
         })"

definition create_series ::
  "('u, 'v, 'f) env \<Rightarrow> 'u erased \<Rightarrow> task_setup \<Rightarrow> gate option \<Rightarrow> ('u, 'v, 'f) world
    \<Rightarrow> (nat \<times> ('u, 'v, 'f) world) option" where
  "create_series en t su gate w =
     (if \<not> wd_ready w then Some (UNSTARTED_TASK_ID, drop_erased UNSTARTED_TASK_ID t w)
      else do {
        (got, w1) \<leftarrow> take_slot en (layout_of en t) None su w;
        case got of
          None \<Rightarrow> Some (MAX_TASK_ID, drop_erased MAX_TASK_ID t w1)
        | Some i \<Rightarrow>
            (let w2 = on_task i (\<lambda>d. set_prototype (Some t)
                   (attach_extras (extras_timed (su_timeout su) NO_TASK (extras_new gate)) d)) w1
             in if gate \<noteq> None then Some (i, w2\<lparr>wd_mail := (wd_mail w2)(i := None)\<rparr>)
                else do {
                  (started, w3) \<leftarrow>
                    (if of_nat (su_start_delay su) = (0 :: u64) then start_series en i w2
                     else Some (wait_for en i (of_nat (su_start_delay su)) w2));
                  if started then Some (i, w3)
                  else
                    (let w4 = unschedule en i w3;
                         (ok, d) = try_state Pending Failed (mem i w4);
                         w5 = put_task i d w4
                     in Some (i, release i (if ok then wake_listeners en i w5 else w5)))
                })
      })"

text \<open>The four ways in, and the gate and setup a task that waits is made with.\<close>

definition waiting_parts :: "task_setup \<Rightarrow> gate \<times> task_setup" where
  "waiting_parts su =
     (gate_new (su_gives su) (su_runs su) (su_deadline su) (su_start_delay su) (repeats (su_kind su)),
      su\<lparr>su_start_delay := 0, su_waits := True\<rparr>)"

definition new_task ::
  "('u, 'v, 'f) env \<Rightarrow> 'u \<Rightarrow> task_setup \<Rightarrow> ('u, 'v, 'f) world \<Rightarrow> (nat \<times> ('u, 'v, 'f) world) option" where
  "new_task en u su w = do { (h, _, w1) \<leftarrow> create en (Bare u) su None w; Some (h, w1) }"

definition new_series ::
  "('u, 'v, 'f) env \<Rightarrow> 'u \<Rightarrow> task_setup \<Rightarrow> ('u, 'v, 'f) world \<Rightarrow> (nat \<times> ('u, 'v, 'f) world) option" where
  "new_series en u su w = create_series en (Bare u) su None w"

definition new_waiting ::
  "('u, 'v, 'f) env \<Rightarrow> 'u \<Rightarrow> task_setup \<Rightarrow> ('u, 'v, 'f) world \<Rightarrow> (nat \<times> ('u, 'v, 'f) world) option" where
  "new_waiting en u su w =
     (let (g, su1) = waiting_parts su in do {
        (h, _, w1) \<leftarrow> create en (GatedTask u) su1 (Some g) w;
        Some (h, w1)
      })"

definition new_waiting_series ::
  "('u, 'v, 'f) env \<Rightarrow> 'u \<Rightarrow> task_setup \<Rightarrow> ('u, 'v, 'f) world \<Rightarrow> (nat \<times> ('u, 'v, 'f) world) option" where
  "new_waiting_series en u su w =
     (let (g, su1) = waiting_parts su in create_series en (GatedTask u) su1 (Some g) w)"

definition give ::
  "('u, 'v, 'f) env \<Rightarrow> nat \<Rightarrow> 'v \<Rightarrow> ('u, 'v, 'f) world \<Rightarrow> (unit res \<times> ('u, 'v, 'f) world) option" where
  "give en i v w =
     (case live_task i w of
        None \<Rightarrow> Some (Inl (missing i), w)
      | Some d \<Rightarrow>
          (case td_gate d of
             None \<Rightarrow> Some (Inl (closed_as d), w)
           | Some g \<Rightarrow>
               if gate_finished g \<or> over (td_state d) then Some (Inl (closed_as d), w)
               else
                 (let w1 = w\<lparr>wd_mail := (wd_mail w)(i := Some v),
                         wd_discarded := wd_discarded w @ (case wd_mail w i of None \<Rightarrow> [] | Some old \<Rightarrow> [old])\<rparr>;
                      (answer, g1) = gate_trigger g;
                      w2 = on_task i (put_gate g1) w1
                  in case answer of
                       Replaced \<Rightarrow> Some (Inr (), w2)
                     | TriggerClosed \<Rightarrow> Some (Inl (closed_as (mem i w2)), w2)
                     | Start \<Rightarrow> do {
                         (ok, w3) \<leftarrow> start_waiting en i g1 w2;
                         Some (if ok then Inr () else Inl TaskFailed, w3)
                       })))"

section \<open>Ending a task early\<close>

definition interrupt :: "('u, 'v, 'f) env \<Rightarrow> nat \<Rightarrow> ('u, 'v, 'f) world \<Rightarrow> ('u, 'v, 'f) world" where
  "interrupt en i w =
     (let (got, d) = claim_waiting (mem i w); w1 = put_task i d w
      in case got of
           None \<Rightarrow> w1
         | Some queue \<Rightarrow>
             on_task i release_waiting
               (snd (kregister en queue WAKE_IDENT 0 0 NewUserTrigger
                 (snd (kregister en queue i 0 0 NewTimerDelete w1)))))"

definition stopped_task :: "('u, 'v, 'f) env \<Rightarrow> nat \<Rightarrow> ('u, 'v, 'f) world \<Rightarrow> ('u, 'v, 'f) world" where
  "stopped_task en i w =
     (let w1 = unpark en i (interrupt en i (wake_listeners en i w))
      in if takes_input (mem i w1) then let_go_waiting en i w1 else w1)"

definition stop_task ::
  "('u, 'v, 'f) env \<Rightarrow> nat \<Rightarrow> task_state \<Rightarrow> ('u, 'v, 'f) world \<Rightarrow> ('u, 'v, 'f) world" where
  "stop_task en i to w =
     (let d = mem i w; st = td_state d in
      if st = Cancelled \<or> st = TimedOut \<or> st = Failed \<or> st = Free then w
      else if st = Taken \<and> \<not> repeats (kind d) then w
      else stopped_task en i (on_task i (set_state to) w))"

definition cancel :: "('u, 'v, 'f) env \<Rightarrow> nat \<Rightarrow> ('u, 'v, 'f) world \<Rightarrow> ('u, 'v, 'f) world" where
  "cancel en i w = (if live_task i w = None then w else stop_task en i Cancelled w)"

definition timed_out :: "('u, 'v, 'f) env \<Rightarrow> nat \<Rightarrow> u64 \<Rightarrow> ('u, 'v, 'f) world \<Rightarrow> ('u, 'v, 'f) world" where
  "timed_out en i word w =
     (case live_task i w of
        None \<Rightarrow> w
      | Some d \<Rightarrow>
          if word = 0 \<or> td_run_deadline d \<noteq> word then w
          else
            (let parent = (case td_extras d of None \<Rightarrow> NO_TASK | Some ex \<Rightarrow> ex_parent ex);
                 held = live_task parent w \<noteq> None;
                 w1 = (if held then on_task parent add_listener w else w);
                 (ended, w2) =
                   (case claim_parked (mem i w1) of
                      (Some parked, d1) \<Rightarrow>
                        (let w2 = unwatch_park en i parked FiredNeither (put_task i d1 w1);
                             (raw, d2) = claim (mem i w2);
                             w3 = put_task i d2 w2;
                             w4 = (case raw of None \<Rightarrow> w3 | Some t \<Rightarrow> drop_erased i t w3);
                             (ok, d3) = try_state Running TimedOut (mem i w4);
                             w5 = put_task i d3 w4
                         in (True, release i (if ok then wake_listeners en i (close_extras en i w5) else w5)))
                    | (None, d1) \<Rightarrow>
                        (let (ok, d2) = try_state Running TimedOut d1; w2 = put_task i d2 w1
                         in if \<not> ok then (False, w2) else (True, stopped_task en i w2)))
             in if \<not> held then w2
                else
                  exec_drop_listener parent
                    (if ended \<and> live_task parent w2 \<noteq> None then stop_task en parent TimedOut w2 else w2)))"

definition write_off :: "('u, 'v, 'f) env \<Rightarrow> nat \<Rightarrow> ('u, 'v, 'f) world \<Rightarrow> ('u, 'v, 'f) world" where
  "write_off en i w =
     (if live_task i w = None then w
      else
        (let st = td_state (mem i w);
             w1 = (if over st \<or> st = Free then w
                   else wake_listeners en i (on_task i (set_state Failed) w))
         in case td_gate (mem i w1) of
              None \<Rightarrow> w1
            | Some g \<Rightarrow>
                (let (closed, g1) = close_waiting g; w2 = on_task i (put_gate g1) w1
                 in if closed then finish_waiting en i w2 else on_task i (put_gate (gate_finish g1)) w2)))"

section \<open>Timers that go off\<close>

definition fire :: "('u, 'v, 'f) env \<Rightarrow> nat \<Rightarrow> ('u, 'v, 'f) world \<Rightarrow> ('u, 'v, 'f) world option" where
  "fire en ident w =
     (if ident < SCHEDULE_IDENT_BASE then Some w
      else
        (let i = ident - SCHEDULE_IDENT_BASE in
         case live_task i w of
           None \<Rightarrow> Some w
         | Some d \<Rightarrow>
             (let (mine, d1) = claim_armed d in
              if schedules (kind d) then
                (if td_armed d \<and> \<not> mine then Some w
                 else series_tick en i (if td_armed d then put_task i d1 w else w))
              else if \<not> mine then Some (put_task i d1 w)
              else do {
                (ok, w2) \<leftarrow> queue_task en i (td_blocking d1) (put_task i d1 w);
                if ok then Some w2
                else
                  (let st = td_state (mem i w2);
                       w3 = (if st = Ready \<or> st = Taken \<or> st = Pending
                             then wake_listeners en i (on_task i (set_state Failed) w2) else w2)
                   in Some (release i (close_extras en i w3)))
              })))"

section \<open>A thread waiting in the kernel\<close>

definition current_task :: "('u, 'v, 'f) world \<Rightarrow> ('u erased, 'v, 'f) task_data option" where
  "current_task w = (if wd_current w = NO_TASK then None else live_task (wd_current w) w)"

definition waiting_on :: "int \<Rightarrow> ('u, 'v, 'f) world \<Rightarrow> bool \<times> ('u, 'v, 'f) world" where
  "waiting_on queue w =
     (case current_task w of
        None \<Rightarrow> (True, w)
      | Some d \<Rightarrow>
          if stopped_state (td_state d) then (False, w)
          else
            (let w1 = on_task (wd_current w) (set_waiting queue) w
             in if stopped_state (td_state (mem (wd_current w) w1))
                then (False, on_task (wd_current w) clear_waiting w1) else (True, w1)))"

definition stopped_waiting :: "('u, 'v, 'f) world \<Rightarrow> bool \<times> ('u, 'v, 'f) world" where
  "stopped_waiting w =
     (case current_task w of
        None \<Rightarrow> (True, w)
      | Some d \<Rightarrow> (\<not> stopped_state (td_state d), on_task (wd_current w) clear_waiting w))"

definition cancelled :: "('u, 'v, 'f) world \<Rightarrow> bool" where
  "cancelled w = (case current_task w of None \<Rightarrow> False | Some d \<Rightarrow> stopped_state (td_state d))"

section \<open>Running a task\<close>

definition publish :: "('u, 'v, 'f) env \<Rightarrow> nat \<Rightarrow> 'v \<Rightarrow> ('u, 'v, 'f) world \<Rightarrow> ('u, 'v, 'f) world" where
  "publish en i v w =
     (case live_task i w of
        None \<Rightarrow> w\<lparr>wd_discarded := wd_discarded w @ [v]\<rparr>
      | Some d \<Rightarrow>
          (let (began, old, d1) = begin_run d;
               w1 = (put_task i d1 w)\<lparr>wd_discarded := wd_discarded w @ (case old of None \<Rightarrow> [] | Some x \<Rightarrow> [x])\<rparr>
           in if \<not> began then close_finished_series en i (w1\<lparr>wd_discarded := wd_discarded w1 @ [v]\<rparr>)
              else
                (let w2 = exec_note_output i (on_task i (\<lambda>d. fill (d\<lparr>td_cell := Some v\<rparr>)) w1);
                     (ok, d2) = try_state Running Ready (mem i w2);
                     w3 = put_task i d2 w2
                 in if \<not> ok then w3
                    else close_finished_series en i (forward_output en i (wake_listeners en i w3)))))"

text \<open>
  How the user's code ends: a step, a panic, or the death of its thread. \<open>code i resumed input u w\<close>
  is \<open>prepare\<close>, unless the run is resumed, and one \<open>step\<close> of the user's task \<open>u\<close> handed
  \<open>input\<close>, in slot \<open>i\<close>.
\<close>

datatype ('u, 'v) stepped = Stepped "'v step" 'u | Panicked 'u | ThreadDied 'u

type_synonym ('u, 'v, 'f) code =
  "nat \<Rightarrow> bool \<Rightarrow> 'v option \<Rightarrow> 'u \<Rightarrow> ('u, 'v, 'f) world \<Rightarrow> ('u, 'v) stepped \<times> ('u, 'v, 'f) world"

text \<open>
  \<open>ErasedTask::run\<close> with what \<open>Gated\<close> and \<open>SeriesRun\<close> add. \<open>owner\<close> is the slot whose gate
  and mailbox a task that waits is started through.
\<close>

fun erased_run ::
  "('u, 'v, 'f) env \<Rightarrow> ('u, 'v, 'f) code \<Rightarrow> nat \<Rightarrow> nat \<Rightarrow> bool \<Rightarrow> 'u erased \<Rightarrow> ('u, 'v, 'f) world
    \<Rightarrow> ('u erased, 'v) stepped \<times> ('u, 'v, 'f) world" where
  "erased_run en code owner i resumed (Bare u) w =
     (let (st, w1) = code i resumed None u w in (map_stepped Bare (\<lambda>v. v) st, w1))"
| "erased_run en code owner i resumed (GatedTask u) w =
     (if resumed then (let (st, w1) = code i True None u w in (map_stepped GatedTask (\<lambda>v. v) st, w1))
      else
        (let w0 = (case td_gate (mem owner w) of
                     None \<Rightarrow> w | Some g \<Rightarrow> on_task owner (put_gate (gate_begin g)) w);
             (st, w1) = code i False (wd_mail w0 owner) u w0
         in (map_stepped GatedTask (\<lambda>v. v) st, w1)))"
| "erased_run en code owner i resumed (SeriesRun s t) w =
     (let (st, w1) = erased_run en code s i resumed t w in
      case st of
        Stepped (Done v) t1 \<Rightarrow> (Stepped (Done (en_unit en)) (SeriesRun s t1), publish en s v w1)
      | Stepped (Park pk) t1 \<Rightarrow> (Stepped (Park pk) (SeriesRun s t1), w1)
      | Panicked t1 \<Rightarrow> (Panicked (SeriesRun s t1), w1)
      | ThreadDied t1 \<Rightarrow> (ThreadDied (SeriesRun s t1), w1))"

text \<open>What follows once a run's output is readable and has been handed on.\<close>

definition run_ended ::
  "('u, 'v, 'f) env \<Rightarrow> nat \<Rightarrow> 'u erased \<Rightarrow> ('u, 'v, 'f) world \<Rightarrow> ('u, 'v, 'f) world" where
  "run_ended en i t w = release i (drop_erased i t (close_extras en i w))"

definition after_output ::
  "('u, 'v, 'f) env \<Rightarrow> nat \<Rightarrow> 'u erased \<Rightarrow> ('u, 'v, 'f) world \<Rightarrow> ('u, 'v, 'f) world option" where
  "after_output en i t w =
     (let d = mem i w in
      if \<not> repeats (kind d) then
        (if takes_input d then rewait en i t w else Some (run_ended en i t w))
      else
        (let gap = (if kind_waits (kind d) then unat (td_interval d) else 0);
             (counted, d1) = count_run d;
             w1 = put_task i d1 w
         in if counted \<or> past_deadline (wd_clock w1) gap d1 then
              (if takes_input d1 then rewait en i t w1
               else Some (run_ended en i t (on_task i finish_series w1)))
            else
              (let w2 = on_task i (rearm (Some t)) w1 in do {
                 (armed, w3) \<leftarrow>
                   (if kind_waits (kind (mem i w2)) then Some (wait_out en i w2)
                    else queue_task en i (td_blocking (mem i w2)) w2);
                 if armed then Some w3
                 else
                   (let (ok, d2) = try_state Ready Failed (mem i w3);
                        w4 = put_task i d2 w3
                    in Some (release i (close_extras en i (if ok then wake_listeners en i w4 else w4))))
               })))"

text \<open>How a run ends. The result says whether the thread goes down with it.\<close>

definition run_outcome ::
  "('u, 'v, 'f) env \<Rightarrow> nat \<Rightarrow> ('u erased, 'v) stepped \<Rightarrow> ('u, 'v, 'f) world
    \<Rightarrow> (bool \<times> ('u, 'v, 'f) world) option" where
  "run_outcome en i st w =
     (case st of
        Stepped (Park pk) t \<Rightarrow> Some (False, park_task en i t pk w)
      | ThreadDied t \<Rightarrow> Some (True, drop_erased i t w)
      | Panicked t \<Rightarrow>
          (let w1 = drop_erased i t (close_extras en i (exec_untime_run en i w));
               (ok, d) = try_state Running Failed (mem i w1);
               w2 = put_task i d w1
           in Some (False, release i (if ok then wake_listeners en i w2 else w2)))
      | Stepped (Done v) t \<Rightarrow>
          (let w1 = exec_note_output i
                 (on_task i (\<lambda>d. fill (d\<lparr>td_cell := Some v\<rparr>)) (exec_untime_run en i w));
               (ok, d) = try_state Running Ready (mem i w1);
               w2 = put_task i d w1
           in if \<not> ok then Some (False, run_ended en i t w2)
              else do {
                w3 \<leftarrow> after_output en i t (forward_output en i (wake_listeners en i w2));
                Some (False, w3)
              }))"

definition run_task ::
  "('u, 'v, 'f) env \<Rightarrow> ('u, 'v, 'f) code \<Rightarrow> nat \<Rightarrow> ('u, 'v, 'f) world \<Rightarrow> (bool \<times> ('u, 'v, 'f) world) option" where
  "run_task en code i w =
     (case live_task i w of
        None \<Rightarrow> Some (False, w)
      | Some d \<Rightarrow>
          (case claim d of
             (None, d1) \<Rightarrow> Some (False, put_task i d1 w)
           | (Some t, d1) \<Rightarrow>
               (let (began, old, d2) = begin_run d1;
                    w1 = (put_task i d2 w)\<lparr>wd_discarded := wd_discarded w @ (case old of None \<Rightarrow> [] | Some x \<Rightarrow> [x])\<rparr>
                in if \<not> began \<and> td_state d2 \<noteq> Running then Some (False, run_ended en i t w1)
                   else do {
                     let w2 = on_task i clear_start_delay w1;
                     w3 \<leftarrow> (if began then exec_time_run en i w2 else Some w2);
                     let (st, w4) = erased_run en code i i (\<not> began) t (w3\<lparr>wd_current := i\<rparr>);
                     run_outcome en i st (w4\<lparr>wd_current := wd_current w3\<rparr>)
                   })))"

section \<open>Handles\<close>

definition handle_cloned :: "bool \<Rightarrow> nat \<Rightarrow> ('u, 'v, 'f) world \<Rightarrow> ('u, 'v, 'f) world" where
  "handle_cloned gives i w =
     (let w1 = exec_add_listener i w in
      case td_gate (mem i w1) of
        Some g \<Rightarrow> if gives then on_task i (put_gate (add_giver g)) w1 else w1
      | None \<Rightarrow> w1)"

definition giver_dropped :: "('u, 'v, 'f) env \<Rightarrow> nat \<Rightarrow> ('u, 'v, 'f) world \<Rightarrow> ('u, 'v, 'f) world" where
  "giver_dropped en i w =
     (case td_gate (mem i w) of
        Some g \<Rightarrow>
          (let (last, g1) = drop_giver g; w1 = on_task i (put_gate g1) w
           in if last then abandon_task en i w1 else w1)
      | None \<Rightarrow> w)"

definition handle_dropped ::
  "('u, 'v, 'f) env \<Rightarrow> bool \<Rightarrow> nat \<Rightarrow> ('u, 'v, 'f) world \<Rightarrow> ('u, 'v, 'f) world" where
  "handle_dropped en gives i w =
     exec_drop_listener i (if gives then giver_dropped en i w else w)"

end
