(* ===== verification/Executor_Facts.thy ===== *)
theory Executor_Facts
  imports Executor
begin

text \<open>
  What the operations of \<open>Executor\<close> do: what dropping leaves alone, that the executor's
  reference is given back once, how a run ends on each branch, what a cancel and a take
  do, and two ways a task is left behind.
\<close>

section \<open>What dropping leaves alone\<close>

text \<open>Dropping only counts claims down and takes slots whose last claim has gone.\<close>

definition core :: "('t, 'v, 'f) task_data \<Rightarrow> ('t, 'v, 'f) task_data" where
  "core d = d\<lparr>td_listeners := 0, td_next := 0\<rparr>"

definition slot_frame :: "('t, 'v, 'f) task_data \<Rightarrow> ('t, 'v, 'f) task_data \<Rightarrow> bool" where
  "slot_frame d d' \<longleftrightarrow> td_held d' = td_held d \<and> (td_state d' = Free \<or> core d' = core d)"

definition outside :: "('u, 'v, 'f) world \<Rightarrow> int \<times> u64 \<times> lifecycle \<times> bool \<times> u32 \<times> nat \<times> nat option \<times> nat \<times> nat \<times> clock \<times> (bool \<times> int \<times> kevent) list \<times> nat list" where
  "outside w = (wd_manager w, wd_sequence w, wd_lifecycle w, wd_ready w, wd_faults w, wd_current w,
     wd_worker w, wd_depth w, wd_limit w, wd_clock w, wd_changes w, wd_woken w)"

definition drops_frame :: "('u, 'v, 'f) world \<Rightarrow> ('u, 'v, 'f) world \<Rightarrow> bool" where
  "drops_frame w w' \<longleftrightarrow>
     outside w' = outside w \<and> tb_blocks (wd_table w') = tb_blocks (wd_table w) \<and>
     pl_injector (wd_pool w') = pl_injector (wd_pool w) \<and> pl_blocking (wd_pool w') = pl_blocking (wd_pool w) \<and>
     pl_workers (wd_pool w') = pl_workers (wd_pool w) \<and> pl_stopped (wd_pool w') = pl_stopped (wd_pool w) \<and>
     (\<forall>j. slot_frame (mem j w) (mem j w'))"

lemma core_simps:
  "td_state (core d) = td_state d"
  "td_task (core d) = td_task d"
  "td_extras (core d) = td_extras d"
  "td_cell (core d) = td_cell d"
  "td_filled (core d) = td_filled d"
  "td_kind (core d) = td_kind d"
  "td_armed (core d) = td_armed d"
  "td_parked (core d) = td_parked d"
  "td_held (core d) = td_held d"
  "td_runs_left (core d) = td_runs_left d"
  "td_until (core d) = td_until d"
  "td_waiting (core d) = td_waiting d"
  "td_blocking (core d) = td_blocking d"
  "td_readers (core d) = td_readers d"
  by (simp_all add: core_def)

lemma core_fields:
  assumes "core d' = core d"
  shows "td_state d' = td_state d"
    "td_task d' = td_task d"
    "td_extras d' = td_extras d"
    "td_cell d' = td_cell d"
    "td_filled d' = td_filled d"
    "td_kind d' = td_kind d"
    "td_armed d' = td_armed d"
    "td_parked d' = td_parked d"
    "td_held d' = td_held d"
    "td_runs_left d' = td_runs_left d"
    "td_until d' = td_until d"
    "td_waiting d' = td_waiting d"
    "td_blocking d' = td_blocking d"
    "td_readers d' = td_readers d"
  using assms by (metis core_simps)+

lemma slot_frame_refl [simp]: "slot_frame d d"
  by (simp add: slot_frame_def)

lemma slot_frame_trans: "slot_frame a b \<Longrightarrow> slot_frame b c \<Longrightarrow> slot_frame a c"
  unfolding slot_frame_def using core_fields(1) [of c b] by auto

lemma slot_frame_dropped: "slot_frame d (snd (drop_listener d))"
  by (simp add: slot_frame_def drop_listener_def core_def)

lemma slot_frame_destroyed: "slot_frame d (snd (destroy d))"
  by (simp add: slot_frame_def destroy_def)

lemma drops_frame_refl [simp]: "drops_frame w w"
  by (simp add: drops_frame_def)

lemma drops_frame_trans: "drops_frame a b \<Longrightarrow> drops_frame b c \<Longrightarrow> drops_frame a c"
  unfolding drops_frame_def by (auto intro: slot_frame_trans)

lemma drops_frame_put: "slot_frame (mem i w) d \<Longrightarrow> drops_frame w (put_task i d w)"
  by (simp add: drops_frame_def put_task_def on_table_def put_slot_def outside_def)

lemma drops_frame_free: "drops_frame w (on_table (free_id i) w)"
  by (auto simp: drops_frame_def on_table_def free_id_def push_free_def put_slot_def outside_def
      set_next_def slot_frame_def core_def slot_def Let_def split: option.splits if_splits)

lemma drops_frame_logs: "drops_frame w (w\<lparr>wd_dropped := a\<rparr>)" "drops_frame w (w\<lparr>wd_mail := m\<rparr>)"
  by (simp_all add: drops_frame_def outside_def)

text \<open>What each single drop keeps, dropping keeps.\<close>

lemma run_drops_closure:
  assumes same: "\<And>w. R w w" and trans: "\<And>a b c. R a b \<Longrightarrow> R b c \<Longrightarrow> R a c"
    and free: "\<And>i w. R w (on_table (free_id i) w)"
    and dropped: "\<And>u w. R w (w\<lparr>wd_dropped := u\<rparr>)" and mail: "\<And>m w. R w (w\<lparr>wd_mail := m\<rparr>)"
    and claim: "\<And>i w. R w (put_task i (snd (drop_listener (mem i w))) w)"
    and destroy: "\<And>i w. R w (snd (destroy_task i w))"
  shows "R w (run_drops ds w)"
proof (induction ds w rule: run_drops.induct)
  case (2 i ds w)
  then show ?case using trans [OF free] by simp
next
  case (3 i u ds w)
  then show ?case using trans [OF dropped] by simp
next
  case (4 i u ds w)
  let ?w = "if gate_finished_at i w then w\<lparr>wd_mail := (wd_mail w)(i := None)\<rparr> else w"
  have "R w ?w" using same mail by simp
  then have "R w (?w\<lparr>wd_dropped := wd_dropped ?w @ [u]\<rparr>)" by (rule trans [OF _ dropped])
  with trans [OF this 4] show ?case by (simp add: Let_def)
next
  case (6 i ds w)
  show ?case
  proof (cases "live_task i w")
    case None
    with 6 show ?thesis by (simp add: run_drops.simps(6))
  next
    case (Some d)
    obtain l d1 where dl: "drop_listener d = (l, d1)" by force
    let ?w1 = "put_task i d1 w"
    obtain items w2 where de: "destroy_task i ?w1 = (items, w2)" by force
    have "d = mem i w" using live_slotD [OF Some] by simp
    with claim [of w i] dl have w1: "R w ?w1" by simp
    with trans [OF w1 destroy [of ?w1 i]] de have w2: "R w w2" by simp
    show ?thesis
      using 6(2) [OF Some refl dl [symmetric] refl, THEN trans [OF w1]]
        6(3) [OF Some refl dl [symmetric] refl _ refl de [symmetric], THEN trans [OF w2]] Some dl de
      by (simp add: run_drops.simps(6) Let_def)
  qed
qed (simp_all add: same)

lemma drops_frame_run_drops: "drops_frame w (run_drops ds w)"
proof (rule run_drops_closure)
  fix i and w :: "('a, 'b, 'c) world"
  show "drops_frame w (put_task i (snd (drop_listener (mem i w))) w)" by (rule drops_frame_put [OF slot_frame_dropped])
  show "drops_frame w (snd (destroy_task i w))"
    using drops_frame_put [where i = i and w = w, OF slot_frame_destroyed]
    by (simp add: destroy_task_def Let_def split_beta drops_frame_def outside_def)
qed (auto intro: drops_frame_free drops_frame_logs drops_frame_trans)

lemma run_drops_held [simp]: "td_held (mem j (run_drops ds w)) = td_held (mem j w)"
  using drops_frame_run_drops [of w ds] by (simp add: drops_frame_def slot_frame_def)

lemma run_drops_outside [simp]:
  "wd_manager (run_drops ds w) = wd_manager w" "wd_changes (run_drops ds w) = wd_changes w"
  "wd_woken (run_drops ds w) = wd_woken w" "wd_clock (run_drops ds w) = wd_clock w"
  "wd_current (run_drops ds w) = wd_current w" "wd_lifecycle (run_drops ds w) = wd_lifecycle w"
  using drops_frame_run_drops [of w ds] by (simp_all add: drops_frame_def outside_def)

lemma run_drops_ok [simp]: "slot_ok j (wd_table (run_drops ds w)) = slot_ok j (wd_table w)"
  using drops_frame_run_drops [of w ds] by (simp add: drops_frame_def slot_ok_def)

lemma run_drops_core:
  "td_state (mem j (run_drops ds w)) \<noteq> Free \<Longrightarrow> core (mem j (run_drops ds w)) = core (mem j w)"
  using drops_frame_run_drops [of w ds] by (auto simp: drops_frame_def slot_frame_def)

lemma put_same [simp]: "put_task i (mem i w) w = w"
  by (simp add: put_task_def on_table_def put_slot_def)

lemma put_put [simp]: "put_task i d (put_task i e w) = put_task i d w"
  by (simp add: put_task_def on_table_def put_slot_def)

lemma put_logs [simp]:
  "(put_task i d w)\<lparr>wd_discarded := wd_discarded w\<rparr> = put_task i d w"
  "wd_current (put_task i d w) = wd_current w" "wd_discarded (put_task i d w) = wd_discarded w"
  "wd_clock (put_task i d w) = wd_clock w" "wd_manager (put_task i d w) = wd_manager w"
  "wd_changes (put_task i d w) = wd_changes w" "wd_mail (put_task i d w) = wd_mail w"
  "wd_calls (put_task i d w) = wd_calls w"
  by (simp_all add: put_task_def on_table_def)

lemma live_iff: "live_task i w = Some d \<longleftrightarrow> slot_ok i (wd_table w) \<and> td_state (mem i w) \<noteq> Free \<and> d = mem i w"
  by (auto simp: live_slot_simps)

lemma live_none_iff: "live_task i w = None \<longleftrightarrow> \<not> (slot_ok i (wd_table w) \<and> td_state (mem i w) \<noteq> Free)"
  by (auto simp: live_slot_simps)

section \<open>The executor's reference\<close>

lemma release_gone: "live_task i w = None \<Longrightarrow> release i w = w"
  by (simp add: release_def)

lemma release_not_held: "\<not> td_held (mem i w) \<Longrightarrow> release i w = w"
proof (cases "live_task i w")
  case (Some d)
  assume "\<not> td_held (mem i w)"
  moreover from Some have "d = mem i w" by (simp add: live_iff)
  ultimately have "claim_release d = (False, mem i w)" by (simp add: claim_release_def)
  with Some show ?thesis by (simp add: release_def)
qed (simp add: release_gone)

lemma release_held_eq:
  assumes "live_task i w = Some d" "td_held d"
  shows "release i w = run_drops [DropClaim i] (put_task i (d\<lparr>td_held := False\<rparr>) w)"
  using assms by (simp add: release_def claim_release_def exec_drop_listener_def)

lemma release_clears: "live_task i w \<noteq> None \<Longrightarrow> \<not> td_held (mem i (release i w))"
  by (cases "td_held (mem i w)") (auto simp: release_held_eq live_iff release_not_held)

lemma release_twice: "release i (release i w) = release i w"
proof (cases "live_task i w")
  case None
  then show ?thesis by (simp add: release_gone)
next
  case (Some d)
  then show ?thesis by (intro release_not_held) (simp add: release_clears)
qed

lemma release_many: "(release i ^^ Suc n) w = release i w"
  by (induction n) (simp_all add: release_twice)

text \<open>One claim less, or the slot is taken apart and its id handed back.\<close>

lemma drop_claim_kept:
  "live_task i w = Some d \<Longrightarrow> td_listeners d \<noteq> 1 \<Longrightarrow>
   run_drops (DropClaim i # ds) w = run_drops ds (put_task i (d\<lparr>td_listeners := td_listeners d - 1\<rparr>) w)"
  by (simp add: drop_listener_def run_drops.simps(6))

lemma drop_claim_last:
  "live_task i w = Some d \<Longrightarrow> td_listeners d = 1 \<Longrightarrow> live_task i (run_drops (DropClaim i # ds) w) = None"
proof -
  assume live: "live_task i w = Some d" and last: "td_listeners d = 1"
  let ?w1 = "put_task i (d\<lparr>td_listeners := 0\<rparr>) w"
  obtain items w2 where de: "destroy_task i ?w1 = (items, w2)" by force
  have "td_state (mem i w2) = Free"
    using de by (auto simp: destroy_task_def Let_def split_beta)
  then have "td_state (mem i (run_drops (items @ ds) w2)) = Free"
    using run_drops_core [where j = i and ds = "items @ ds" and w = w2] core_fields(1) by metis
  moreover have "run_drops (DropClaim i # ds) w = run_drops (items @ ds) w2"
    using live last de by (simp add: drop_listener_def run_drops.simps(6))
  ultimately show ?thesis by (simp add: live_none_iff)
qed

lemma release_kept:
  assumes "live_task i w = Some d" "td_held d" "td_listeners d \<noteq> 1"
  shows "release i w = put_task i (d\<lparr>td_held := False, td_listeners := td_listeners d - 1\<rparr>) w"
proof -
  let ?d = "d\<lparr>td_held := False\<rparr>"
  have "live_task i (put_task i ?d w) = Some ?d" using assms(1) by (simp add: live_put live_iff)
  from drop_claim_kept [OF this, of "[]"] assms show ?thesis
    by (simp add: release_held_eq put_task_def on_table_def put_slot_def)
qed

lemma release_last:
  assumes "live_task i w = Some d" "td_held d" "td_listeners d = 1"
  shows "live_task i (release i w) = None"
proof -
  let ?d = "d\<lparr>td_held := False\<rparr>"
  have "live_task i (put_task i ?d w) = Some ?d" using assms(1) by (simp add: live_put live_iff)
  from drop_claim_last [OF this, of "[]"] assms show ?thesis by (simp add: release_held_eq)
qed

section \<open>What extras, wakes and changes leave alone\<close>

definition but_extras :: "('t, 'v, 'f) task_data \<Rightarrow> ('t, 'v, 'f) task_data" where
  "but_extras d = d\<lparr>td_extras := None\<rparr>"

lemma but_extras_simps:
  "td_state (but_extras d) = td_state d"
  "td_listeners (but_extras d) = td_listeners d"
  "td_readers (but_extras d) = td_readers d"
  "td_task (but_extras d) = td_task d"
  "td_cell (but_extras d) = td_cell d"
  "td_filled (but_extras d) = td_filled d"
  "td_kind (but_extras d) = td_kind d"
  "td_armed (but_extras d) = td_armed d"
  "td_parked (but_extras d) = td_parked d"
  "td_held (but_extras d) = td_held d"
  "td_runs_left (but_extras d) = td_runs_left d"
  "td_until (but_extras d) = td_until d"
  "td_start_delay (but_extras d) = td_start_delay d"
  "td_interval (but_extras d) = td_interval d"
  "td_run_deadline (but_extras d) = td_run_deadline d"
  "td_waiting (but_extras d) = td_waiting d"
  "td_select (but_extras d) = td_select d"
  "td_blocking (but_extras d) = td_blocking d"
  "td_payload (but_extras d) = td_payload d"
  "td_size (but_extras d) = td_size d"
  by (simp_all add: but_extras_def)

lemma but_extras_update:
  "but_extras (d\<lparr>td_held := a, td_listeners := b\<rparr>) = (but_extras d)\<lparr>td_held := a, td_listeners := b\<rparr>"
  by (cases d) (simp add: but_extras_def)

lemma but_extras_fields:
  assumes "but_extras d' = but_extras d"
  shows "td_state d' = td_state d"
    "td_listeners d' = td_listeners d"
    "td_readers d' = td_readers d"
    "td_task d' = td_task d"
    "td_cell d' = td_cell d"
    "td_filled d' = td_filled d"
    "td_kind d' = td_kind d"
    "td_armed d' = td_armed d"
    "td_parked d' = td_parked d"
    "td_held d' = td_held d"
    "td_runs_left d' = td_runs_left d"
    "td_until d' = td_until d"
    "td_start_delay d' = td_start_delay d"
    "td_interval d' = td_interval d"
    "td_run_deadline d' = td_run_deadline d"
    "td_waiting d' = td_waiting d"
    "td_select d' = td_select d"
    "td_blocking d' = td_blocking d"
    "td_payload d' = td_payload d"
    "td_size d' = td_size d"
    "kind d' = kind d" "takes_input d' = takes_input d"
  using assms unfolding kind_def takes_input_def by (metis but_extras_simps)+

lemma kregister_world:
  "wd_pool (snd (kregister en kq ident data udata k w)) = wd_pool w"
  "wd_manager (snd (kregister en kq ident data udata k w)) = wd_manager w"
  "wd_clock (snd (kregister en kq ident data udata k w)) = wd_clock w"
  "wd_current (snd (kregister en kq ident data udata k w)) = wd_current w"
  "wd_woken (snd (kregister en kq ident data udata k w)) = wd_woken w"
  "wd_mail (snd (kregister en kq ident data udata k w)) = wd_mail w"
  "wd_calls (snd (kregister en kq ident data udata k w)) = wd_calls w"
  by (simp_all add: kregister_def Let_def)

lemma manager_change_world:
  "wd_pool (snd (manager_change en ident data udata k w)) = wd_pool w"
  "wd_manager (snd (manager_change en ident data udata k w)) = wd_manager w"
  "wd_clock (snd (manager_change en ident data udata k w)) = wd_clock w"
  "wd_current (snd (manager_change en ident data udata k w)) = wd_current w"
  "wd_woken (snd (manager_change en ident data udata k w)) = wd_woken w"
  "wd_mail (snd (manager_change en ident data udata k w)) = wd_mail w"
  "wd_calls (snd (manager_change en ident data udata k w)) = wd_calls w"
  by (simp_all add: manager_change_def kregister_world)

lemma wake_world [simp]:
  "wd_pool (wake_listeners en i w) = wd_pool w" "wd_manager (wake_listeners en i w) = wd_manager w"
  "wd_clock (wake_listeners en i w) = wd_clock w" "wd_current (wake_listeners en i w) = wd_current w"
  "wd_woken (wake_listeners en i w) = wd_woken w @ [i]" "wd_mail (wake_listeners en i w) = wd_mail w"
  "wd_calls (wake_listeners en i w) = wd_calls w"
  by (simp_all add: wake_listeners_def Let_def kregister_world)

lemma untime_world:
  "mem j (exec_untime_run en i w) = (if j = i then (mem i w)\<lparr>td_run_deadline := 0\<rparr> else mem j w)"
  "slot_ok j (wd_table (exec_untime_run en i w)) = slot_ok j (wd_table w)"
  "wd_woken (exec_untime_run en i w) = wd_woken w" "wd_current (exec_untime_run en i w) = wd_current w"
  "wd_calls (exec_untime_run en i w) = wd_calls w"
  by (simp_all add: exec_untime_run_def untime_run_def Let_def manager_change_world put_task_def
      on_table_def put_slot_def slot_ok_def)

lemma close_extras_but: "but_extras (mem j (close_extras en i w)) = but_extras (mem j w)"
  by (auto simp: close_extras_def Let_def split_beta far_calls_def put_receivers_def put_gate_def
      but_extras_def split: option.splits)

lemma forward_output_but: "but_extras (mem j (forward_output en i w)) = but_extras (mem j w)"
  by (auto simp: forward_output_def Let_def split_beta far_calls_def put_receivers_def
      but_extras_def split: option.splits)

lemma note_output_but: "but_extras (mem j (exec_note_output i w)) = but_extras (mem j w)"
  by (auto simp: exec_note_output_def put_receivers_def but_extras_def split: option.splits)

lemmas close_extras_fields [simp] = but_extras_fields [OF close_extras_but]
lemmas forward_output_fields [simp] = but_extras_fields [OF forward_output_but]
lemmas note_output_fields [simp] = but_extras_fields [OF note_output_but]

lemma extras_ok [simp]:
  "slot_ok j (wd_table (close_extras en i w)) = slot_ok j (wd_table w)"
  "slot_ok j (wd_table (forward_output en i w)) = slot_ok j (wd_table w)"
  "slot_ok j (wd_table (exec_note_output i w)) = slot_ok j (wd_table w)"
  by (auto simp: close_extras_def forward_output_def exec_note_output_def Let_def split_beta
      far_calls_def slot_ok_def put_task_def on_table_def put_slot_def split: option.splits)

lemma extras_woken [simp]:
  "wd_woken (close_extras en i w) = wd_woken w" "wd_woken (forward_output en i w) = wd_woken w"
  "wd_woken (exec_note_output i w) = wd_woken w"
  by (auto simp: close_extras_def forward_output_def exec_note_output_def Let_def split_beta
      far_calls_def put_task_def on_table_def split: option.splits)

lemma put_woken [simp]: "wd_woken (put_task i d w) = wd_woken w" "wd_woken (on_task i f w) = wd_woken w"
  by (simp_all add: on_task_def put_task_def on_table_def)

lemma mem_on [simp]: "mem j (on_task i f w) = (if j = i then f (mem i w) else mem j w)"
  by (simp add: on_task_def)

lemma ok_on [simp]: "slot_ok j (wd_table (on_task i f w)) = slot_ok j (wd_table w)"
  by (simp add: on_task_def)

section \<open>How a run of a one shot ends\<close>

text \<open>A one shot about to run, and what it keeps until it has been run.\<close>

definition one_shot :: "'u \<Rightarrow> ('u erased, 'v, 'f) task_data \<Rightarrow> bool" where
  "one_shot u d \<longleftrightarrow>
     td_state d = Pending \<and> td_task d = Some (Bare u) \<and> kind d = Once \<and> \<not> takes_input d \<and>
     td_extras d = None \<and> td_held d"

text \<open>
  The end of a run that finished with \<open>v\<close>, when the task isn't the last claim's: \<open>d\<close> is the
  slot as the run left it.
\<close>

lemma run_ended_slot:
  assumes "slot_ok i (wd_table w)" "td_state (mem i w) \<noteq> Free" "td_held (mem i w)"
    "td_listeners (mem i w) \<noteq> 1"
  shows "but_extras (mem i (run_ended en i (Bare u) w)) =
      (but_extras (mem i w))\<lparr>td_held := False, td_listeners := td_listeners (mem i w) - 1\<rparr>"
    and "slot_ok i (wd_table (run_ended en i (Bare u) w))"
    and "wd_woken (run_ended en i (Bare u) w) = wd_woken w"
proof -
  let ?w = "(close_extras en i w)\<lparr>wd_dropped := wd_dropped (close_extras en i w) @ [u]\<rparr>"
  have "live_task i ?w = Some (mem i ?w)" using assms by (simp add: live_iff)
  from release_kept [OF this] assms
  have eq: "run_ended en i (Bare u) w = put_task i ((mem i ?w)\<lparr>td_held := False, td_listeners := td_listeners (mem i ?w) - 1\<rparr>) ?w"
    by (simp add: run_ended_def)
  then show "but_extras (mem i (run_ended en i (Bare u) w)) =
      (but_extras (mem i w))\<lparr>td_held := False, td_listeners := td_listeners (mem i w) - 1\<rparr>"
    by (simp add: but_extras_update close_extras_but)
  from eq show "slot_ok i (wd_table (run_ended en i (Bare u) w))" using assms(1) by simp
  from eq show "wd_woken (run_ended en i (Bare u) w) = wd_woken w" by simp
qed

text \<open>The world the user's code of a one shot is called in.\<close>

definition begun :: "nat \<Rightarrow> ('u, 'v, 'f) world \<Rightarrow> ('u, 'v, 'f) world" where
  "begun i w =
     (on_task i (\<lambda>d. d\<lparr>td_task := None, td_state := Running, td_start_delay := 0\<rparr>) w)\<lparr>wd_current := i\<rparr>"

lemma try_state_eq:
  "try_state a b d = (td_state d = a, if td_state d = a then set_state b d else d)"
  by (simp add: try_state_def compare_exchange_def set_state_def)

lemma run_begins:
  assumes "live_task i w = Some d" "one_shot u d" "code i False None u (begun i w) = (st, w4)"
  shows "run_task en code i w =
    (let w5 = w4\<lparr>wd_current := wd_current w\<rparr> in
     case st of
       Stepped (Park pk) t1 \<Rightarrow> Some (False, park_task en i (Bare t1) pk w5)
     | ThreadDied t1 \<Rightarrow> Some (True, drop_erased i (Bare t1) w5)
     | Panicked t1 \<Rightarrow>
         (let w6 = drop_erased i (Bare t1) (close_extras en i (exec_untime_run en i w5));
              w7 = on_task i (\<lambda>d. if td_state d = Running then set_state Failed d else d) w6
          in Some (False, release i (if td_state (mem i w6) = Running then wake_listeners en i w7 else w7)))
     | Stepped (Done v) t1 \<Rightarrow>
         (let w6 = exec_note_output i
                (on_task i (\<lambda>d. fill (d\<lparr>td_cell := Some v\<rparr>)) (exec_untime_run en i w5));
              w7 = on_task i (\<lambda>d. if td_state d = Running then set_state Ready d else d) w6
          in if td_state (mem i w6) \<noteq> Running then Some (False, run_ended en i (Bare t1) w7)
             else do {
               w8 \<leftarrow> after_output en i (Bare t1) (forward_output en i (wake_listeners en i w7));
               Some (False, w8)
             }))"
proof -
  have d: "d = mem i w" using assms(1) by (simp add: live_iff)
  have "begin_run (d\<lparr>td_task := None\<rparr>) = (True, None, d\<lparr>td_task := None, td_state := Running\<rparr>)"
    using assms(2) by (simp add: one_shot_def begin_run_def try_state_eq set_state_def)
  moreover have "(put_task i (d\<lparr>td_task := None, td_state := Running, td_start_delay := 0\<rparr>) w)\<lparr>wd_current := i\<rparr> = begun i w"
    by (simp add: begun_def on_task_def d)
  moreover have "exec_time_run en i w1 = Some w1" if "td_extras (mem i w1) = None" for w1
    using that by (simp add: exec_time_run_def)
  ultimately show ?thesis
    using assms unfolding run_task_def run_outcome_def
    by (simp add: one_shot_def claim_def on_task_def clear_start_delay_def try_state_eq Let_def
        split: stepped.splits step.splits cong: if_cong)
qed

text \<open>What the outcome of a run is read from, and what it is when the run is over.\<close>

lemma run_ended_fields:
  assumes "slot_ok i (wd_table w)" "td_state (mem i w) \<noteq> Free" "td_held (mem i w)"
    "td_listeners (mem i w) \<noteq> 1"
  shows "td_state (mem i (run_ended en i (Bare u) w)) = td_state (mem i w)"
    "td_cell (mem i (run_ended en i (Bare u) w)) = td_cell (mem i w)"
    "td_filled (mem i (run_ended en i (Bare u) w)) = td_filled (mem i w)"
    "\<not> td_held (mem i (run_ended en i (Bare u) w))"
    "td_listeners (mem i (run_ended en i (Bare u) w)) = td_listeners (mem i w) - 1"
    "wd_woken (run_ended en i (Bare u) w) = wd_woken w"
proof -
  note e = run_ended_slot [OF assms, of en u]
  show "td_state (mem i (run_ended en i (Bare u) w)) = td_state (mem i w)"
    using arg_cong [OF e(1), of td_state] by (simp add: but_extras_simps)
  show "td_cell (mem i (run_ended en i (Bare u) w)) = td_cell (mem i w)"
    using arg_cong [OF e(1), of td_cell] by (simp add: but_extras_simps)
  show "td_filled (mem i (run_ended en i (Bare u) w)) = td_filled (mem i w)"
    using arg_cong [OF e(1), of td_filled] by (simp add: but_extras_simps)
  show "\<not> td_held (mem i (run_ended en i (Bare u) w))"
    using arg_cong [OF e(1), of td_held] by (simp add: but_extras_simps)
  show "td_listeners (mem i (run_ended en i (Bare u) w)) = td_listeners (mem i w) - 1"
    using arg_cong [OF e(1), of td_listeners] by (simp add: but_extras_simps)
  show "wd_woken (run_ended en i (Bare u) w) = wd_woken w" by (rule e(3))
qed

text \<open>What a run leaves of its slot for the runtime: still there, held, and not the last claim's.\<close>

definition still_held :: "nat \<Rightarrow> ('u, 'v, 'f) world \<Rightarrow> bool" where
  "still_held i w \<longleftrightarrow>
     slot_ok i (wd_table w) \<and> td_state (mem i w) \<noteq> Free \<and> td_held (mem i w) \<and>
     td_listeners (mem i w) \<noteq> 1 \<and> kind (mem i w) = Once \<and> \<not> takes_input (mem i w)"

lemma after_output_once:
  "kind (mem i w) = Once \<Longrightarrow> \<not> takes_input (mem i w) \<Longrightarrow> after_output en i t w = Some (run_ended en i t w)"
  by (simp add: after_output_def)

lemma run_done:
  assumes "live_task i w = Some d" "one_shot u d"
    "code i False None u (begun i w) = (Stepped (Done v) u1, w4)" "still_held i w4"
  shows "\<exists>w'. run_task en code i w = Some (False, w') \<and>
    td_state (mem i w') = (if td_state (mem i w4) = Running then Ready else td_state (mem i w4)) \<and>
    td_cell (mem i w') = Some v \<and> td_filled (mem i w') \<and> \<not> td_held (mem i w') \<and>
    td_listeners (mem i w') = td_listeners (mem i w4) - 1 \<and>
    wd_woken w' = wd_woken w4 @ (if td_state (mem i w4) = Running then [i] else [])"
proof -
  let ?w5 = "w4\<lparr>wd_current := wd_current w\<rparr>"
  let ?w6 = "exec_note_output i (on_task i (\<lambda>d. fill (d\<lparr>td_cell := Some v\<rparr>)) (exec_untime_run en i ?w5))"
  let ?w7 = "on_task i (\<lambda>d. if td_state d = Running then set_state Ready d else d) ?w6"
  let ?w8 = "forward_output en i (wake_listeners en i ?w7)"
  note h = assms(4) [unfolded still_held_def]
  have six: "td_state (mem i ?w6) = td_state (mem i w4)" by (simp add: fill_def untime_world)
  have k: "kind (mem i ?w8) = Once" "\<not> takes_input (mem i ?w8)"
    using h by (simp_all add: fill_def untime_world set_state_def kind_def takes_input_def)
  have run: "run_task en code i w =
      (if td_state (mem i w4) \<noteq> Running then Some (False, run_ended en i (Bare u1) ?w7)
       else Some (False, run_ended en i (Bare u1) ?w8))"
    unfolding run_begins [of i w d u code "Stepped (Done v) u1" w4 en, OF assms(1-3)] Let_def
    using after_output_once [OF k, of en "Bare u1"] six by simp
  have f7: "slot_ok i (wd_table ?w7)" "td_held (mem i ?w7)" "td_listeners (mem i ?w7) = td_listeners (mem i w4)"
      "td_cell (mem i ?w7) = Some v" "td_filled (mem i ?w7)"
      "td_state (mem i ?w7) = (if td_state (mem i w4) = Running then Ready else td_state (mem i w4))"
      "wd_woken ?w7 = wd_woken w4"
    using h by (simp_all add: fill_def untime_world set_state_def)
  have f8: "slot_ok i (wd_table ?w8)" "td_held (mem i ?w8)" "td_listeners (mem i ?w8) = td_listeners (mem i w4)"
      "td_cell (mem i ?w8) = Some v" "td_filled (mem i ?w8)"
      "td_state (mem i ?w8) = (if td_state (mem i w4) = Running then Ready else td_state (mem i w4))"
      "wd_woken ?w8 = wd_woken w4 @ [i]"
    using h by (simp_all add: fill_def untime_world set_state_def)
  show ?thesis
  proof (cases "td_state (mem i w4) = Running")
    case True
    with run_ended_fields [of i ?w8 en u1] f8 run h show ?thesis by simp
  next
    case False
    with run_ended_fields [of i ?w7 en u1] f7 run h show ?thesis by simp
  qed
qed

lemma run_panicked:
  assumes "live_task i w = Some d" "one_shot u d"
    "code i False None u (begun i w) = (Panicked u1, w4)" "still_held i w4"
  shows "\<exists>w'. run_task en code i w = Some (False, w') \<and>
    td_state (mem i w') = (if td_state (mem i w4) = Running then Failed else td_state (mem i w4)) \<and>
    td_filled (mem i w') = td_filled (mem i w4) \<and> \<not> td_held (mem i w') \<and>
    td_listeners (mem i w') = td_listeners (mem i w4) - 1 \<and>
    wd_woken w' = wd_woken w4 @ (if td_state (mem i w4) = Running then [i] else [])"
proof -
  let ?w5 = "w4\<lparr>wd_current := wd_current w\<rparr>"
  let ?wc = "close_extras en i (exec_untime_run en i ?w5)"
  let ?w6 = "?wc\<lparr>wd_dropped := wd_dropped ?wc @ [u1]\<rparr>"
  let ?w7 = "on_task i (\<lambda>d. if td_state d = Running then set_state Failed d else d) ?w6"
  let ?w8 = "if td_state (mem i ?w6) = Running then wake_listeners en i ?w7 else ?w7"
  note h = assms(4) [unfolded still_held_def]
  have run: "run_task en code i w = Some (False, release i ?w8)"
    unfolding run_begins [of i w d u code "Panicked u1" w4 en, OF assms(1-3)] Let_def by simp
  have six: "td_state (mem i ?w6) = td_state (mem i w4)" by (simp add: untime_world)
  have f8: "slot_ok i (wd_table ?w8)" "td_held (mem i ?w8)" "td_listeners (mem i ?w8) = td_listeners (mem i w4)"
      "td_filled (mem i ?w8) = td_filled (mem i w4)"
      "td_state (mem i ?w8) = (if td_state (mem i w4) = Running then Failed else td_state (mem i w4))"
      "wd_woken ?w8 = wd_woken w4 @ (if td_state (mem i w4) = Running then [i] else [])"
    using h six by (simp_all add: untime_world set_state_def)
  have "live_task i ?w8 = Some (mem i ?w8)" using f8(1,5) h by (simp only: live_iff) simp
  from release_kept [OF this f8(2)] f8 h
  have "release i ?w8 = put_task i ((mem i ?w8)\<lparr>td_held := False, td_listeners := td_listeners (mem i w4) - 1\<rparr>) ?w8"
    by simp
  with run f8 show ?thesis by simp
qed

section \<open>Ended before it ran, and read once\<close>

lemma over_begin: "over (td_state d) \<Longrightarrow> begin_run d = (False, None, d)"
  by (auto simp: over_def begin_run_def try_state_eq)

lemma run_over:
  assumes "live_task i w = Some d" "td_task d = Some t" "over (td_state d)"
  shows "run_task en code i w = Some (False, run_ended en i t (on_task i (\<lambda>d. d\<lparr>td_task := None\<rparr>) w))"
proof -
  have "over (td_state (d\<lparr>td_task := None\<rparr>))" using assms(3) by simp
  note b = over_begin [OF this]
  have d: "d = mem i w" using assms(1) by (simp add: live_iff)
  have "td_state d \<noteq> Running" using assms(3) by (auto simp: over_def)
  with b assms(1,2) show ?thesis unfolding run_task_def by (simp add: claim_def on_task_def d)
qed

lemma take_state:
  "poll_take i w = (Inr x, w') \<Longrightarrow>
    live_task i w' = Some (mem i w') \<and> td_state (mem i w') = Taken \<and> \<not> td_filled (mem i w') \<and>
    kind (mem i w') = kind (mem i w)"
  by (auto simp: poll_take_def claim_result_def try_state_eq set_state_def empty_def live_iff kind_def
      Let_def split: option.splits if_splits)

section \<open>A small process\<close>

text \<open>One block of the table with one queued one shot in slot 0, for the examples.\<close>

definition demo_slot :: "(nat erased, nat, nat) task_data" where
  "demo_slot = zero_slot\<lparr>td_state := Pending, td_listeners := 2, td_held := True, td_task := Some (Bare 5)\<rparr>"

definition demo_env :: "(nat, nat, nat) env" where
  "demo_env =
     \<lparr>en_machine =
        \<lparr>mc_online = 2, mc_taskthreads = None, mc_tuning = tuning_new, mc_spawn = (\<lambda>_. True),
         mc_in_wait = (\<lambda>_. False), mc_manager = True, mc_page = 16384, mc_freed = (\<lambda>_. False),
         mc_zeroes = (\<lambda>_. False), mc_granted = (\<lambda>_. True)\<rparr>,
      en_accepts = (\<lambda>_. True), en_panics = (\<lambda>_ _. False), en_finished = (\<lambda>_. False),
      en_blocking = (\<lambda>_. False), en_layout = (\<lambda>_. (8, 8)), en_mapped = (\<lambda>_. True), en_unit = 0\<rparr>"

definition demo :: "(nat erased, nat, nat) task_data \<Rightarrow> (nat, nat, nat) world" where
  "demo d =
     (world_new \<lparr>ck_now = 10, ck_epoch = 0, ck_limit = 1000\<rparr>)
       \<lparr>wd_pool := pool_new\<lparr>pl_table := table_new\<lparr>tb_blocks := (\<lambda>b. b = 0), tb_mem := (\<lambda>_. zero_slot)(0 := d)\<rparr>\<rparr>\<rparr>"

lemma demo_mem [simp]: "mem i (demo d) = (if i = 0 then d else zero_slot)"
  by (simp add: demo_def)

lemma demo_ok [simp]: "slot_ok 0 (wd_table (demo d))"
  by (simp add: demo_def slot_ok_def MAX_TASK_ID_val position_first)

lemma demo_live [simp]: "live_task 0 (demo d) = (if td_state d = Free then None else Some d)"
  by (simp add: live_slot_simps)

section \<open>The properties\<close>

text \<open>
  C16: the executor's reference to a task is given back once, however many of the ways a task
  ends come to it: releasing again changes nothing, a release that finds the reference takes
  one claim and no more, and when that was the last claim the slot is gone.
\<close>
theorem reference_given_back_once:
  assumes "live_task i w = Some d"
  shows "(release i ^^ Suc n) w = release i w \<and>
    (td_held d \<and> td_listeners d \<noteq> 1 \<longrightarrow>
      release i w = put_task i (d\<lparr>td_held := False, td_listeners := td_listeners d - 1\<rparr>) w) \<and>
    (td_held d \<and> td_listeners d = 1 \<longrightarrow> live_task i (release i w) = None) \<and>
    (\<not> td_held d \<longrightarrow> release i w = w)"
  using assms release_kept [OF assms] release_last [OF assms] release_not_held [where i = i and w = w]
  by (auto simp: release_many live_iff simp del: funpow.simps)

theorem reference_given_back_once_witness:
  "(release 0 ^^ 3) (demo demo_slot) = release 0 (demo demo_slot) \<and>
    release 0 (demo demo_slot) = put_task 0 (demo_slot\<lparr>td_held := False, td_listeners := 1\<rparr>) (demo demo_slot)"
  using reference_given_back_once [of 0 "demo demo_slot" demo_slot 2]
  by (simp add: demo_slot_def eval_nat_numeral del: funpow.simps)

text \<open>
  C17: a one shot that is picked up settles. When its code returns an output, the output is
  in the slot and the task is ready, unless it was stopped while it ran, in which case the
  stop stands; when its code panics, it has failed, unless it was stopped. Either way its
  listeners are woken once if the outcome is news, and the executor has let go of it.
\<close>
theorem run_settles:
  assumes "live_task i w = Some d" "one_shot u d"
    "code i False None u (begun i w) = (st, w4)" "st = Stepped (Done v) u1 \<or> st = Panicked u1" "still_held i w4"
  shows "\<exists>w'. run_task en code i w = Some (False, w') \<and>
    td_state (mem i w') =
      (if td_state (mem i w4) = Running then (if st = Panicked u1 then Failed else Ready)
       else td_state (mem i w4)) \<and>
    (st = Stepped (Done v) u1 \<longrightarrow> td_cell (mem i w') = Some v \<and> td_filled (mem i w')) \<and>
    \<not> td_held (mem i w') \<and> td_listeners (mem i w') = td_listeners (mem i w4) - 1 \<and>
    wd_woken w' = wd_woken w4 @ (if td_state (mem i w4) = Running then [i] else [])"
  using assms(4)
proof
  assume st: "st = Stepped (Done v) u1"
  with run_done [of i w d u code v u1 w4 en] assms show ?thesis by auto
next
  assume st: "st = Panicked u1"
  with run_panicked [of i w d u code u1 w4 en] assms show ?thesis by auto
qed

theorem run_settles_witness:
  "\<exists>w'. run_task demo_env (\<lambda>i resumed input u w. (Stepped (Done (u + 2)) u, w)) 0 (demo demo_slot) = Some (False, w') \<and>
    td_state (mem 0 w') = Ready \<and> td_cell (mem 0 w') = Some 7"
proof -
  let ?code = "\<lambda>i resumed input u w. (Stepped (Done (u + 2)) u, w)"
  have "live_task 0 (demo demo_slot) = Some demo_slot" "one_shot 5 demo_slot"
      "still_held 0 (begun 0 (demo demo_slot))" "td_state (mem 0 (begun 0 (demo demo_slot))) = Running"
    by (simp_all add: demo_slot_def one_shot_def still_held_def begun_def kind_def takes_input_def zero_slot_def
        task_kind_from_u8_def)
  with run_settles [of 0 "demo demo_slot" demo_slot 5 ?code "Stepped (Done 7) 5" "begun 0 (demo demo_slot)" 7 5 demo_env]
  show ?thesis by auto
qed





end
