(* ===== verification/Pool_Frame.thy ===== *)
theory Pool_Frame
  imports Pool
begin

text \<open>
  What queueing leaves alone: pushing, popping, stealing, recovering and growing change a
  task's slot only in its link to the next queued task and in the mark that says which
  queue it is on.
\<close>

section \<open>Tables but for the queues in them\<close>

definition unqueued :: "('t, 'v, 'f) task_data \<Rightarrow> ('t, 'v, 'f) task_data" where
  "unqueued d = d\<lparr>td_queue_next := 0, td_queued := 0\<rparr>"

definition base :: "('t, 'v, 'f) table \<Rightarrow> ('t, 'v, 'f) table" where
  "base tb = tb\<lparr>tb_mem := (\<lambda>i. unqueued (tb_mem tb i))\<rparr>"

lemma unqueued_marks [simp]:
  "unqueued (mark_queued q d) = unqueued d" "unqueued (set_queue_next n d) = unqueued d"
  "unqueued (snd (claim_queued q d)) = unqueued d"
  by (simp_all add: unqueued_def mark_queued_def set_queue_next_def claim_queued_def split_beta)

lemma base_put: "unqueued d = unqueued (tb_mem tb i) \<Longrightarrow> base (put_slot i d tb) = base tb"
  unfolding base_def by (simp add: put_slot_def if_distrib [of unqueued] cong: if_cong)
    (rule arg_cong [of _ _ "\<lambda>f. tb\<lparr>tb_mem := f\<rparr>"], auto)

lemma base_slot: "base tb' = base tb \<Longrightarrow> unqueued (tb_mem tb' i) = unqueued (tb_mem tb i)"
  unfolding base_def by (drule arg_cong [where f = tb_mem]) (simp, drule fun_cong, assumption)

lemma base_ok: "base tb' = base tb \<Longrightarrow> slot_ok i tb' = slot_ok i tb"
  unfolding base_def slot_ok_def by (drule arg_cong [where f = tb_blocks]) simp

lemma bind_SomeE: "Option.bind m f = Some y \<Longrightarrow> (\<And>x. m = Some x \<Longrightarrow> f x = Some y \<Longrightarrow> P) \<Longrightarrow> P"
  by (cases m) simp_all

section \<open>The shared queue\<close>

lemma base_link [simp]: "base (snd (link_incoming b i ij tb)) = base tb"
  by (simp add: link_incoming_def base_put)

lemma base_push: "push i ij tb = (ok, ij', tb') \<Longrightarrow> base tb' = base tb"
  by (auto simp: push_def link_incoming_def base_put Let_def live_slot_simps split: option.splits if_splits)

lemma base_set_link [simp]: "base (set_queue_link i n tb) = base tb"
  by (auto simp: set_queue_link_def base_put slot_def split: option.splits if_splits)

lemma base_flip_loop: "flip_loop c r tb = Some x \<Longrightarrow> base (snd x) = base tb"
  by (erule flip_loop.raw_induct [where P = "\<lambda>c r tb x. base (snd x) = base tb", rotated])
    (auto split: if_splits option.splits)

lemma base_flip: "flip b ij tb = Some (again, ij', tb') \<Longrightarrow> base tb' = base tb"
  by (auto simp: flip_def Let_def bind_eq_Some_conv dest: base_flip_loop split: if_splits)

lemma base_next_of: "next_of b ij tb = Some (got, ij', tb') \<Longrightarrow> base tb' = base tb"
  by (auto simp: next_of_def bind_eq_Some_conv dest: base_flip split: option.splits if_splits)

lemma base_claim: "live_slot i tb = Some d \<Longrightarrow> base (put_slot i (snd (claim_queued q d)) tb) = base tb"
  by (simp add: live_slot_simps base_put split: if_splits)

lemma base_take_from: "take_from b ij tb = Some x \<Longrightarrow> base (snd (snd x)) = base tb"
  by (erule take_from.raw_induct [where P = "\<lambda>b ij tb x. base (snd (snd x)) = base tb", rotated])
    (auto simp: Let_def split_beta base_claim elim!: bind_SomeE dest!: base_next_of
        split: option.split_asm if_split_asm)

lemma base_pop_bands: "pop_bands bs ij tb = Some (got, ij', tb') \<Longrightarrow> base tb' = base tb"
  by (induction bs arbitrary: ij tb)
    (auto simp: bind_eq_Some_conv dest!: base_take_from split: option.split_asm)

lemma base_pop_banded: "pop_banded ij tb = Some (got, ij', tb') \<Longrightarrow> base tb' = base tb"
  by (auto simp: pop_banded_def Let_def bind_eq_Some_conv dest!: base_take_from base_pop_bands
      split: option.split_asm if_split_asm)

lemma base_pop: "pop ij tb = Some (got, ij', tb') \<Longrightarrow> base tb' = base tb"
  by (auto simp: pop_def bind_eq_Some_conv dest!: base_pop_banded)

lemma base_promote: "promote b ij tb = Some (ij', tb') \<Longrightarrow> base tb' = base tb"
  by (auto simp: promote_def link_incoming_def base_put bind_eq_Some_conv split: option.split_asm if_split_asm)

lemma base_refill: "refill_bands bs ij tb = Some (ij', tb') \<Longrightarrow> base tb' = base tb"
  by (induction bs arbitrary: ij tb) (auto simp: bind_eq_Some_conv dest!: base_flip)

lemma base_drain: "drain_bands ids ij tb = Some x \<Longrightarrow> base (snd (snd x)) = base tb"
  by (erule drain_bands.raw_induct [where P = "\<lambda>ids ij tb x. base (snd (snd x)) = base tb", rotated])
    (auto simp: bind_eq_Some_conv dest!: base_pop split: option.split_asm)

section \<open>Rings and workers\<close>

lemma base_claim_local: "base (snd (claim_local i tb)) = base tb"
  by (auto simp: claim_local_def split_beta base_claim split: option.splits)

lemma base_ring_pop: "ring_pop w tb = Some x \<Longrightarrow> base (snd (snd x)) = base tb"
  by (erule ring_pop.raw_induct [where P = "\<lambda>w tb x. base (snd (snd x)) = base tb", rotated])
    (auto simp: Let_def split_beta base_claim_local split: if_split_asm)

lemma base_pop_all: "pop_all ids w tb = Some x \<Longrightarrow> base (snd (snd x)) = base tb"
  by (erule pop_all.raw_induct [where P = "\<lambda>ids w tb x. base (snd (snd x)) = base tb", rotated])
    (auto simp: bind_eq_Some_conv dest!: base_ring_pop split: option.split_asm)

lemma base_recover_worker: "recover_worker w tb = Some (ids, stranded, w', tb') \<Longrightarrow> base tb' = base tb"
  by (auto simp: recover_worker_def Let_def split_beta bind_eq_Some_conv dest!: base_pop_all)

lemma base_pushed: "base (snd (snd (push i ij tb))) = base tb"
  using base_push [of i ij tb "fst (push i ij tb)"] by (metis prod.collapse)

lemma base_steal_ids: "base (fst (snd (snd (snd (steal_ids ids th ij tb))))) = base tb"
  by (induction ids arbitrary: th ij tb) (simp_all add: Let_def split_beta base_claim_local base_pushed)

lemma base_steal_into: "base (fst (snd (snd (snd (snd (steal_into v th ij tb)))))) = base tb"
  by (simp add: steal_into_def Let_def split_beta base_steal_ids)

lemma base_take_lifo: "base (snd (snd (take_lifo w tb))) = base tb"
  by (simp add: take_lifo_def Let_def split_beta base_claim_local)

section \<open>The pool\<close>

lemma fail_tasks_table [simp]: "pl_table (fold fail_task ids p) = pl_table p"
  by (induction ids arbitrary: p) (simp_all add: fail_task_def)

lemma pool_take_lifo_base: "base (pl_table (snd (pool_take_lifo k p))) = base (pl_table p)"
  by (simp add: pool_take_lifo_def Let_def split_beta base_take_lifo split: option.split)

lemma requeue_base: "base (pl_table (requeue i p)) = base (pl_table p)"
  by (simp add: requeue_def fail_task_def Let_def split_beta base_pushed)

lemma requeues_base: "base (pl_table (fold requeue ids p)) = base (pl_table p)"
  by (induction ids arbitrary: p) (simp_all add: requeue_base)

lemma put_tables [simp]:
  "pl_table (put_worker k w p) = pl_table p" "pl_table (put_sleep k s p) = pl_table p"
  "pl_table (on_worker_slot k f p) = pl_table p" "pl_table (on_sleep_slot k f p) = pl_table p"
  "pl_table (recovered p) = pl_table p" "pl_table (left p) = pl_table p" "pl_table (sleep_left p) = pl_table p"
  by (simp_all add: put_worker_def put_sleep_def on_worker_slot_def on_sleep_slot_def recovered_def left_def
      sleep_left_def)

lemma pool_recover_base: "pool_recover k p = Some p' \<Longrightarrow> base (pl_table p') = base (pl_table p)"
  by (auto simp: pool_recover_def Let_def split_beta requeues_base requeue_base pool_take_lifo_base
      elim!: bind_SomeE dest!: base_recover_worker split: if_split_asm option.split_asm)

lemma recover_sleep_table [simp]: "pl_table (recover_sleep k p) = pl_table p"
  by (simp add: recover_sleep_def Let_def split_beta fail_task_def)

lemma sweep_workers_base: "sweep_workers ks p = Some p' \<Longrightarrow> base (pl_table p') = base (pl_table p)"
  by (induction ks arbitrary: p) (auto elim!: bind_SomeE dest!: pool_recover_base split: if_split_asm)

lemma sweep_sleeps_table [simp]: "pl_table (sweep_sleeps ks p) = pl_table p"
  unfolding sweep_sleeps_def by (induction ks arbitrary: p) simp_all

lemma sweep_all_base: "sweep_all p = Some p' \<Longrightarrow> base (pl_table p') = base (pl_table p)"
  by (auto simp: sweep_all_def elim!: bind_SomeE dest!: sweep_workers_base)

lemma sweep_if_dead_base: "sweep_if_dead p = Some p' \<Longrightarrow> base (pl_table p') = base (pl_table p)"
  by (auto simp: sweep_if_dead_def dest: sweep_all_base split: if_split_asm)

lemma start_sleep_loop_table:
  fixes p :: "('t, 'v, 'f) pool"
  shows "pl_table (snd (start_sleep_loop mc limit index claimed p)) = pl_table p"
proof (induction "MAX_WORKERS - index" arbitrary: index claimed p rule: less_induct)
  case less
  have "index < MAX_WORKERS \<Longrightarrow> pl_table (snd (start_sleep_loop mc limit (Suc index) c q)) = pl_table q"
    for c and q :: "('t, 'v, 'f) pool"
    using less [of "Suc index"] by simp
  then show ?case by (subst start_sleep_loop.simps) (simp add: Let_def split_beta)
qed

lemma start_one_loop_table:
  fixes p :: "('t, 'v, 'f) pool"
  shows "pl_table (snd (start_one_loop mc limit index claimed p)) = pl_table p"
proof (induction "MAX_WORKERS - index" arbitrary: index claimed p rule: less_induct)
  case less
  have "index < MAX_WORKERS \<Longrightarrow> pl_table (snd (start_one_loop mc limit (Suc index) c q)) = pl_table q"
    for c and q :: "('t, 'v, 'f) pool"
    using less [of "Suc index"] by simp
  then show ?case by (subst start_one_loop.simps) (simp add: Let_def split_beta)
qed

lemma start_tables [simp]:
  "pl_table (snd (start_sleep mc limit p)) = pl_table p" "pl_table (snd (start_one mc start p)) = pl_table p"
  by (simp_all add: start_sleep_def start_one_def Let_def start_sleep_loop_table start_one_loop_table)

lemma floor_loop_table: "pl_table (floor_loop n mc p) = pl_table p"
  by (induction n arbitrary: p) (simp_all add: split_beta)

lemma ensure_floor_table [simp]: "pl_table (ensure_floor mc p) = pl_table p"
  by (simp add: ensure_floor_def floor_loop_table)

lemma wake_loops_table:
  "pl_table (snd (wake_workers ks p)) = pl_table p" "pl_table (snd (wake_sleeps ks p)) = pl_table p"
  by (induction ks) simp_all

lemma wake_table [simp]: "pl_table (snd (wake_one p)) = pl_table p" "pl_table (snd (wake_sleep p)) = pl_table p"
  by (simp_all add: wake_one_def wake_sleep_def wake_loops_table)

lemma submit_base: "submit mc i p = Some (ok, p') \<Longrightarrow> base (pl_table p') = base (pl_table p)"
  by (auto simp: submit_def Let_def split_beta base_pushed elim!: bind_SomeE dest!: sweep_if_dead_base
      split: if_split_asm)

lemma offload_base: "offload mc i p = Some (ok, p') \<Longrightarrow> base (pl_table p') = base (pl_table p)"
  by (auto simp: offload_def Let_def split_beta base_pushed elim!: bind_SomeE dest!: sweep_if_dead_base
      split: if_split_asm)

lemma submit_local_base: "submit_local mc k i p = Some (ok, p') \<Longrightarrow> base (pl_table p') = base (pl_table p)"
  by (auto simp: submit_local_def Let_def split_beta base_put live_slot_simps dest!: submit_base
      split: if_split_asm option.split_asm)

end
