(* ===== verification/Executor_Cells.thy ===== *)
theory Executor_Cells
  imports Executor_Facts Pool_Frame
begin

text \<open>
  The memory safety of outputs. A slot keeps its output in uninitialised bytes; reading them
  is sound when the state says \<open>Ready\<close>, and dropping them when \<open>filled\<close> says so. Every
  operation of the executor keeps both promises, whatever the user's code does through it.
\<close>

section \<open>The promise\<close>

definition cell_ok :: "('t, 'v, 'f) task_data \<Rightarrow> bool" where
  "cell_ok d \<longleftrightarrow> (td_state d = Ready \<longrightarrow> td_cell d \<noteq> None) \<and> (td_cell d \<noteq> None \<longrightarrow> td_filled d)"

definition cells_ok :: "('u, 'v, 'f) world \<Rightarrow> bool" where
  "cells_ok w \<longleftrightarrow> (\<forall>i. cell_ok (mem i w))"

lemma cells_mem: "cells_ok w \<Longrightarrow> cell_ok (mem i w)"
  by (simp add: cells_ok_def)

lemma cells_put: "cells_ok w \<Longrightarrow> cell_ok d \<Longrightarrow> cells_ok (put_task i d w)"
  by (simp add: cells_ok_def)

lemma cells_on: "cells_ok w \<Longrightarrow> (\<And>d. cell_ok d \<Longrightarrow> cell_ok (f d)) \<Longrightarrow> cells_ok (on_task i f w)"
  by (simp add: on_task_def cells_put cells_mem)

lemma cells_live: "cells_ok w \<Longrightarrow> live_task i w = Some d \<Longrightarrow> cell_ok d"
  by (auto simp: live_iff cells_mem)

lemma cells_fields [simp]:
  "cells_ok (w\<lparr>wd_changes := a\<rparr>) = cells_ok w" "cells_ok (w\<lparr>wd_woken := b\<rparr>) = cells_ok w"
  "cells_ok (w\<lparr>wd_calls := c\<rparr>) = cells_ok w" "cells_ok (w\<lparr>wd_dropped := e\<rparr>) = cells_ok w"
  "cells_ok (w\<lparr>wd_discarded := f\<rparr>) = cells_ok w" "cells_ok (w\<lparr>wd_mail := g\<rparr>) = cells_ok w"
  "cells_ok (w\<lparr>wd_current := h\<rparr>) = cells_ok w" "cells_ok (w\<lparr>wd_sequence := k\<rparr>) = cells_ok w"
  "cells_ok (w\<lparr>wd_mail := g, wd_discarded := f\<rparr>) = cells_ok w"
  "cells_ok (w\<lparr>wd_discarded := f, wd_calls := c\<rparr>) = cells_ok w"
  by (simp_all add: cells_ok_def)

text \<open>Operations of a slot that leave the state, the cell and its flag alone.\<close>

lemma cell_ok_same [simp]:
  "cell_ok (add_listener d) = cell_ok d" "cell_ok (snd (drop_listener d)) = cell_ok d"
  "cell_ok (snd (claim d)) = cell_ok d" "cell_ok (rearm t d) = cell_ok d"
  "cell_ok (arm d) = cell_ok d" "cell_ok (disarm d) = cell_ok d" "cell_ok (snd (claim_armed d)) = cell_ok d"
  "cell_ok (park a b c d) = cell_ok d" "cell_ok (snd (claim_parked d)) = cell_ok d"
  "cell_ok (snd (claim_release d)) = cell_ok d" "cell_ok (snd (untime_run d)) = cell_ok d"
  "cell_ok (finish_series d) = cell_ok d" "cell_ok (clear_start_delay d) = cell_ok d"
  "cell_ok (set_start_delay nanos d) = cell_ok d" "cell_ok (reset_series ck k u d) = cell_ok d"
  "cell_ok (snd (count_run d)) = cell_ok d" "cell_ok (set_waiting q d) = cell_ok d"
  "cell_ok (clear_waiting d) = cell_ok d" "cell_ok (snd (claim_waiting d)) = cell_ok d"
  "cell_ok (release_waiting d) = cell_ok d" "cell_ok (attach_extras ex d) = cell_ok d"
  "cell_ok (set_prototype p d) = cell_ok d" "cell_ok (put_gate g d) = cell_ok d"
  "cell_ok (put_receivers r d) = cell_ok d" "cell_ok (d\<lparr>td_extras := e\<rparr>) = cell_ok d"
  "cell_ok (snd (extras_or_attach d)) = cell_ok d" "cell_ok (d\<lparr>td_readers := n\<rparr>) = cell_ok d"
  "cell_ok (d\<lparr>td_run_deadline := word\<rparr>) = cell_ok d" "cell_ok (d\<lparr>td_parked := e1\<rparr>) = cell_ok d"
  "cell_ok (d\<lparr>td_armed := e2\<rparr>) = cell_ok d" "cell_ok (d\<lparr>td_task := t\<rparr>) = cell_ok d"
  "cell_ok (leave_read d) = cell_ok d" "cell_ok (snd (enter_read d)) = cell_ok d"
  by (simp_all add: cell_ok_def add_listener_def drop_listener_def claim_def rearm_def arm_def disarm_def
      claim_armed_def park_def claim_parked_def claim_release_def untime_run_def finish_series_def
      clear_start_delay_def set_start_delay_def reset_series_def count_run_def set_waiting_def clear_waiting_def
      claim_waiting_def release_waiting_def attach_extras_def set_prototype_def put_gate_def put_receivers_def
      extras_or_attach_def leave_read_def enter_read_def Let_def split_beta split: option.split)

text \<open>Operations that change one of them.\<close>

lemma cell_ok_state: "cell_ok d \<Longrightarrow> st \<noteq> Ready \<Longrightarrow> cell_ok (set_state st d)"
  by (simp add: cell_ok_def set_state_def)

lemma cell_ok_try: "cell_ok d \<Longrightarrow> b \<noteq> Ready \<Longrightarrow> cell_ok (snd (try_state a b d))"
  by (simp add: try_state_eq cell_ok_state)

lemma cell_ok_fill [simp]: "cell_ok (fill (d\<lparr>td_cell := Some v\<rparr>))"
  by (simp add: cell_ok_def fill_def)

lemma cell_ok_destroy [simp]: "cell_ok (snd (destroy d))"
  by (simp add: cell_ok_def destroy_def)

lemma cell_ok_recycle: "cell_ok d \<Longrightarrow> td_state d \<noteq> Ready \<Longrightarrow> cell_ok (snd (recycle d))"
  by (auto simp: cell_ok_def recycle_def Let_def)

lemma cell_ok_begin: "cell_ok d \<Longrightarrow> cell_ok (snd (snd (begin_run d)))"
  by (auto simp: begin_run_def try_state_eq cell_ok_state Let_def split_beta
      intro!: cell_ok_recycle) (simp_all add: set_state_def)

lemma cell_ok_claim: "cell_ok d \<Longrightarrow> cell_ok (snd (claim_result d))"
  by (auto simp: claim_result_def try_state_eq cell_ok_state)

lemma cell_ok_emptied [simp]: "td_state d \<noteq> Ready \<Longrightarrow> cell_ok ((empty d)\<lparr>td_cell := None\<rparr>)"
  by (simp add: cell_ok_def empty_def)

section \<open>Every operation keeps it\<close>

lemma cells_free [simp]: "cells_ok w \<Longrightarrow> cells_ok (on_table (free_id i) w)"
  by (auto simp: cells_ok_def cell_ok_def on_table_def free_id_def push_free_def put_slot_def set_next_def
      slot_def Let_def split: option.splits if_splits)

lemma cells_destroy: "cells_ok w \<Longrightarrow> cells_ok (snd (destroy_task i w))"
  by (simp add: destroy_task_def Let_def split_beta cells_put)

lemma cells_drops [simp]: "cells_ok w \<Longrightarrow> cells_ok (run_drops ds w)"
  using run_drops_closure [where R = "\<lambda>a b. cells_ok a \<longrightarrow> cells_ok b" and w = w and ds = ds]
  by (auto simp: cells_put cells_mem cells_destroy)

lemma cells_release [simp]: "cells_ok w \<Longrightarrow> cells_ok (release i w)"
  by (auto simp: release_def exec_drop_listener_def Let_def split_beta cells_put cells_live split: option.split)

lemma cells_listeners [simp]:
  "cells_ok w \<Longrightarrow> cells_ok (exec_add_listener i w)" "cells_ok w \<Longrightarrow> cells_ok (exec_drop_listener i w)"
  by (simp_all add: exec_add_listener_def exec_drop_listener_def cells_on)

lemma cells_kregister [simp]: "cells_ok (snd (kregister en kq a b c k w)) = cells_ok w"
  by (simp add: kregister_def Let_def)

lemma cells_manager [simp]: "cells_ok (snd (manager_change en a b c k w)) = cells_ok w"
  by (simp add: manager_change_def)

lemma cells_wake [simp]: "cells_ok (wake_listeners en i w) = cells_ok w"
  by (simp add: wake_listeners_def Let_def)

lemma cells_extras [simp]:
  "cells_ok w \<Longrightarrow> cells_ok (close_extras en i w)" "cells_ok w \<Longrightarrow> cells_ok (close_finished_series en i w)"
  "cells_ok w \<Longrightarrow> cells_ok (exec_note_output i w)" "cells_ok w \<Longrightarrow> cells_ok (forward_output en i w)"
  "cells_ok w \<Longrightarrow> cells_ok (exec_forward en i f w)" "cells_ok w \<Longrightarrow> cells_ok (hold_claims i claims w)"
proof -
  show c: "cells_ok w \<Longrightarrow> cells_ok (close_extras en i w)" for w
    by (simp add: close_extras_def far_calls_def Let_def split_beta cells_put cells_mem split: option.split)
  then show "cells_ok w \<Longrightarrow> cells_ok (close_finished_series en i w)" by (simp add: close_finished_series_def Let_def)
  show "cells_ok w \<Longrightarrow> cells_ok (exec_note_output i w)"
    by (simp add: exec_note_output_def cells_put cells_mem split: option.split)
  show "cells_ok w \<Longrightarrow> cells_ok (forward_output en i w)"
    by (simp add: forward_output_def far_calls_def Let_def split_beta cells_put cells_mem split: option.split)
  show "cells_ok w \<Longrightarrow> cells_ok (exec_forward en i f w)"
    by (auto simp: exec_forward_def far_calls_def Let_def split_beta cells_put cells_live split: option.split)
  show "cells_ok w \<Longrightarrow> cells_ok (hold_claims i claims w)"
    by (auto simp: hold_claims_def Let_def split_beta cells_put cells_live split: option.split)
qed

lemma cells_failed: "cells_ok w \<Longrightarrow> st \<noteq> Ready \<Longrightarrow> cells_ok (on_task i (set_state st) w)"
  by (simp add: cells_on cell_ok_state)

lemma cells_try: "cells_ok w \<Longrightarrow> b \<noteq> Ready \<Longrightarrow> cells_ok (put_task i (snd (try_state a b (mem i w))) w)"
  by (simp add: cells_put cell_ok_try cells_mem)

lemma cells_fail [simp]: "cells_ok w \<Longrightarrow> cells_ok (fail en i w)"
  by (auto simp: fail_def Let_def cells_failed split: option.split)

lemma cells_poll_result [simp]: "cells_ok w \<Longrightarrow> cells_ok (snd (poll_result i w))"
  by (auto simp: poll_result_def Let_def split_beta cells_put cells_live split: option.split)

lemma cells_poll_take [simp]: "cells_ok w \<Longrightarrow> cells_ok (snd (poll_take i w))"
  by (auto simp: poll_take_def claim_result_def try_state_eq Let_def split_beta cells_put cells_live set_state_def
      split: option.split)

lemma cells_timers [simp]:
  "cells_ok (snd (arm_timer en i n w)) = cells_ok w" "cells_ok (snd (schedule en i n w)) = cells_ok w"
  "cells_ok (unschedule en i w) = cells_ok w" "cells_ok (snd (arm_timeout en i m word w)) = cells_ok w"
  "cells_ok w \<Longrightarrow> cells_ok (snd (wait_for en i n w))" "cells_ok w \<Longrightarrow> cells_ok (snd (wait_out en i w))"
  "cells_ok w \<Longrightarrow> cells_ok (exec_untime_run en i w)"
proof -
  show a: "cells_ok (snd (arm_timer en i n w)) = cells_ok w" for n w by (simp add: arm_timer_def)
  show "cells_ok (snd (schedule en i n w)) = cells_ok w" "cells_ok (unschedule en i w) = cells_ok w"
      "cells_ok (snd (arm_timeout en i m word w)) = cells_ok w"
    by (simp_all add: schedule_def unschedule_def arm_timeout_def)
  show f: "cells_ok w \<Longrightarrow> cells_ok (snd (wait_for en i n w))" for n w
    by (auto simp: wait_for_def split_beta cells_on a)
  show "cells_ok w \<Longrightarrow> cells_ok (snd (wait_out en i w))" by (simp add: wait_out_def f)
  show "cells_ok w \<Longrightarrow> cells_ok (exec_untime_run en i w)"
    by (simp add: exec_untime_run_def Let_def split_beta cells_put cells_mem)
qed

lemma cells_time_run: "exec_time_run en i w = Some w' \<Longrightarrow> cells_ok w \<Longrightarrow> cells_ok w'"
  by (auto simp: exec_time_run_def time_run_def Let_def cells_put cells_mem elim!: bind_SomeE
      split: option.split_asm)

lemma cells_watch [simp]:
  "cells_ok (snd (watch_park en i pk w)) = cells_ok w" "cells_ok (unwatch_park en i parked fired w) = cells_ok w"
  by (auto simp: watch_park_def unwatch_park_def Let_def split_beta split: option.split)

lemma cells_take_down [simp]: "cells_ok w \<Longrightarrow> cells_ok (take_down en i w)"
  by (auto simp: take_down_def Let_def split_beta cells_put cells_try cells_mem split: option.split)

lemma cells_unpark [simp]: "cells_ok w \<Longrightarrow> cells_ok (unpark en i w)"
  by (auto simp: unpark_def Let_def split_beta cells_put cells_mem split: option.split)

lemma cells_park [simp]: "cells_ok w \<Longrightarrow> cells_ok (park_task en i t pk w)"
  by (simp add: park_task_def Let_def split_beta cells_on)

lemma cell_ok_unqueued: "unqueued d' = unqueued d \<Longrightarrow> cell_ok d' = cell_ok d"
  unfolding unqueued_def cell_ok_def by (cases d, cases d') simp

lemma cells_pool: "cells_ok w \<Longrightarrow> base (pl_table p) = base (wd_table w) \<Longrightarrow> cells_ok (w\<lparr>wd_pool := p\<rparr>)"
  using cell_ok_unqueued [OF base_slot] by (fastforce simp: cells_ok_def)

lemma cells_fails [simp]: "cells_ok w \<Longrightarrow> cells_ok (fold (fail en) ids w)"
  by (induction ids arbitrary: w) simp_all

lemma cells_with_pool:
  assumes "\<And>r p. f (wd_pool w) = Some (r, p) \<Longrightarrow> base (pl_table p) = base (wd_table w)"
    and "with_pool en f w = Some (r, w')" "cells_ok w"
  shows "cells_ok w'"
  using assms(2,3) by (auto simp: with_pool_def intro!: cells_fails cells_pool elim!: bind_SomeE dest: assms(1))

lemma cells_queue_task: "queue_task en i b w = Some (ok, w') \<Longrightarrow> cells_ok w \<Longrightarrow> cells_ok w'"
  by (auto simp: queue_task_def elim!: cells_with_pool [rotated] dest: submit_base offload_base split: if_split_asm)

lemma cells_queue_spawned: "queue_spawned en i b w = Some (ok, w') \<Longrightarrow> cells_ok w \<Longrightarrow> cells_ok w'"
  by (auto simp: queue_spawned_def elim!: cells_with_pool [rotated] dest: submit_local_base cells_queue_task
      split: if_split_asm option.split_asm)

lemma cells_wake_parked: "wake_parked en i fired w = Some w' \<Longrightarrow> cells_ok w \<Longrightarrow> cells_ok w'"
  by (auto simp: wake_parked_def claim_parked_def Let_def cells_put cells_live
      elim!: bind_SomeE dest!: cells_queue_task split: option.split_asm if_split_asm)

lemma cell_ok_init: "init ck mapped n a t Pending su sq = InitReady d \<Longrightarrow> cell_ok d"
  by (auto simp: init_def cell_ok_def set_priority_def Let_def split: if_split_asm)

lemma cells_alloc: "alloc g (wd_table w) = (got, tb) \<Longrightarrow> cells_ok w \<Longrightarrow> cells_ok (on_table (\<lambda>_. tb) w)"
  by (auto simp: alloc_def block_for_def cells_ok_def on_table_def Let_def split: option.split_asm if_split_asm)

lemma cells_take_slot: "take_slot en layout t su w = Some (got, w') \<Longrightarrow> cells_ok w \<Longrightarrow> cells_ok w'"
  by (auto simp: take_slot_def Let_def cells_put cell_ok_init dest!: cells_alloc
      split: option.split_asm if_split_asm prod.split_asm init_outcome.split_asm)

lemma cells_waited: "wait_for en i n w = (ok, w') \<Longrightarrow> cells_ok w \<Longrightarrow> cells_ok w'"
  using cells_timers(5) [of w en i n] by simp

lemma cells_create: "create en t su g w = Some (h, ok, w') \<Longrightarrow> cells_ok w \<Longrightarrow> cells_ok w'"
  unfolding create_def Let_def
  by (auto simp: cells_on cells_failed elim!: bind_SomeE dest!: cells_take_slot cells_queue_spawned cells_waited
      split: option.split_asm if_split_asm prod.split_asm)

lemma cells_launch: "launch en i w = Some (ok, w') \<Longrightarrow> cells_ok w \<Longrightarrow> cells_ok w'"
  by (auto simp: launch_def spawn_run_def elim!: bind_SomeE dest!: cells_create split: option.split_asm)

lemma cells_held [simp]: "cells_ok w \<Longrightarrow> cells_ok (exec_release_held i w)"
  by (auto simp: exec_release_held_def split_beta cells_on split: option.split)

lemma cells_finish_waiting [simp]: "cells_ok w \<Longrightarrow> cells_ok (finish_waiting en i w)"
  by (auto simp: finish_waiting_def Let_def split_beta cells_on cells_put cells_mem split: option.split)

lemma cells_let_go [simp]: "cells_ok w \<Longrightarrow> cells_ok (let_go_waiting en i w)"
  by (auto simp: let_go_waiting_def Let_def split_beta cells_on cells_put cells_mem cell_ok_try split: option.split)

lemma cells_ends [simp]:
  "cells_ok w \<Longrightarrow> cells_ok (abandon_task en i w)" "cells_ok w \<Longrightarrow> cells_ok (end_schedule_now en i w)"
  "cells_ok w \<Longrightarrow> cells_ok (snd (after_series en i w))" "cells_ok w \<Longrightarrow> cells_ok (reset_for_start i g w)"
  "cells_ok w \<Longrightarrow> cells_ok (start_failed en i w)"
  by (auto simp: abandon_task_def end_schedule_now_def after_series_def reset_for_start_def start_failed_def
      Let_def split_beta cells_on cells_failed split: option.split after_run.split)

lemma cells_launch_first: "launch_first en i w = Some (first, w') \<Longrightarrow> cells_ok w \<Longrightarrow> cells_ok w'"
  by (auto simp: launch_first_def Let_def cells_put cells_mem split_beta elim!: bind_SomeE dest!: cells_launch
      split: if_split_asm)

lemma cells_after_series: "after_series en i w = (again, w') \<Longrightarrow> cells_ok w \<Longrightarrow> cells_ok w'"
  using cells_ends(3) [of w en i] by simp

lemma cells_scheduled: "schedule en i n w = (ok, w') \<Longrightarrow> cells_ok w \<Longrightarrow> cells_ok w'"
  using cells_timers(2) [of en i n w] by simp

lemma cell_ok_tried: "try_state a b d = (ok, d') \<Longrightarrow> cell_ok d \<and> b \<noteq> Ready \<longrightarrow> cell_ok d'"
  using cell_ok_try [of d b a] by auto

lemma cell_ok_counted: "count_run d = (ok, d') \<Longrightarrow> cell_ok d' = cell_ok d"
  using cell_ok_same(16) [of d] by simp

lemma cells_waited_out: "wait_out en i w = (ok, w') \<Longrightarrow> cells_ok w \<Longrightarrow> cells_ok w'"
  unfolding wait_out_def by (rule cells_waited)

lemmas cells_dests =
  cells_waited_out
  cell_ok_tried cell_ok_counted
  cells_take_slot cells_queue_spawned cells_queue_task cells_waited cells_launch cells_launch_first cells_create
  cells_after_series cells_scheduled cells_time_run cells_wake_parked

lemma cells_start_waiting:
  assumes "start_waiting en i g w = Some x" "cells_ok w"
  shows "cells_ok (snd x)"
proof -
  have "cells_ok w \<longrightarrow> cells_ok (snd x)"
    using assms(1)
    by (rule start_waiting.raw_induct [where P = "\<lambda>en i g w x. cells_ok w \<longrightarrow> cells_ok (snd x)", rotated])
      (auto simp: Let_def elim!: bind_SomeE dest!: cells_dests
        split: if_split_asm first_run.split_asm prod.split_asm)
  with assms(2) show ?thesis by simp
qed

lemma cells_rewait_series: "rewait_series en i w = Some w' \<Longrightarrow> cells_ok w \<Longrightarrow> cells_ok w'"
  by (auto simp: rewait_series_def elim!: bind_SomeE dest!: cells_dests cells_start_waiting
      split: option.split_asm if_split_asm prod.split_asm)

lemma cells_rewait: "rewait en i t w = Some w' \<Longrightarrow> cells_ok w \<Longrightarrow> cells_ok w'"
  unfolding rewait_def by (erule cells_rewait_series) (simp add: cells_on)

lemma cells_start_series: "start_series en i w = Some (ok, w') \<Longrightarrow> cells_ok w \<Longrightarrow> cells_ok w'"
  by (auto simp: start_series_def elim!: bind_SomeE dest!: cells_dests cells_rewait_series
      split: first_run.split_asm if_split_asm)

lemma cells_end_schedule: "end_schedule en i w = Some w' \<Longrightarrow> cells_ok w \<Longrightarrow> cells_ok w'"
  by (auto simp: end_schedule_def Let_def dest!: cells_rewait_series split: if_split_asm)

lemma cells_series_tick: "series_tick en i w = Some w' \<Longrightarrow> cells_ok w \<Longrightarrow> cells_ok w'"
  unfolding series_tick_def Let_def
  by (auto simp: cells_on cells_put cells_mem cells_failed elim!: bind_SomeE dest!: cells_dests cells_end_schedule
      split: if_split_asm prod.split_asm)

lemma cells_create_series: "create_series en t su g w = Some (h, w') \<Longrightarrow> cells_ok w \<Longrightarrow> cells_ok w'"
  unfolding create_series_def Let_def
  by (auto simp: cells_on cells_put cells_mem elim!: bind_SomeE dest!: cells_dests cells_start_series
      split: option.split_asm if_split_asm prod.split_asm)

lemma cells_news:
  "new_task en u su w = Some (h, w') \<Longrightarrow> cells_ok w \<Longrightarrow> cells_ok w'"
  "new_series en u su w = Some (h, w') \<Longrightarrow> cells_ok w \<Longrightarrow> cells_ok w'"
  "new_waiting en u su w = Some (h, w') \<Longrightarrow> cells_ok w \<Longrightarrow> cells_ok w'"
  "new_waiting_series en u su w = Some (h, w') \<Longrightarrow> cells_ok w \<Longrightarrow> cells_ok w'"
  by (auto simp: new_task_def new_series_def new_waiting_def new_waiting_series_def split_beta elim!: bind_SomeE
      dest: cells_create cells_create_series)

lemma cells_give: "give en i v w = Some (answer, w') \<Longrightarrow> cells_ok w \<Longrightarrow> cells_ok w'"
  by (auto simp: give_def Let_def cells_on elim!: bind_SomeE dest!: cells_start_waiting
      split: option.split_asm if_split_asm prod.split_asm trigger.split_asm)

lemma cells_stops [simp]:
  "cells_ok w \<Longrightarrow> cells_ok (interrupt en i w)" "cells_ok w \<Longrightarrow> cells_ok (stopped_task en i w)"
  "cells_ok w \<Longrightarrow> st \<noteq> Ready \<Longrightarrow> cells_ok (stop_task en i st w)" "cells_ok w \<Longrightarrow> cells_ok (cancel en i w)"
proof -
  show i: "cells_ok w \<Longrightarrow> cells_ok (interrupt en i w)" for w
    by (auto simp: interrupt_def Let_def split_beta cells_on cells_put cells_mem split: option.split)
  then show s: "cells_ok w \<Longrightarrow> cells_ok (stopped_task en i w)" for w by (simp add: stopped_task_def Let_def)
  then show t: "cells_ok w \<Longrightarrow> st \<noteq> Ready \<Longrightarrow> cells_ok (stop_task en i st w)" for st w
    by (simp add: stop_task_def Let_def cells_failed)
  then show "cells_ok w \<Longrightarrow> cells_ok (cancel en i w)" by (simp add: cancel_def)
qed

lemma cells_timed_out [simp]: "cells_ok w \<Longrightarrow> cells_ok (timed_out en i word w)"
  unfolding timed_out_def Let_def claim_parked_def
  by (auto simp: cells_on cells_put cells_mem cell_ok_try split_beta split: option.split)

lemma cells_write_off [simp]: "cells_ok w \<Longrightarrow> cells_ok (write_off en i w)"
  by (auto simp: write_off_def Let_def split_beta cells_on cells_failed split: option.split)

lemma cells_fire: "fire en ident w = Some w' \<Longrightarrow> cells_ok w \<Longrightarrow> cells_ok w'"
  by (auto simp: fire_def claim_armed_def Let_def cells_put cells_live cells_failed elim!: bind_SomeE
      dest!: cells_dests cells_series_tick split: option.split_asm if_split_asm)

lemma cells_waits [simp]:
  "cells_ok w \<Longrightarrow> cells_ok (snd (waiting_on q w))" "cells_ok w \<Longrightarrow> cells_ok (snd (stopped_waiting w))"
  by (auto simp: waiting_on_def stopped_waiting_def Let_def cells_on split: option.split)

lemma cells_ready: "cells_ok w \<Longrightarrow> td_cell (mem i w) \<noteq> None \<Longrightarrow>
    cells_ok (put_task i (snd (try_state a Ready (mem i w))) w)"
  using cells_mem [of w i] by (intro cells_put) (auto simp: try_state_eq set_state_def cell_ok_def)

text \<open>An output written to a slot and then made ready, as a run and a publish both do.\<close>

lemma cells_output:
  assumes "cells_ok w" and w2: "w2 = exec_note_output i (on_task i (\<lambda>d. fill (d\<lparr>td_cell := Some v\<rparr>)) w)"
  shows "cells_ok w2" "cells_ok (put_task i (snd (try_state a Ready (mem i w2))) w2)"
proof -
  show c: "cells_ok w2" using assms(1) by (simp add: w2 cells_on)
  have "td_cell (mem i w2) = Some v" by (simp add: w2) (simp add: fill_def)
  then show "cells_ok (put_task i (snd (try_state a Ready (mem i w2))) w2)" by (intro cells_ready [OF c]) simp
qed

lemma cells_publish [simp]: "cells_ok w \<Longrightarrow> cells_ok (publish en i v w)"
proof (cases "live_task i w")
  case (Some d)
  assume w: "cells_ok w"
  from cell_ok_begin [OF cells_live [OF w Some]] have b: "cells_ok (put_task i (snd (snd (begin_run d))) w)"
    by (simp add: cells_put w)
  let ?w1 = "(put_task i (snd (snd (begin_run d))) w)
      \<lparr>wd_discarded := wd_discarded w @ (case fst (snd (begin_run d)) of None \<Rightarrow> [] | Some x \<Rightarrow> [x])\<rparr>"
  have "cells_ok ?w1" using b by simp
  from b Some cells_output(2) [OF this refl, of i Running v] show ?thesis by (simp add: publish_def Let_def split_beta)
qed (simp add: publish_def)

text \<open>What the promise asks of the user's code is what the runtime's interface already gives.\<close>

definition keeps_cells :: "('u, 'v, 'f) code \<Rightarrow> bool" where
  "keeps_cells code \<longleftrightarrow> (\<forall>i resumed input u w. cells_ok w \<longrightarrow> cells_ok (snd (code i resumed input u w)))"

lemma cells_run: "keeps_cells code \<Longrightarrow> cells_ok w \<Longrightarrow> cells_ok (snd (erased_run en code owner i resumed t w))"
proof (induction en code owner i resumed t w rule: erased_run.induct)
  case (1 en code owner i resumed u w)
  then show ?case by (simp add: keeps_cells_def split_beta)
next
  case (2 en code owner i resumed u w)
  then show ?case by (auto simp: keeps_cells_def Let_def split_beta cells_on split: option.split)
next
  case (3 en code owner i resumed s t w)
  then show ?case by (auto simp: split_beta split: stepped.split step.split)
qed

lemma cells_run_ended [simp]: "cells_ok w \<Longrightarrow> cells_ok (run_ended en i t w)"
  by (simp add: run_ended_def)

lemma cells_after_output: "after_output en i t w = Some w' \<Longrightarrow> cells_ok w \<Longrightarrow> cells_ok w'"
  unfolding after_output_def Let_def
  by (auto simp: cells_on cells_put cells_mem elim!: bind_SomeE dest!: cells_dests cells_rewait
      split: if_split_asm prod.split_asm)

lemma cells_outcome: "run_outcome en i st w = Some (died, w') \<Longrightarrow> cells_ok w \<Longrightarrow> cells_ok w'"
proof (cases st)
  case (Stepped s t)
  assume r: "run_outcome en i st w = Some (died, w')" and w: "cells_ok w"
  show ?thesis
  proof (cases s)
    case (Done v)
    have "cells_ok (exec_untime_run en i w)" using w by simp
    note out = cells_output(2) [OF this refl, of i Running v]
    from r Stepped Done out show ?thesis
      by (auto simp: run_outcome_def Let_def split_beta elim!: bind_SomeE dest!: cells_after_output split: if_split_asm)
  qed (use r w Stepped in \<open>auto simp: run_outcome_def\<close>)
qed (auto simp: run_outcome_def Let_def split_beta cells_try)

lemma cells_run_task:
  assumes r: "run_task en code i w = Some (died, w')" and code: "keeps_cells code" and w: "cells_ok w"
  shows "cells_ok w'"
proof -
  note run = cells_run [OF code]
  have "cell_ok (snd (snd (begin_run (snd (claim d)))))" if "live_task i w = Some d" for d
    using cell_ok_begin [of "snd (claim d)"] cells_live [OF w that] by simp
  with r w show ?thesis
    unfolding run_task_def
    by (auto simp: Let_def cells_on cells_put cells_live split_beta run elim!: bind_SomeE dest!: cells_outcome cells_time_run
        split: option.split_asm if_split_asm)
qed

lemma cells_handles [simp]:
  "cells_ok w \<Longrightarrow> cells_ok (handle_cloned gives i w)" "cells_ok w \<Longrightarrow> cells_ok (handle_dropped en gives i w)"
  by (auto simp: handle_cloned_def handle_dropped_def giver_dropped_def Let_def split_beta cells_on split: option.split)

section \<open>Any sequence of operations\<close>

text \<open>One operation of the executor, by whichever thread.\<close>

inductive exec_step :: "('u, 'v, 'f) env \<Rightarrow> ('u, 'v, 'f) code \<Rightarrow> ('u, 'v, 'f) world \<Rightarrow> ('u, 'v, 'f) world \<Rightarrow> bool"
  for en code where
  spawned: "new_task en u su w = Some (h, w') \<Longrightarrow> exec_step en code w w'"
| scheduled: "new_series en u su w = Some (h, w') \<Longrightarrow> exec_step en code w w'"
| waited: "new_waiting en u su w = Some (h, w') \<Longrightarrow> exec_step en code w w'"
| waited_series: "new_waiting_series en u su w = Some (h, w') \<Longrightarrow> exec_step en code w w'"
| given: "give en i v w = Some (answer, w') \<Longrightarrow> exec_step en code w w'"
| ran: "run_task en code i w = Some (died, w') \<Longrightarrow> exec_step en code w w'"
| read: "poll_result i w = (answer, w') \<Longrightarrow> exec_step en code w w'"
| took: "poll_take i w = (answer, w') \<Longrightarrow> exec_step en code w w'"
| forwarded: "exec_step en code w (exec_forward en i f w)"
| holding: "exec_step en code w (hold_claims i claims w)"
| cancelling: "exec_step en code w (cancel en i w)"
| timed: "exec_step en code w (timed_out en i word w)"
| fired: "fire en ident w = Some w' \<Longrightarrow> exec_step en code w w'"
| woken: "wake_parked en i how w = Some w' \<Longrightarrow> exec_step en code w w'"
| failed: "exec_step en code w (fail en i w)"
| written_off: "exec_step en code w (write_off en i w)"
| cloned: "exec_step en code w (handle_cloned gives i w)"
| dropped: "exec_step en code w (handle_dropped en gives i w)"
| waiting: "exec_step en code w (snd (waiting_on q w))"
| stopped: "exec_step en code w (snd (stopped_waiting w))"
| elsewhere: "exec_step en code w (w\<lparr>wd_clock := ck, wd_current := c, wd_worker := k, wd_manager := m, wd_ready := r\<rparr>)"

lemma cells_step: "exec_step en code w w' \<Longrightarrow> keeps_cells code \<Longrightarrow> cells_ok w \<Longrightarrow> cells_ok w'"
proof (induction rule: exec_step.induct)
  case (read i w answer w')
  then show ?case using cells_poll_result [of w i] by simp
next
  case (took i w answer w')
  then show ?case using cells_poll_take [of w i] by simp
next
  case (elsewhere w ck c k m r)
  then show ?case by (simp add: cells_ok_def)
qed (auto dest: cells_news cells_give cells_run_task cells_fire cells_wake_parked)

lemma cells_steps: "(exec_step en code)\<^sup>*\<^sup>* w w' \<Longrightarrow> keeps_cells code \<Longrightarrow> cells_ok w \<Longrightarrow> cells_ok w'"
  by (induction rule: rtranclp_induct) (auto dest: cells_step)

lemma cells_new: "cells_ok (world_new ck)"
  by (simp add: cells_ok_def cell_ok_def world_new_def pool_new_def table_new_def zero_slot_def)



end
