(* ===== verification/Executor_Ends.thy ===== *)
theory Executor_Ends
  imports Executor_Facts
begin

text \<open>
  Ending a task early: what a cancel does to a task wherever it is, that the stop stands,
  and what a parked task that is taken down leaves behind.
\<close>

section \<open>Stopping\<close>

definition stoppable :: "('t, 'v, 'f) task_data \<Rightarrow> bool" where
  "stoppable d \<longleftrightarrow> \<not> over (td_state d) \<and> (td_state d = Taken \<longrightarrow> repeats (kind d))"

lemma cancel_cases:
  assumes "live_task i w = Some d"
  shows "cancel en i w =
    (if stoppable d then stopped_task en i (on_task i (set_state Cancelled) w) else w)"
proof -
  have "d = mem i w" "td_state (mem i w) \<noteq> Free" using assms by (simp_all add: live_iff)
  then show ?thesis using assms by (auto simp: cancel_def stop_task_def stoppable_def over_def Let_def)
qed

lemma put_calls [simp]: "wd_calls (put_task i d w) = wd_calls w" "wd_calls (on_task i f w) = wd_calls w"
  by (simp_all add: on_task_def put_task_def on_table_def)

lemma interrupt_slot:
  "td_state (mem j (interrupt en i w)) = td_state (mem j w)" "td_cell (mem j (interrupt en i w)) = td_cell (mem j w)"
  "td_filled (mem j (interrupt en i w)) = td_filled (mem j w)" "td_held (mem j (interrupt en i w)) = td_held (mem j w)"
  "td_parked (mem j (interrupt en i w)) = td_parked (mem j w)" "td_kind (mem j (interrupt en i w)) = td_kind (mem j w)"
  "td_listeners (mem j (interrupt en i w)) = td_listeners (mem j w)" "td_task (mem j (interrupt en i w)) = td_task (mem j w)"
  "td_extras (mem j (interrupt en i w)) = td_extras (mem j w)" "td_waiting (mem i (interrupt en i w)) < 0"
  "slot_ok j (wd_table (interrupt en i w)) = slot_ok j (wd_table w)" "wd_woken (interrupt en i w) = wd_woken w"
  "wd_calls (interrupt en i w) = wd_calls w"
  by (auto simp: interrupt_def claim_waiting_def release_waiting_def atomically_def kregister_world
      NOT_WAITING_def CANCELLING_def Let_def split: option.split)

lemma unpark_not: "\<not> td_parked (mem i w) \<Longrightarrow> unpark en i w = w"
  by (simp add: unpark_def claim_parked_def)

lemma stopped_plain:
  assumes "\<not> td_parked (mem i w)" "\<not> takes_input (mem i w)"
  shows "stopped_task en i w = interrupt en i (wake_listeners en i w)"
proof -
  have "takes_input (mem i (interrupt en i (wake_listeners en i w))) = takes_input (mem i w)"
    by (simp add: takes_input_def interrupt_slot)
  then show ?thesis using assms by (simp add: stopped_task_def unpark_not interrupt_slot)
qed

lemma take_down_bare:
  assumes "slot_ok i (wd_table w)" "td_state (mem i w) = Cancelled" "td_task (mem i w) = Some (Bare u)"
    "td_held (mem i w)" "td_listeners (mem i w) \<noteq> 1"
  shows "take_down en i w =
    put_task i ((mem i w)\<lparr>td_task := None, td_held := False, td_listeners := td_listeners (mem i w) - 1\<rparr>)
      (w\<lparr>wd_dropped := wd_dropped w @ [u]\<rparr>)"
proof -
  let ?d = "(mem i w)\<lparr>td_task := None\<rparr>"
  let ?w = "put_task i ?d (w\<lparr>wd_dropped := wd_dropped w @ [u]\<rparr>)"
  have "live_task i ?w = Some ?d" using assms by (simp add: live_iff)
  from release_kept [OF this] assms
  have "release i ?w = put_task i (?d\<lparr>td_held := False, td_listeners := td_listeners (mem i w) - 1\<rparr>)
      (w\<lparr>wd_dropped := wd_dropped w @ [u]\<rparr>)" by simp
  moreover have "(put_task i ?d w)\<lparr>wd_dropped := wd_dropped (put_task i ?d w) @ [u]\<rparr> = ?w"
    by (simp add: put_task_def on_table_def)
  ultimately show ?thesis using assms by (simp add: take_down_def claim_def try_state_eq Let_def)
qed

lemma unwatch_world:
  "wd_pool (unwatch_park en i parked fired w) = wd_pool w" "wd_calls (unwatch_park en i parked fired w) = wd_calls w"
  "wd_woken (unwatch_park en i parked fired w) = wd_woken w"
  by (simp_all add: unwatch_park_def split_beta manager_change_world)

section \<open>The properties\<close>



text \<open>
  C38: a parked task that is cancelled ends without its extras being closed: the task is
  dropped, its state is cancelled and the executor lets go, but the gate and the
  registrations of whatever its outputs go to stay as they were and no far end is told.
\<close>
theorem parked_cancel_tells_nobody:
  assumes "live_task i w = Some d" "td_parked d" "td_state d = Running" "\<not> takes_input d"
    and "td_task d = Some (Bare u)" "td_held d" "td_listeners d \<noteq> 1"
  shows "td_state (mem i (cancel en i w)) = Cancelled \<and> td_task (mem i (cancel en i w)) = None \<and>
    \<not> td_held (mem i (cancel en i w)) \<and> td_extras (mem i (cancel en i w)) = td_extras d \<and>
    wd_calls (cancel en i w) = wd_calls w"
proof -
  have d: "d = mem i w" "slot_ok i (wd_table w)" using assms(1) by (simp_all add: live_iff)
  let ?w = "interrupt en i (wake_listeners en i (on_task i (set_state Cancelled) w))"
  have c: "cancel en i w = stopped_task en i (on_task i (set_state Cancelled) w)"
    using cancel_cases [OF assms(1), of en] assms(3) by (simp add: stoppable_def over_def)
  obtain got where g: "claim_parked (mem i ?w) = (Some got, (mem i ?w)\<lparr>td_parked := False\<rparr>)"
    using assms(2) d by (simp add: claim_parked_def interrupt_slot set_state_def)
  let ?v = "unwatch_park en i got FiredNeither (put_task i ((mem i ?w)\<lparr>td_parked := False\<rparr>) ?w)"
  have "slot_ok i (wd_table ?v)" "td_state (mem i ?v) = Cancelled" "td_task (mem i ?v) = Some (Bare u)"
      "td_held (mem i ?v)" "td_listeners (mem i ?v) \<noteq> 1"
    using assms d by (simp_all add: unwatch_world interrupt_slot set_state_def)
  from take_down_bare [OF this, of en] g
  have u: "unpark en i ?w = put_task i ((mem i ?v)\<lparr>td_task := None, td_held := False,
      td_listeners := td_listeners (mem i ?v) - 1\<rparr>) (?v\<lparr>wd_dropped := wd_dropped ?v @ [u]\<rparr>)"
    by (simp add: unpark_def)
  have "takes_input (mem i (unpark en i ?w)) = takes_input d"
    using d by (simp add: u takes_input_def unwatch_world interrupt_slot set_state_def)
  with c assms(4) have "cancel en i w = unpark en i ?w" by (simp add: stopped_task_def)
  with u show ?thesis using d by (simp add: unwatch_world interrupt_slot set_state_def)
qed

theorem parked_cancel_tells_nobody_witness:
  "td_extras (mem 0 (cancel demo_env 0 (demo (demo_slot\<lparr>td_state := Running, td_parked := True,
      td_extras := Some (extras_new None)\<rparr>)))) = Some (extras_new None)"
  using parked_cancel_tells_nobody [of 0 "demo (demo_slot\<lparr>td_state := Running, td_parked := True,
      td_extras := Some (extras_new None)\<rparr>)" "demo_slot\<lparr>td_state := Running, td_parked := True,
      td_extras := Some (extras_new None)\<rparr>" 5 demo_env]
  by (simp add: demo_slot_def zero_slot_def takes_input_def)

end
