(* ===== verification/Manager.thy ===== *)
theory Manager
  imports Executor_Ends
begin

text \<open>
  The thread that drives the executor, in \<open>src/executor.rs\<close>: \<open>executor_loop\<close> and what it
  does with each event, \<open>supervise\<close>, the recovery after a manager's death, giving up, and
  the runtime's start and shutdown; and \<open>src/runtime.rs\<close> around them.

  A thread that waits lets the others act. What they did while it waited for the \<open>n\<close>th time
  is an argument: a function of the world, with what the kernel answered where it matters.
  \<open>None\<close> is a call that never returns.
\<close>

section \<open>Faults a test can ask for\<close>

definition injected_fault :: "('u, 'v, 'f) world \<Rightarrow> bool \<times> ('u, 'v, 'f) world" where
  "injected_fault w =
     (let (ok, n) = fetch_update (\<lambda>n. if n = 0 then None else Some (n - 1)) (wd_faults w)
      in (ok, w\<lparr>wd_faults := n\<rparr>))"

section \<open>Events\<close>

definition handle_event :: "('u, 'v, 'f) env \<Rightarrow> kevent \<Rightarrow> ('u, 'v, 'f) world \<Rightarrow> ('u, 'v, 'f) world option" where
  "handle_event en ev w =
     (if ke_flags ev AND EV_ERROR \<noteq> 0 then Some w
      else if ke_filter ev \<in> {EVFILT_READ, EVFILT_WRITE, EVFILT_SIGNAL, EVFILT_VNODE}
      then wake_parked en (ke_udata ev) FiredEvent w
      else if ke_filter ev = EVFILT_TIMER then
        (if ke_ident ev = MANAGER_TICK_IDENT then Some w
         else if ke_ident ev \<ge> TIMEOUT_IDENT_BASE
         then Some (timed_out en (ke_ident ev - TIMEOUT_IDENT_BASE) (of_nat (ke_udata ev)) w)
         else if ke_udata ev = PARK_TIMER then
           (if ke_ident ev < SCHEDULE_IDENT_BASE then Some w
            else wake_parked en (ke_ident ev - SCHEDULE_IDENT_BASE) FiredDeadline w)
         else fire en (ke_ident ev) w)
      else Some w)"

fun handle_events :: "('u, 'v, 'f) env \<Rightarrow> kevent list \<Rightarrow> ('u, 'v, 'f) world \<Rightarrow> ('u, 'v, 'f) world option" where
  "handle_events en [] w = Some w"
| "handle_events en (ev # evs) w = do { w1 \<leftarrow> handle_event en ev w; handle_events en evs w1 }"

text \<open>One turn of the manager: round again, stopped, no more events, or an injected panic.\<close>

datatype turn = Round | Stopped | Broken | Fell

definition manager_turn ::
  "('u, 'v, 'f) env \<Rightarrow> kevent list res \<Rightarrow> (('u, 'v, 'f) world \<Rightarrow> ('u, 'v, 'f) world) \<Rightarrow> ('u, 'v, 'f) world
    \<Rightarrow> (turn \<times> ('u, 'v, 'f) world) option" where
  "manager_turn en listened others w =
     (if shutting_down w then Some (Stopped, w)
      else do {
        (_, w1) \<leftarrow> with_pool en (\<lambda>p. map_option (\<lambda>p. ((), p)) (pool_tick (machine_of en w) (wd_sequence w) p)) w;
        let w2 = others w1;
        case listened of
          Inl e \<Rightarrow> Some (if e = CheckError (Some EINTR) then Round else Broken, w2)
        | Inr events \<Rightarrow>
            if shutting_down w2 then Some (Stopped, w2)
            else
              (let (fault, w3) = injected_fault w2 in
               if fault then Some (Fell, w3)
               else do { w4 \<leftarrow> handle_events en events w3; Some (Round, w4) })
      })"

partial_function (option) manager_rounds ::
  "('u, 'v, 'f) env \<Rightarrow> (nat \<Rightarrow> kevent list res) \<Rightarrow> (nat \<Rightarrow> ('u, 'v, 'f) world \<Rightarrow> ('u, 'v, 'f) world)
    \<Rightarrow> nat \<Rightarrow> ('u, 'v, 'f) world \<Rightarrow> (turn \<times> ('u, 'v, 'f) world) option" where
  [code]: "manager_rounds en listened others n w = do {
     (t, w1) \<leftarrow> manager_turn en (listened n) (others n) w;
     if t = Round then manager_rounds en listened others (n + 1) w1 else Some (t, w1)
   }"

section \<open>Recovery, and giving up\<close>

definition high_water :: "('t, 'v, 'f) table \<Rightarrow> nat" where
  "high_water tb = tb_next_id tb"

definition recover_wait :: "('u, 'v, 'f) env \<Rightarrow> nat \<Rightarrow> ('u, 'v, 'f) world \<Rightarrow> ('u, 'v, 'f) world option" where
  "recover_wait en i w =
     (case live_task i w of
        None \<Rightarrow> Some w
      | Some d \<Rightarrow>
          (let w1 = (case run_deadline_at (wd_clock w) d of
                       None \<Rightarrow> w
                     | Some deadline \<Rightarrow>
                         snd (arm_timeout en i (deadline - ck_now (wd_clock w)) (td_run_deadline d) w));
               (got, d1) = claim_parked (mem i w1);
               w2 = put_task i d1 w1
           in case got of
                Some parked \<Rightarrow> do {
                  let w3 = unwatch_park en i parked FiredNeither w2;
                  (ok, w4) \<leftarrow> queue_task en i (td_blocking (mem i w3)) w3;
                  Some (if ok then w4 else take_down en i w4)
                }
              | None \<Rightarrow>
                  if \<not> td_armed (mem i w2) then Some w2
                  else
                    (let owed = (if td_start_delay (mem i w2) = 0 then td_interval (mem i w2)
                                 else td_start_delay (mem i w2))
                     in Some (snd (arm_timer en i owed w2)))))"

fun recover_each :: "('u, 'v, 'f) env \<Rightarrow> nat list \<Rightarrow> ('u, 'v, 'f) world \<Rightarrow> ('u, 'v, 'f) world option" where
  "recover_each en [] w = Some w"
| "recover_each en (i # is) w = do { w1 \<leftarrow> recover_wait en i w; recover_each en is w1 }"

definition recover_waits :: "('u, 'v, 'f) env \<Rightarrow> ('u, 'v, 'f) world \<Rightarrow> ('u, 'v, 'f) world option" where
  "recover_waits en w = recover_each en [0..<high_water (wd_table w)] w"

definition executor_loop ::
  "('u, 'v, 'f) env \<Rightarrow> int \<Rightarrow> (nat \<Rightarrow> kevent list res) \<Rightarrow> (nat \<Rightarrow> ('u, 'v, 'f) world \<Rightarrow> ('u, 'v, 'f) world)
    \<Rightarrow> ('u, 'v, 'f) world \<Rightarrow> (turn \<times> ('u, 'v, 'f) world) option" where
  "executor_loop en queue listened others w =
     (let (armed, w1) = kregister en queue MANAGER_TICK_IDENT (int MANAGER_TICK) 0 NewInterval w in
      if \<not> armed then Some (Broken, w1)
      else do { w2 \<leftarrow> recover_waits en w1; manager_rounds en listened others 0 w2 })"

text \<open>The end the three walks over the table share: an unsettled task fails, and is let go.\<close>

definition settle_slot :: "('u, 'v, 'f) env \<Rightarrow> nat \<Rightarrow> ('u, 'v, 'f) world \<Rightarrow> ('u, 'v, 'f) world" where
  "settle_slot en i w =
     (let w1 = (if \<not> terminal (td_state (mem i w))
                then wake_listeners en i (on_task i (set_state Failed) w) else w)
      in release i (close_extras en i w1))"

definition orphan :: "('u, 'v, 'f) env \<Rightarrow> nat \<Rightarrow> ('u, 'v, 'f) world \<Rightarrow> ('u, 'v, 'f) world" where
  "orphan en i w =
     (case live_task i w of
        None \<Rightarrow> w
      | Some d \<Rightarrow>
          if td_parked d then unpark en i w
          else if \<not> kind_waits (kind d) \<and> \<not> schedules (kind d) \<and> \<not> td_armed d then w
          else if td_state d = Running \<and> \<not> schedules (kind d) then w
          else settle_slot en i w)"

definition orphaned :: "('u, 'v, 'f) env \<Rightarrow> ('u, 'v, 'f) world \<Rightarrow> ('u, 'v, 'f) world" where
  "orphaned en w = fold (orphan en) [0..<high_water (wd_table w)] w"

definition fail_drained :: "('u, 'v, 'f) env \<Rightarrow> ('u, 'v, 'f) world \<Rightarrow> ('u, 'v, 'f) world option" where
  "fail_drained en w = do {
     (ids, ij, tb) \<leftarrow> drain (pl_injector (wd_pool w)) (wd_table w);
     (blocking, ij1, tb1) \<leftarrow> drain (pl_blocking (wd_pool w)) tb;
     Some (fold (fail en) (ids @ blocking)
       (w\<lparr>wd_pool := (wd_pool w)\<lparr>pl_injector := ij, pl_blocking := ij1, pl_table := tb1\<rparr>\<rparr>))
   }"

definition write_off_slot :: "('u, 'v, 'f) env \<Rightarrow> nat \<Rightarrow> ('u, 'v, 'f) world \<Rightarrow> ('u, 'v, 'f) world" where
  "write_off_slot en i w =
     (case live_task i w of
        None \<Rightarrow> w
      | Some d \<Rightarrow> if td_state d = Running \<and> \<not> schedules (kind d) then w else settle_slot en i w)"

definition write_off_pool :: "('u, 'v, 'f) env \<Rightarrow> ('u, 'v, 'f) world \<Rightarrow> ('u, 'v, 'f) world option" where
  "write_off_pool en w = do {
     (_, w1) \<leftarrow> with_pool en (\<lambda>p. map_option (\<lambda>p. ((), p)) (abandon p)) (w\<lparr>wd_pool := pool_close (wd_pool w)\<rparr>);
     w2 \<leftarrow> fail_drained en w1;
     Some (fold (write_off_slot en) [0..<high_water (wd_table w2)] w2)
   }"

text \<open>\<open>shutdown\<close>, the manager's own: the pool carries on without it if it can.\<close>

definition give_up :: "('u, 'v, 'f) env \<Rightarrow> ('u, 'v, 'f) world \<Rightarrow> ('u, 'v, 'f) world option" where
  "give_up en w = do {
     (_, w1) \<leftarrow> with_pool en (\<lambda>p. map_option (\<lambda>p. ((), p)) (sweep_all p)) (orphaned en (w\<lparr>wd_manager := DEAD_KQUEUE_ID\<rparr>));
     let w2 = w1\<lparr>wd_pool := ensure_floor (machine_of en w1) (wd_pool w1)\<rparr>;
     if pl_live (wd_pool w2) > 0 then Some w2 else write_off_pool en w2
   }"

text \<open>
  \<open>run n w\<close> is the \<open>n\<close>th manager thread from its start to its end, with how long it lasted.
  The result also counts the managers that were started.
\<close>

datatype supervised = ClosedQueue | GaveUp

partial_function (option) supervise ::
  "('u, 'v, 'f) env \<Rightarrow> (nat \<Rightarrow> ('u, 'v, 'f) world \<Rightarrow> (nat \<times> ('u, 'v, 'f) world) option) \<Rightarrow> nat \<Rightarrow> nat
    \<Rightarrow> ('u, 'v, 'f) world \<Rightarrow> (supervised \<times> nat \<times> ('u, 'v, 'f) world) option" where
  [code]: "supervise en run n failures w = do {
     (elapsed, w1) \<leftarrow> run n w;
     if shutting_down w1 then Some (ClosedQueue, n + 1, w1)
     else
       (let failures1 = (if elapsed \<ge> RESTART_WINDOW then 0 else failures) + 1 in
        if failures1 > RESTART_LIMIT then do { w2 \<leftarrow> give_up en w1; Some (GaveUp, n + 1, w2) }
        else supervise en run (n + 1) failures1 w1)
   }"

end
