(* ===== verification/Lifecycle.thy ===== *)
theory Lifecycle
  imports Manager
begin

text \<open>
  Starting and stopping: \<open>shutdown_now\<close> and \<open>Executor::init\<close> of \<open>src/executor.rs\<close>, the
  start, the status and the reactor's supervision of \<open>src/runtime.rs\<close>, the loop of
  \<open>src/reactor.rs\<close> and \<open>src/modules/runtime_status.rs\<close>.

  \<open>others n\<close> is what the other threads do while this one sleeps for the \<open>n\<close>th time.
\<close>

section \<open>Shutting down\<close>

type_synonym ('u, 'v, 'f) others = "nat \<Rightarrow> ('u, 'v, 'f) world \<Rightarrow> ('u, 'v, 'f) world"

partial_function (option) while_stopping ::
  "('u, 'v, 'f) others \<Rightarrow> nat \<Rightarrow> ('u, 'v, 'f) world \<Rightarrow> (nat \<times> ('u, 'v, 'f) world) option" where
  [code]: "while_stopping others n w =
     (if wd_lifecycle w = STOPPING then while_stopping others (n + 1) (others n w) else Some (n, w))"

text \<open>Whether this call is the one that stops the runtime.\<close>

partial_function (option) enter_shutdown ::
  "('u, 'v, 'f) others \<Rightarrow> nat \<Rightarrow> ('u, 'v, 'f) world \<Rightarrow> (bool \<times> nat \<times> ('u, 'v, 'f) world) option" where
  [code]: "enter_shutdown others n w =
     (case wd_lifecycle w of
        LIVE \<Rightarrow> Some (True, n, w\<lparr>wd_lifecycle := STOPPING\<rparr>)
      | STOPPED \<Rightarrow> Some (False, n, w)
      | STOPPING \<Rightarrow> do { (n1, w1) \<leftarrow> while_stopping others n w; Some (False, n1, w1) }
      | STARTING \<Rightarrow> enter_shutdown others (n + 1) (others n w))"

partial_function (option) drain_tasks ::
  "machine \<Rightarrow> ('u, 'v, 'f) others \<Rightarrow> nat \<Rightarrow> ('u, 'v, 'f) world \<Rightarrow> (nat \<times> ('u, 'v, 'f) world) option" where
  [code]: "drain_tasks mc others n w =
     (if has_any_task (stats mc (wd_pool w)) then drain_tasks mc others (n + 1) (others n w) else Some (n, w))"

partial_function (option) stop_threads ::
  "('u, 'v, 'f) env \<Rightarrow> ('u, 'v, 'f) others \<Rightarrow> nat \<Rightarrow> ('u, 'v, 'f) world \<Rightarrow> (nat \<times> ('u, 'v, 'f) world) option" where
  [code]: "stop_threads en others n w = do {
     (_, w1) \<leftarrow> with_pool en (\<lambda>p. map_option (\<lambda>p. ((), p)) (abandon p)) (w\<lparr>wd_pool := stop_all (wd_pool w)\<rparr>);
     if pl_live (wd_pool w1) = 0 \<and> pl_sleeps_live (wd_pool w1) = 0 then Some (n, w1)
     else stop_threads en others (n + 1) (others n w1)
   }"

definition stop_held :: "('u, 'v, 'f) env \<Rightarrow> nat \<Rightarrow> ('u, 'v, 'f) world \<Rightarrow> ('u, 'v, 'f) world" where
  "stop_held en i w =
     (case live_task i w of
        None \<Rightarrow> w
      | Some d \<Rightarrow>
          (let w1 = on_task i disarm w in
           if td_parked d then unpark en i w1
           else if td_state d = Running \<and> \<not> schedules (kind d) then w1
           else settle_slot en i w1))"

definition shutdown_now ::
  "('u, 'v, 'f) env \<Rightarrow> ('u, 'v, 'f) others \<Rightarrow> ('u, 'v, 'f) world \<Rightarrow> ('u, 'v, 'f) world option" where
  "shutdown_now en others w = do {
     (mine, n, w1) \<leftarrow> enter_shutdown others 0 w;
     if \<not> mine then Some w1
     else do {
       let manager = wd_manager w1;
       let w2 = w1\<lparr>wd_pool := pool_close (wd_pool w1), wd_manager := DEAD_KQUEUE_ID\<rparr>;
       let w3 = (if manager \<noteq> DEAD_KQUEUE_ID then snd (kregister en manager WAKE_IDENT 0 0 NewUserTrigger w2) else w2);
       (n1, w4) \<leftarrow> drain_tasks (en_machine en) others (n + 1) (others n w3);
       (n2, w5) \<leftarrow> stop_threads en others n1 w4;
       w6 \<leftarrow> fail_drained en w5;
       Some ((fold (stop_held en) [0..<high_water (wd_table w6)] w6)\<lparr>wd_lifecycle := STOPPED\<rparr>)
     }
   }"

section \<open>Starting\<close>

partial_function (option) enter_init ::
  "('u, 'v, 'f) others \<Rightarrow> nat \<Rightarrow> ('u, 'v, 'f) world \<Rightarrow> (bool \<times> ('u, 'v, 'f) world) option" where
  [code]: "enter_init others n w =
     (case wd_lifecycle w of
        STOPPED \<Rightarrow> Some (True, w\<lparr>wd_lifecycle := STARTING\<rparr>)
      | LIVE \<Rightarrow> Some (False, w)
      | _ \<Rightarrow> enter_init others (n + 1) (others n w))"

text \<open>\<open>queue\<close> is the kernel's answer to the call for a new queue. The sizes are applied to the environment.\<close>

definition apply_tuning :: "tuning \<Rightarrow> ('u, 'v, 'f) env \<Rightarrow> ('u, 'v, 'f) env" where
  "apply_tuning tn en = en\<lparr>en_machine := (en_machine en)\<lparr>mc_tuning := tn\<rparr>\<rparr>"

definition exec_init ::
  "('u, 'v, 'f) others \<Rightarrow> int res \<Rightarrow> tuning \<Rightarrow> ('u, 'v, 'f) env \<Rightarrow> ('u, 'v, 'f) world
    \<Rightarrow> (unit res \<times> ('u, 'v, 'f) env \<times> ('u, 'v, 'f) world) option" where
  "exec_init others queue tn en w = do {
     (mine, w1) \<leftarrow> enter_init others 0 w;
     if \<not> mine then Some (Inl AlreadyInit, en, w1)
     else
       (case queue of
          Inl e \<Rightarrow> Some (Inl e, en, w1\<lparr>wd_lifecycle := STOPPED\<rparr>)
        | Inr q \<Rightarrow>
            (let w2 = w1\<lparr>wd_manager := q\<rparr>;
                 en1 = apply_tuning tn en;
                 w3 = w2\<lparr>wd_pool := ensure_floor (machine_of en1 w2) (pool_open (wd_pool w2))\<rparr>
             in Some (Inr (), en1, w3\<lparr>wd_lifecycle := LIVE\<rparr>)))
   }"

section \<open>The runtime\<close>

record ('u, 'v, 'f) runtime =
  rt_world :: "('u, 'v, 'f) world"
  rt_env :: "('u, 'v, 'f) env"
  rt_init :: bool
  rt_reactor :: int
  rt_reactors :: "int list"

text \<open>
  \<open>rt_reactors\<close> are the queues a reactor thread is listening on. \<open>answers\<close> are the kernel's
  answers to the calls for a queue, the reactor's first.
\<close>

definition runtime_new :: "clock \<Rightarrow> ('u, 'v, 'f) env \<Rightarrow> ('u, 'v, 'f) runtime" where
  "runtime_new ck en =
     \<lparr>rt_world = world_new ck, rt_env = en, rt_init = False, rt_reactor = 0, rt_reactors = []\<rparr>"

definition executor_init ::
  "('u, 'v, 'f) others \<Rightarrow> int res \<Rightarrow> tuning \<Rightarrow> ('u, 'v, 'f) runtime \<Rightarrow> (unit res \<times> ('u, 'v, 'f) runtime) option" where
  "executor_init others queue tn rt = do {
     (r, en, w) \<leftarrow> exec_init others queue tn (rt_env rt) (rt_world rt);
     Some (r, rt\<lparr>rt_env := en, rt_world := w\<rparr>)
   }"

definition init_runtime ::
  "('u, 'v, 'f) others \<Rightarrow> int res \<Rightarrow> int res \<Rightarrow> tuning \<Rightarrow> ('u, 'v, 'f) runtime
    \<Rightarrow> (unit res \<times> ('u, 'v, 'f) runtime) option" where
  "init_runtime others reactor queue tn rt =
     (case reactor of
        Inl e \<Rightarrow> Some (Inl e, rt)
      | Inr q \<Rightarrow> executor_init others queue tn (rt\<lparr>rt_reactor := q, rt_reactors := rt_reactors rt @ [q]\<rparr>))"

partial_function (option) until_ready ::
  "('u, 'v, 'f) others \<Rightarrow> nat \<Rightarrow> ('u, 'v, 'f) world \<Rightarrow> ('u, 'v, 'f) world option" where
  [code]: "until_ready others n w =
     (if wd_ready w then Some w else until_ready others (n + 1) (others n w))"

definition init_with ::
  "('u, 'v, 'f) others \<Rightarrow> int res \<Rightarrow> int res \<Rightarrow> tuning \<Rightarrow> ('u, 'v, 'f) runtime
    \<Rightarrow> (unit res \<times> ('u, 'v, 'f) runtime) option" where
  "init_with others reactor queue tn rt =
     (if rt_init rt then do {
        w \<leftarrow> until_ready others 0 (rt_world rt);
        executor_init others queue tn (rt\<lparr>rt_world := w\<rparr>)
      }
      else do {
        (r, rt1) \<leftarrow> init_runtime others reactor queue tn (rt\<lparr>rt_init := True\<rparr>);
        Some (r, rt1\<lparr>rt_world := (rt_world rt1)\<lparr>wd_ready := True\<rparr>\<rparr>)
      })"

definition runtime_shutdown ::
  "('u, 'v, 'f) others \<Rightarrow> ('u, 'v, 'f) runtime \<Rightarrow> ('u, 'v, 'f) runtime option" where
  "runtime_shutdown others rt = do {
     w \<leftarrow> shutdown_now (rt_env rt) others (rt_world rt);
     Some (rt\<lparr>rt_world := w\<rparr>)
   }"

record runtime_status =
  rs_initialised :: bool
  rs_shut_down :: bool
  rs_reactor_alive :: bool
  rs_manager_alive :: bool
  rs_pool_alive :: bool

definition runtime_status_of :: "('u, 'v, 'f) runtime \<Rightarrow> runtime_status" where
  "runtime_status_of rt =
     (let w = rt_world rt; initialised = wd_ready w in
      \<lparr>rs_initialised = initialised,
       rs_shut_down = (initialised \<and> shutting_down w),
       rs_reactor_alive = (initialised \<and> rt_reactor rt \<noteq> DEAD_KQUEUE_ID),
       rs_manager_alive = (initialised \<and> manager_alive w),
       rs_pool_alive = (initialised \<and> pl_live (wd_pool w) > 0 \<and> pl_dead (wd_pool w) = 0)\<rparr>)"

definition healthy :: "runtime_status \<Rightarrow> bool" where
  "healthy rs \<longleftrightarrow>
     rs_initialised rs \<and> \<not> rs_shut_down rs \<and> rs_reactor_alive rs \<and> rs_manager_alive rs \<and> rs_pool_alive rs"

definition alive_word :: "bool \<Rightarrow> string" where
  "alive_word up = (if up then ''up'' else ''gone'')"

definition status_text :: "runtime_status \<Rightarrow> string" where
  "status_text rs =
     (if \<not> rs_initialised rs then ''not initialised''
      else if rs_shut_down rs then ''shut down''
      else if healthy rs then ''healthy''
      else ''degraded: reactor '' @ alive_word (rs_reactor_alive rs) @ '', manager '' @
        alive_word (rs_manager_alive rs) @ '', pool '' @ alive_word (rs_pool_alive rs))"

section \<open>The reactor\<close>

text \<open>
  What one event leads to: nothing, a trigger put to the waiter's own queue, or a wake of a
  waiter on its stack.
\<close>

datatype reaction = NoReaction | Triggered int "kevent" | WokeWaiter u64

definition react :: "kevent \<Rightarrow> reaction" where
  "react ev =
     (if ke_flags ev AND EV_ERROR \<noteq> 0 then NoReaction
      else
        (case decode_target (of_nat (ke_udata ev)) of
           NoTarget \<Rightarrow> NoReaction
         | QueueTarget q \<Rightarrow> Triggered q (kevent_create WAKE_IDENT 0 0 (event_desc_new NewUserTrigger))
         | ParkedTarget p \<Rightarrow> WokeWaiter p))"

text \<open>The reactor's loop, which hands its queue back when it can listen no more.\<close>

partial_function (option) reactor_loop ::
  "(nat \<Rightarrow> kevent list res) \<Rightarrow> nat \<Rightarrow> reaction list \<Rightarrow> reaction list option" where
  [code]: "reactor_loop listened n done =
     (case listened n of
        Inl e \<Rightarrow> if e = CheckError (Some EINTR) then reactor_loop listened (n + 1) done else Some done
      | Inr events \<Rightarrow> reactor_loop listened (n + 1) (done @ map react events))"

text \<open>
  The thread that brings reactors back: \<open>deaths\<close> are how long each reactor lasted and the
  kernel's answer to the call for a new queue. The result is the reactor's queue at the end
  and how many reactors were started.
\<close>

fun revive :: "(nat \<times> int res) list \<Rightarrow> nat \<Rightarrow> int \<Rightarrow> nat \<Rightarrow> int \<times> nat" where
  "revive [] failures queue n = (queue, n)"
| "revive ((elapsed, answer) # deaths) failures queue n =
     (let failures1 = (if elapsed \<ge> RESTART_WINDOW then 0 else failures) + 1 in
      if failures1 > RESTART_LIMIT then (DEAD_KQUEUE_ID, n)
      else
        (case answer of
           Inl e \<Rightarrow> (DEAD_KQUEUE_ID, n)
         | Inr q \<Rightarrow> revive deaths failures1 q (n + 1)))"

end
