(* ===== verification/Waiting.thy ===== *)
theory Waiting
  imports Lifecycle
begin

text \<open>
  Waiting for a task: \<open>src/modules/help.rs\<close>, the waits and reads of \<open>src/executor.rs\<close>
  (\<open>wait_until\<close>, \<open>clone_result_until\<close>, \<open>take_result_until\<close>, \<open>join_first\<close>), the calls of
  \<open>src/modules/task_handle.rs\<close>, and \<open>join_all\<close> and \<open>join_first\<close> of \<open>src/runtime.rs\<close>.

  \<open>sleeps n left st w\<close> is the \<open>n\<close>th time the waiting thread sleeps in the kernel on a slot that
  read \<open>st\<close>, for at most \<open>left\<close>: the kernel's answer, and the world as the other threads left
  it. \<open>None\<close> is a wait that never ends.
\<close>

section \<open>Helping\<close>

datatype helped = NoHelp | Helped | HelperDied

definition on_worker :: "nat \<Rightarrow> (worker \<Rightarrow> worker) \<Rightarrow> ('u, 'v, 'f) world \<Rightarrow> ('u, 'v, 'f) world" where
  "on_worker k f w = w\<lparr>wd_pool := put_worker k (f (pl_workers (wd_pool w) k)) (wd_pool w)\<rparr>"

definition run_nested ::
  "('u, 'v, 'f) env \<Rightarrow> ('u, 'v, 'f) code \<Rightarrow> nat \<Rightarrow> nat \<Rightarrow> nat \<Rightarrow> ('u, 'v, 'f) world
    \<Rightarrow> (helped \<times> ('u, 'v, 'f) world) option" where
  "run_nested en code k depth i w = do {
     let w1 = (on_worker k (hold_nested depth i) w)\<lparr>wd_depth := depth + 1\<rparr>;
     (died, w2) \<leftarrow> run_task en code i w1;
     Some (if died then (HelperDied, w2)
           else (Helped, on_worker k (put_down_nested depth) (w2\<lparr>wd_depth := depth\<rparr>)))
   }"

definition unrelated_limit :: "nat \<Rightarrow> nat" where
  "unrelated_limit limit = limit div 2"

definition help_once ::
  "('u, 'v, 'f) env \<Rightarrow> ('u, 'v, 'f) code \<Rightarrow> ('u, 'v, 'f) world \<Rightarrow> (helped \<times> ('u, 'v, 'f) world) option" where
  "help_once en code w =
     (case wd_worker w of
        None \<Rightarrow> Some (NoHelp, w)
      | Some k \<Rightarrow>
          if wd_depth w \<ge> wd_limit w then Some (NoHelp, w)
          else do {
            (got, w1) \<leftarrow> with_pool en (find_help k (wd_depth w < unrelated_limit (wd_limit w))) w;
            case got of
              None \<Rightarrow> Some (NoHelp, w1)
            | Some i \<Rightarrow> run_nested en code k (wd_depth w) i w1
          })"

definition run_awaited ::
  "('u, 'v, 'f) env \<Rightarrow> ('u, 'v, 'f) code \<Rightarrow> nat \<Rightarrow> ('u, 'v, 'f) world \<Rightarrow> (helped \<times> ('u, 'v, 'f) world) option" where
  "run_awaited en code i w =
     (case wd_worker w of
        None \<Rightarrow> Some (NoHelp, w)
      | Some k \<Rightarrow>
          if wd_depth w \<ge> wd_limit w then Some (NoHelp, w)
          else
            (case live_task i w of
               None \<Rightarrow> Some (NoHelp, w)
             | Some d \<Rightarrow>
                 (let (mine, d1) = claim_queued QUEUED_LOCAL d; w1 = put_task i d1 w
                  in if \<not> mine then Some (NoHelp, w1) else run_nested en code k (wd_depth w) i w1)))"

section \<open>Patience\<close>

definition FIRST_SLICE :: nat where "FIRST_SLICE = 50 * 1000"
definition SELECT_POLL :: nat where "SELECT_POLL = 50 * 1000000"

record patience =
  pt_slice :: nat
  pt_blocked :: bool
  pt_worker :: "nat option"

definition patience_new :: patience where
  "patience_new = \<lparr>pt_slice = FIRST_SLICE, pt_blocked = False, pt_worker = None\<rparr>"

definition patience_helped :: "patience \<Rightarrow> patience" where
  "patience_helped pt = pt\<lparr>pt_slice := FIRST_SLICE\<rparr>"

text \<open>A wait too deep to take queued work counts as blocked, and makes room for another worker.\<close>

definition wait_deep ::
  "('u, 'v, 'f) env \<Rightarrow> patience \<Rightarrow> ('u, 'v, 'f) world \<Rightarrow> patience \<times> ('u, 'v, 'f) world" where
  "wait_deep en pt w =
     (let (pt1, w1) = (if pt_blocked pt then (pt, w)
            else (pt\<lparr>pt_blocked := True\<rparr>, w\<lparr>wd_pool := blocked_in (wd_pool w)\<rparr>))
      in (pt1,
          if all_blocked (wd_pool w1) \<and> has_queued_work (wd_pool w1)
          then w1\<lparr>wd_pool := snd (start_one (machine_of en w1) Replace (wd_pool w1))\<rparr> else w1))"

definition exec_heal :: "('u, 'v, 'f) env \<Rightarrow> ('u, 'v, 'f) world \<Rightarrow> ('u, 'v, 'f) world option" where
  "exec_heal en w = do {
     (lost_all, w1) \<leftarrow> with_pool en
       (heal_if_needed (machine_of en w) (ck_now (wd_clock w) - ck_epoch (wd_clock w))) w;
     if lost_all then write_off_pool en w1 else Some w1
   }"

definition patience_slice ::
  "('u, 'v, 'f) env \<Rightarrow> patience \<Rightarrow> ('u, 'v, 'f) world \<Rightarrow> (nat option \<times> patience \<times> ('u, 'v, 'f) world) option" where
  "patience_slice en pt w =
     (let (pause, pt3, w3) =
            (case wd_worker w of
               None \<Rightarrow> (None, pt, w)
             | Some k \<Rightarrow>
                 (let (pt1, w1) = (if pt_worker pt = None
                        then (pt\<lparr>pt_worker := Some k\<rparr>, on_worker k wait_began w) else (pt, w));
                      (pt2, w2) = (if wd_depth w1 \<ge> unrelated_limit (wd_limit w1)
                        then wait_deep en pt1 w1 else (pt1, w1))
                  in (Some (pt_slice pt2), pt2\<lparr>pt_slice := min (pt_slice pt2 * 2) HELP_POLL\<rparr>, w2)))
      in if manager_alive w3 then Some (pause, pt3, w3)
         else do {
           w4 \<leftarrow> exec_heal en w3;
           Some (Some (case pause of None \<Rightarrow> STRANDED_POLL | Some s \<Rightarrow> min s STRANDED_POLL), pt3, w4)
         })"

definition patience_drop :: "patience \<Rightarrow> ('u, 'v, 'f) world \<Rightarrow> ('u, 'v, 'f) world" where
  "patience_drop pt w =
     (let w1 = (if pt_blocked pt then w\<lparr>wd_pool := blocked_out (wd_pool w)\<rparr> else w)
      in case pt_worker pt of None \<Rightarrow> w1 | Some k \<Rightarrow> on_worker k wait_ended w1)"

section \<open>Waiting for a task to settle\<close>

text \<open>A call that returns, or a thread that goes down inside it.\<close>

datatype 'r ended = Returned 'r | ThreadGone

type_synonym ('u, 'v, 'f) sleeps =
  "nat \<Rightarrow> nat option \<Rightarrow> task_state \<Rightarrow> ('u, 'v, 'f) world \<Rightarrow> bool res \<times> ('u, 'v, 'f) world"

definition past :: "nat option \<Rightarrow> ('u, 'v, 'f) world \<Rightarrow> bool" where
  "past deadline w = (case deadline of None \<Rightarrow> False | Some t \<Rightarrow> t \<le> ck_now (wd_clock w))"

definition sleep_for :: "nat option \<Rightarrow> nat option \<Rightarrow> ('u, 'v, 'f) world \<Rightarrow> nat option" where
  "sleep_for deadline pause w =
     (case deadline of
        None \<Rightarrow> pause
      | Some t \<Rightarrow>
          (let left_ns = t - ck_now (wd_clock w)
           in Some (case pause of None \<Rightarrow> left_ns | Some s \<Rightarrow> min s left_ns)))"

definition awaited_or_help ::
  "('u, 'v, 'f) env \<Rightarrow> ('u, 'v, 'f) code \<Rightarrow> nat \<Rightarrow> ('u, 'v, 'f) world \<Rightarrow> (helped \<times> ('u, 'v, 'f) world) option" where
  "awaited_or_help en code i w = do {
     (h, w1) \<leftarrow> run_awaited en code i w;
     if h = NoHelp then help_once en code w1 else Some (h, w1)
   }"

partial_function (option) wait_loop ::
  "('u, 'v, 'f) env \<Rightarrow> ('u, 'v, 'f) code \<Rightarrow> ('u, 'v, 'f) sleeps \<Rightarrow> nat \<Rightarrow> nat option \<Rightarrow> nat \<Rightarrow> patience
    \<Rightarrow> ('u, 'v, 'f) world \<Rightarrow> (task_state res ended \<times> nat \<times> patience \<times> ('u, 'v, 'f) world) option" where
  [code]: "wait_loop en code sleeps i deadline n pt w =
     (let st = td_state (mem i w) in
      if terminal st then Some (Returned (Inr st), n, pt, w)
      else do {
        (h, w1) \<leftarrow> awaited_or_help en code i w;
        if h = HelperDied then Some (ThreadGone, n, pt, w1)
        else if h = Helped then wait_loop en code sleeps i deadline n (patience_helped pt) w1
        else do {
          (pause, pt1, w2) \<leftarrow> patience_slice en pt w1;
          if past deadline w2 then Some (Returned (Inl NotReady), n, pt1, w2)
          else
            (let sl = sleep_for deadline pause w2;
                 (answer, w3) = sleeps n sl st w2
             in case answer of
                  Inl e \<Rightarrow> Some (Returned (Inl e), n + 1, pt1, w3)
                | Inr woken \<Rightarrow>
                    if sl = None \<or> woken \<or> \<not> past deadline w3
                    then wait_loop en code sleeps i deadline (n + 1) pt1 w3
                    else
                      (let st = td_state (mem i w3)
                       in Some (Returned (if terminal st then Inr st else Inl NotReady), n + 1, pt1, w3)))
        }
      })"

definition wait_until ::
  "('u, 'v, 'f) env \<Rightarrow> ('u, 'v, 'f) code \<Rightarrow> ('u, 'v, 'f) sleeps \<Rightarrow> nat \<Rightarrow> nat option \<Rightarrow> nat
    \<Rightarrow> ('u, 'v, 'f) world \<Rightarrow> (task_state res ended \<times> nat \<times> ('u, 'v, 'f) world) option" where
  "wait_until en code sleeps i deadline n w =
     (if live_task i w = None then Some (Returned (Inl (missing i)), n, w)
      else do {
        (r, n1, pt, w1) \<leftarrow> wait_loop en code sleeps i deadline n patience_new w;
        Some (r, n1, patience_drop pt w1)
      })"

section \<open>Reading and taking outputs\<close>

text \<open>The loop both reads share: \<open>attempt\<close> is \<open>enter_read\<close> or \<open>claim_result\<close>.\<close>

partial_function (option) result_loop ::
  "('u, 'v, 'f) env \<Rightarrow> ('u, 'v, 'f) code \<Rightarrow> ('u, 'v, 'f) sleeps
    \<Rightarrow> (('u erased, 'v, 'f) task_data \<Rightarrow> bool \<times> ('u erased, 'v, 'f) task_data)
    \<Rightarrow> nat \<Rightarrow> nat option \<Rightarrow> nat \<Rightarrow> ('u, 'v, 'f) world
    \<Rightarrow> (unit res ended \<times> nat \<times> ('u, 'v, 'f) world) option" where
  [code]: "result_loop en code sleeps attempt i deadline n w = do {
     (r, n1, w1) \<leftarrow> wait_until en code sleeps i deadline n w;
     case r of
       ThreadGone \<Rightarrow> Some (ThreadGone, n1, w1)
     | Returned (Inl e) \<Rightarrow> Some (Returned (Inl e), n1, w1)
     | Returned (Inr st) \<Rightarrow>
         (case settled_as (mem i w1) st of
            Inl e \<Rightarrow> Some (Returned (Inl e), n1, w1)
          | Inr _ \<Rightarrow>
              (let (ok, d) = attempt (mem i w1); w2 = put_task i d w1 in
               if ok then Some (Returned (Inr ()), n1, w2)
               else
                 (let e = lost d (td_state d) in
                  if e \<noteq> NotReady then Some (Returned (Inl e), n1, w2)
                  else if past deadline w2 then Some (Returned (Inl NotReady), n1, w2)
                  else result_loop en code sleeps attempt i deadline n1 w2)))
   }"

definition clone_result_until ::
  "('u, 'v, 'f) env \<Rightarrow> ('u, 'v, 'f) code \<Rightarrow> ('u, 'v, 'f) sleeps \<Rightarrow> nat \<Rightarrow> nat option \<Rightarrow> ('u, 'v, 'f) world
    \<Rightarrow> ('v option res ended \<times> ('u, 'v, 'f) world) option" where
  "clone_result_until en code sleeps i deadline w =
     (if live_task i w = None then Some (Returned (Inl (missing i)), w)
      else do {
        (r, _, w1) \<leftarrow> result_loop en code sleeps enter_read i deadline 0 w;
        case r of
          ThreadGone \<Rightarrow> Some (ThreadGone, w1)
        | Returned (Inl e) \<Rightarrow> Some (Returned (Inl e), w1)
        | Returned (Inr _) \<Rightarrow> Some (Returned (Inr (td_cell (mem i w1))), on_task i leave_read w1)
      })"

definition take_result_until ::
  "('u, 'v, 'f) env \<Rightarrow> ('u, 'v, 'f) code \<Rightarrow> ('u, 'v, 'f) sleeps \<Rightarrow> nat \<Rightarrow> nat option \<Rightarrow> ('u, 'v, 'f) world
    \<Rightarrow> ('v option res ended \<times> ('u, 'v, 'f) world) option" where
  "take_result_until en code sleeps i deadline w =
     (if live_task i w = None then Some (Returned (Inl (missing i)), w)
      else do {
        (r, _, w1) \<leftarrow> result_loop en code sleeps claim_result i deadline 0 w;
        case r of
          ThreadGone \<Rightarrow> Some (ThreadGone, w1)
        | Returned (Inl e) \<Rightarrow> Some (Returned (Inl e), w1)
        | Returned (Inr _) \<Rightarrow>
            Some (Returned (Inr (td_cell (mem i w1))), on_task i (\<lambda>d. (empty d)\<lparr>td_cell := None\<rparr>) w1)
      })"

section \<open>The first of several\<close>

definition settled_any :: "nat list \<Rightarrow> ('u, 'v, 'f) world \<Rightarrow> nat option" where
  "settled_any ids w =
     List.find (\<lambda>i. case live_task i w of Some d \<Rightarrow> terminal (td_state d) | None \<Rightarrow> True) ids"

fun register_select :: "int \<Rightarrow> nat list \<Rightarrow> ('u, 'v, 'f) world \<Rightarrow> nat list \<times> ('u, 'v, 'f) world" where
  "register_select q [] w = ([], w)"
| "register_select q (i # is) w =
     (case live_task i w of
        None \<Rightarrow> register_select q is w
      | Some d \<Rightarrow>
          (let (ok, d1) = set_select q d; (got, w1) = register_select q is (put_task i d1 w)
           in (if ok then i # got else got, w1)))"

text \<open>\<open>wakes n pause\<close> is the \<open>n\<close>th sleep on the thread's queue, or of a thread with none.\<close>

partial_function (option) select_loop ::
  "('u, 'v, 'f) env \<Rightarrow> ('u, 'v, 'f) code \<Rightarrow> (nat \<Rightarrow> nat \<Rightarrow> ('u, 'v, 'f) world \<Rightarrow> ('u, 'v, 'f) world) \<Rightarrow> bool
    \<Rightarrow> nat list \<Rightarrow> nat \<Rightarrow> patience \<Rightarrow> ('u, 'v, 'f) world
    \<Rightarrow> (nat ended \<times> patience \<times> ('u, 'v, 'f) world) option" where
  [code]: "select_loop en code wakes queued_up ids n pt w =
     (case settled_any ids w of
        Some i \<Rightarrow> Some (Returned i, pt, w)
      | None \<Rightarrow> do {
          (h, w1) \<leftarrow> help_once en code w;
          if h = HelperDied then Some (ThreadGone, pt, w1)
          else if h = Helped then select_loop en code wakes queued_up ids n (patience_helped pt) w1
          else if \<not> queued_up then select_loop en code wakes queued_up ids (n + 1) pt (wakes n SELECT_POLL w1)
          else do {
            (pause, pt1, w2) \<leftarrow> patience_slice en pt w1;
            let sl = (case pause of None \<Rightarrow> SELECT_POLL | Some s \<Rightarrow> min s SELECT_POLL);
            select_loop en code wakes queued_up ids (n + 1) pt1 (wakes n sl w2)
          }
        })"

definition unregister_select :: "int \<Rightarrow> nat \<Rightarrow> ('u, 'v, 'f) world \<Rightarrow> ('u, 'v, 'f) world" where
  "unregister_select q i w = (if live_task i w = None then w else on_task i (clear_select q) w)"

text \<open>\<open>queue\<close> is the thread's own kernel queue, or why it has none.\<close>

definition join_first ::
  "('u, 'v, 'f) env \<Rightarrow> ('u, 'v, 'f) code \<Rightarrow> (nat \<Rightarrow> nat \<Rightarrow> ('u, 'v, 'f) world \<Rightarrow> ('u, 'v, 'f) world) \<Rightarrow> int res
    \<Rightarrow> nat list \<Rightarrow> ('u, 'v, 'f) world \<Rightarrow> (nat option ended \<times> ('u, 'v, 'f) world) option" where
  "join_first en code wakes queue ids w =
     (if ids = [] then Some (Returned None, w)
      else
        (case settled_any ids w of
           Some i \<Rightarrow> Some (Returned (Some i), w)
         | None \<Rightarrow>
             (case queue of
                Inl _ \<Rightarrow> do {
                  (got, _, w1) \<leftarrow> select_loop en code wakes False ids 0 patience_new w;
                  Some (map_ended Some got, w1)
                }
              | Inr q \<Rightarrow>
                  (let (registered, w1) = register_select q ids w in do {
                     (got, pt, w2) \<leftarrow> select_loop en code wakes True ids 0 patience_new w1;
                     let w3 = (if got = ThreadGone then w2 else fold (unregister_select q) registered w2);
                     Some (map_ended Some got, patience_drop pt w3)
                   }))))"

section \<open>Handles\<close>

text \<open>What a handle can be asked without waiting.\<close>

datatype handle_query =
    Settled | IsPending | IsRunning | IsReady | IsTaken | IsCancelled | IsTimedOut | IsFailed | IsFinished

fun handle_asks :: "handle_query \<Rightarrow> nat \<Rightarrow> ('u, 'v, 'f) world \<Rightarrow> bool" where
  "handle_asks Settled i w = terminal (exec_state i w)"
| "handle_asks IsPending i w = (exec_state i w = Pending)"
| "handle_asks IsRunning i w = (exec_state i w = Running)"
| "handle_asks IsReady i w = (exec_state i w = Ready)"
| "handle_asks IsTaken i w = (exec_state i w = Taken)"
| "handle_asks IsCancelled i w = (exec_state i w = Cancelled)"
| "handle_asks IsTimedOut i w = (exec_state i w = TimedOut)"
| "handle_asks IsFailed i w = (exec_state i w = Failed)"
| "handle_asks IsFinished i w = exec_finished i w"

definition handle_deadline :: "nat \<Rightarrow> ('u, 'v, 'f) world \<Rightarrow> nat option" where
  "handle_deadline timeout w = instant_checked_add (ck_limit (wd_clock w)) (ck_now (wd_clock w)) timeout"

text \<open>The calls that use the handle up drop it last.\<close>

definition handle_join ::
  "('u, 'v, 'f) env \<Rightarrow> ('u, 'v, 'f) code \<Rightarrow> ('u, 'v, 'f) sleeps \<Rightarrow> bool \<Rightarrow> nat \<Rightarrow> ('u, 'v, 'f) world
    \<Rightarrow> ('v option res ended \<times> ('u, 'v, 'f) world) option" where
  "handle_join en code sleeps gives i w = do {
     (r, w1) \<leftarrow> clone_result_until en code sleeps i None w;
     Some (r, handle_dropped en gives i w1)
   }"

definition handle_take ::
  "('u, 'v, 'f) env \<Rightarrow> ('u, 'v, 'f) code \<Rightarrow> ('u, 'v, 'f) sleeps \<Rightarrow> bool \<Rightarrow> nat \<Rightarrow> ('u, 'v, 'f) world
    \<Rightarrow> ('v option res ended \<times> ('u, 'v, 'f) world) option" where
  "handle_take en code sleeps gives i w = do {
     (r, w1) \<leftarrow> take_result_until en code sleeps i None w;
     Some (r, handle_dropped en gives i w1)
   }"

definition handle_cancel :: "('u, 'v, 'f) env \<Rightarrow> bool \<Rightarrow> nat \<Rightarrow> ('u, 'v, 'f) world \<Rightarrow> ('u, 'v, 'f) world" where
  "handle_cancel en gives i w = handle_dropped en gives i (cancel en i w)"

text \<open>Giving up giving: the claim stays.\<close>

definition into_plain :: "('u, 'v, 'f) env \<Rightarrow> bool \<Rightarrow> nat \<Rightarrow> ('u, 'v, 'f) world \<Rightarrow> ('u, 'v, 'f) world" where
  "into_plain en gives i w = (if gives then giver_dropped en i w else w)"

section \<open>Several handles\<close>

fun join_all ::
  "('u, 'v, 'f) env \<Rightarrow> ('u, 'v, 'f) code \<Rightarrow> ('u, 'v, 'f) sleeps \<Rightarrow> bool \<Rightarrow> nat list \<Rightarrow> ('u, 'v, 'f) world
    \<Rightarrow> ('v option res list ended \<times> ('u, 'v, 'f) world) option" where
  "join_all en code sleeps gives [] w = Some (Returned [], w)"
| "join_all en code sleeps gives (i # is) w = do {
     (r, w1) \<leftarrow> handle_join en code sleeps gives i w;
     case r of
       ThreadGone \<Rightarrow> Some (ThreadGone, fold (handle_dropped en gives) is w1)
     | Returned x \<Rightarrow> do {
         (rs, w2) \<leftarrow> join_all en code sleeps gives is w1;
         Some (map_ended ((#) x) rs, w2)
       }
   }"

fun remove_at :: "nat \<Rightarrow> 'a list \<Rightarrow> 'a list" where
  "remove_at n [] = []"
| "remove_at 0 (x # xs) = xs"
| "remove_at (Suc n) (x # xs) = x # remove_at n xs"

definition position_of :: "'a \<Rightarrow> 'a list \<Rightarrow> nat" where
  "position_of x xs = (if x \<in> set xs then length (takeWhile (\<lambda>y. y \<noteq> x) xs) else 0)"

text \<open>
  The winner's handle, the id no task has for an empty set, and the losers where the policy
  hands them back.
\<close>

definition runtime_join_first ::
  "('u, 'v, 'f) env \<Rightarrow> ('u, 'v, 'f) code \<Rightarrow> (nat \<Rightarrow> nat \<Rightarrow> ('u, 'v, 'f) world \<Rightarrow> ('u, 'v, 'f) world) \<Rightarrow> int res
    \<Rightarrow> bool \<Rightarrow> join_policy \<Rightarrow> nat list \<Rightarrow> ('u, 'v, 'f) world
    \<Rightarrow> ((nat \<times> nat list option) ended \<times> ('u, 'v, 'f) world) option" where
  "runtime_join_first en code wakes queue gives policy ids w = do {
     (got, w1) \<leftarrow> join_first en code wakes queue ids w;
     case got of
       ThreadGone \<Rightarrow> Some (ThreadGone, fold (handle_dropped en gives) ids w1)
     | Returned None \<Rightarrow> Some (Returned (MAX_TASK_ID, if policy = PassBack then Some [] else None), w1)
     | Returned (Some winner) \<Rightarrow>
         (let rest = remove_at (position_of winner ids) ids in
          case policy of
            PassBack \<Rightarrow> Some (Returned (winner, Some rest), w1)
          | JoinCancel \<Rightarrow> Some (Returned (winner, None), fold (handle_cancel en gives) rest w1)
          | JoinDrop \<Rightarrow> Some (Returned (winner, None), fold (handle_dropped en gives) rest w1))
   }"

end
