(* ===== verification/Manager_Facts.thy ===== *)
theory Manager_Facts
  imports Lifecycle Executor_Cells
begin

text \<open>
  What the manager guarantees: timers reach the handler they were armed for, a manager's
  death loses no wait, the supervisor's patience, and what a shutdown leaves; and what the
  runtime's status says of a reactor that never started.
\<close>

section \<open>Timers reach what they were armed for\<close>

text \<open>An event as the kernel reports it, for a change it took.\<close>

definition reported :: "kevent \<Rightarrow> kevent" where
  "reported ev = ev\<lparr>ke_flags := ke_flags ev AND NOT EV_ERROR\<rparr>"

lemma reported_clear [simp]: "ke_flags (reported ev) AND EV_ERROR = 0"
  by (simp add: reported_def and.assoc bit_eq_iff bit_simps)

lemma reported_fields [simp]:
  "ke_ident (reported ev) = ke_ident ev" "ke_filter (reported ev) = ke_filter ev" "ke_udata (reported ev) = ke_udata ev"
  by (simp_all add: reported_def)

text \<open>
  the kernel's answer to every timer the executor arms reaches the task it was armed
  for: an interval or a gap fires it, a run's timeout times out that run with the word it
  was armed with, a park's deadline wakes the park, an event a park watches wakes it too,
  and the manager's own tick does nothing. The three ranges of idents don't meet.
\<close>
theorem timers_reach_their_task:
  assumes "i < MAX_TASK_ID"
  shows "handle_event en (reported (kevent_create (i + SCHEDULE_IDENT_BASE) n 0 (event_desc_new NewTimer))) w =
      fire en (i + SCHEDULE_IDENT_BASE) w \<and>
    handle_event en (reported (kevent_create (i + SCHEDULE_IDENT_BASE) n 0 (event_desc_new NewInterval))) w =
      fire en (i + SCHEDULE_IDENT_BASE) w \<and>
    handle_event en (reported (kevent_create (i + SCHEDULE_IDENT_BASE) n PARK_TIMER (event_desc_new NewTimer))) w =
      wake_parked en i FiredDeadline w \<and>
    handle_event en (reported (kevent_create (i + TIMEOUT_IDENT_BASE) n (unat word) (event_desc_new NewTimer))) w =
      Some (timed_out en i word w) \<and>
    handle_event en (reported (kevent_create (usize_of fd) 0 i (event_desc_new (NewPark EVFILT_READ 0)))) w =
      wake_parked en i FiredEvent w \<and>
    handle_event en (reported (kevent_create MANAGER_TICK_IDENT n 0 (event_desc_new NewInterval))) w = Some w"
  using assms
  by (simp add: handle_event_def kevent_create_def EVFILT_TIMER_def EVFILT_READ_def
      EVFILT_WRITE_def EVFILT_SIGNAL_def EVFILT_VNODE_def SCHEDULE_IDENT_BASE_def TIMEOUT_IDENT_BASE_def
      MANAGER_TICK_IDENT_def PARK_TIMER_def)

theorem timers_reach_their_task_witness:
  "handle_event demo_env (reported (kevent_create (7 + TIMEOUT_IDENT_BASE) 5 9 (event_desc_new NewTimer))) (demo demo_slot) =
     Some (timed_out demo_env 7 9 (demo demo_slot))"
  using timers_reach_their_task [of 7 demo_env 5 "demo demo_slot" 9] by (simp add: MAX_TASK_ID_val)

section \<open>How often a manager is brought back\<close>

lemma supervise_short:
  assumes "run n w = Some (elapsed, w1)" "\<not> shutting_down w1" "elapsed < RESTART_WINDOW" "failures < RESTART_LIMIT"
  shows "supervise en run n failures w = supervise en run (n + 1) (failures + 1) w1"
  using assms by (subst supervise.simps) simp

lemma supervise_short_runs:
  assumes "\<And>k w. k < m \<Longrightarrow> run k w = Some (elapsed k, f k w)" "\<And>k w. k < m \<Longrightarrow> \<not> shutting_down (f k w)"
    "\<And>k. k < m \<Longrightarrow> elapsed k < RESTART_WINDOW" "m \<le> RESTART_LIMIT"
  shows "supervise en run 0 0 w = supervise en run m m (fold f [0..<m] w)"
  using assms
proof (induction m)
  case (Suc m)
  then have "supervise en run 0 0 w = supervise en run m m (fold f [0..<m] w)" by simp
  also have "\<dots> = supervise en run (m + 1) (m + 1) (f m (fold f [0..<m] w))"
    using Suc.prems by (intro supervise_short) auto
  finally show ?case by simp
qed simp

text \<open>
  a manager that keeps coming apart within the restart window is brought back five
  times and given up on when the sixth one goes; one that lasts the window starts the
  count again, however often managers came apart before it.
\<close>
theorem supervisor_gives_up_at_the_sixth:
  assumes "\<And>k w. k \<le> 5 \<Longrightarrow> run k w = Some (elapsed k, f k w) \<and> \<not> shutting_down (f k w)"
    and "\<And>k. k \<le> 5 \<Longrightarrow> elapsed k < RESTART_WINDOW"
    and "give_up en (fold f [0..<6] w) = Some w'"
  shows "supervise en run 0 0 w = Some (GaveUp, 6, w') \<and>
    (run n w2 = Some (lasted, w3) \<and> lasted \<ge> RESTART_WINDOW \<and> \<not> shutting_down w3 \<longrightarrow>
      supervise en run n failures w2 = supervise en run (n + 1) 1 w3)"
proof
  have "supervise en run 0 0 w = supervise en run 5 5 (fold f [0..<5] w)"
    using assms(1,2) by (intro supervise_short_runs) (auto simp: RESTART_LIMIT_def)
  also have "\<dots> = Some (GaveUp, 6, w')"
  proof -
    have "[0..<6] = [0..<5] @ [5]" by code_simp
    then have "f 5 (fold f [0..<5] w) = fold f [0..<6] w" by simp
    with assms(3) have "give_up en (f 5 (fold f [0..<5] w)) = Some w'" by simp
    with assms(1) [of 5] assms(2) [of 5] show ?thesis by (subst supervise.simps) (simp add: RESTART_LIMIT_def)
  qed
  finally show "supervise en run 0 0 w = Some (GaveUp, 6, w')" .
  show "run n w2 = Some (lasted, w3) \<and> lasted \<ge> RESTART_WINDOW \<and> \<not> shutting_down w3 \<longrightarrow>
      supervise en run n failures w2 = supervise en run (n + 1) 1 w3"
    by (subst supervise.simps) (simp add: RESTART_LIMIT_def)
qed

theorem supervisor_gives_up_at_the_sixth_witness:
  "\<exists>w'. supervise demo_env (\<lambda>_ w. Some (7, w\<lparr>wd_lifecycle := LIVE\<rparr>)) 0 0
     ((demo demo_slot)\<lparr>wd_pool := (wd_pool (demo demo_slot))\<lparr>pl_live := 1\<rparr>, wd_lifecycle := LIVE\<rparr>) = Some (GaveUp, 6, w')"
proof -
  let ?w = "(demo demo_slot)\<lparr>wd_pool := (wd_pool (demo demo_slot))\<lparr>pl_live := 1\<rparr>, wd_lifecycle := LIVE\<rparr>"
  have id: "fold (\<lambda>_ w. w\<lparr>wd_lifecycle := LIVE\<rparr>) xs ?w = ?w" for xs :: "nat list" by (induction xs) simp_all
  have "\<exists>w'. give_up demo_env ?w = Some w'"
    by (simp add: give_up_def orphaned_def high_water_def with_pool_def sweep_all_def sweep_sleeps_def
        ensure_floor_def demo_def world_new_def pool_new_def table_new_def)
  then obtain w' where "give_up demo_env (fold (\<lambda>_ w. w\<lparr>wd_lifecycle := LIVE\<rparr>) [0..<6] ?w) = Some w'" by (auto simp only: id)
  from supervisor_gives_up_at_the_sixth [of "\<lambda>_ w. Some (7, w\<lparr>wd_lifecycle := LIVE\<rparr>)" "\<lambda>_. 7" "\<lambda>_ w. w\<lparr>wd_lifecycle := LIVE\<rparr>", OF _ _ this]
  show ?thesis by (auto simp: RESTART_WINDOW_def shutting_down_def)
qed

section \<open>What a shutdown leaves\<close>

text \<open>A world's pool but for what tasks change in the table.\<close>

definition around :: "('u, 'v, 'f) world \<Rightarrow> ('u erased, 'v, 'f) pool" where
  "around w = (wd_pool w)\<lparr>pl_table := (wd_table w)\<lparr>tb_mem := (\<lambda>_. zero_slot), tb_free := 0, tb_live := 0\<rparr>\<rparr>"

lemma around_fields:
  "around w' = around w \<Longrightarrow> pl_live (wd_pool w') = pl_live (wd_pool w)"
  "around w' = around w \<Longrightarrow> pl_sleeps_live (wd_pool w') = pl_sleeps_live (wd_pool w)"
  "around w' = around w \<Longrightarrow> high_water (wd_table w') = high_water (wd_table w)"
  "around w' = around w \<Longrightarrow> slot_ok i (wd_table w') = slot_ok i (wd_table w)"
  unfolding around_def high_water_def slot_ok_def
  by (drule arg_cong [where f = pl_live], simp) (drule arg_cong [where f = pl_sleeps_live], simp,
      drule arg_cong [where f = "\<lambda>p. tb_next_id (pl_table p)"], simp,
      drule arg_cong [where f = "\<lambda>p. tb_blocks (pl_table p)"], simp)

lemma around_put [simp]: "around (put_task i d w) = around w" "around (on_task i f w) = around w"
  by (simp_all add: around_def on_task_def put_task_def on_table_def put_slot_def)

lemma around_world [simp]:
  "around (w\<lparr>wd_changes := a\<rparr>) = around w" "around (w\<lparr>wd_woken := b\<rparr>) = around w"
  "around (w\<lparr>wd_calls := c\<rparr>) = around w" "around (w\<lparr>wd_dropped := e\<rparr>) = around w"
  "around (w\<lparr>wd_mail := g\<rparr>) = around w" "around (w\<lparr>wd_discarded := f\<rparr>) = around w"
  "around (w\<lparr>wd_lifecycle := l\<rparr>) = around w"
  by (simp_all add: around_def)

lemma around_free [simp]: "around (on_table (free_id i) w) = around w"
  by (simp add: around_def on_table_def free_id_def push_free_def put_slot_def Let_def split: option.split)

lemma around_drops [simp]: "around (run_drops ds w) = around w"
  by (rule run_drops_closure [where R = "\<lambda>a b. around b = around a"]) (simp_all add: destroy_task_def split_beta)

lemma around_release [simp]: "around (release i w) = around w"
  by (simp add: release_def exec_drop_listener_def Let_def split_beta split: option.split)

lemma around_changes [simp]:
  "around (snd (kregister en q a b c k w)) = around w" "around (snd (manager_change en a b c k w)) = around w"
  "around (wake_listeners en i w) = around w" "around (unwatch_park en i parked fired w) = around w"
  by (simp_all add: kregister_def manager_change_def wake_listeners_def unwatch_park_def Let_def split_beta)

lemma around_close [simp]: "around (close_extras en i w) = around w"
  by (simp add: close_extras_def far_calls_def Let_def split_beta split: option.split)

lemma around_ends [simp]:
  "around (take_down en i w) = around w" "around (unpark en i w) = around w" "around (settle_slot en i w) = around w"
  "around (fail en i w) = around w" "around (stop_held en i w) = around w"
proof -
  show t: "around (take_down en i w) = around w" for w
    by (simp add: take_down_def Let_def split_beta split: option.split)
  show u: "around (unpark en i w) = around w" for w by (simp add: unpark_def Let_def split_beta t split: option.split)
  show s: "around (settle_slot en i w) = around w" for w by (simp add: settle_slot_def Let_def)
  show "around (fail en i w) = around w" by (simp add: fail_def Let_def split: option.split)
  show "around (stop_held en i w) = around w" by (simp add: stop_held_def Let_def u s split: option.split)
qed

lemma around_folds [simp]:
  "around (fold (fail en) is w) = around w" "around (fold (stop_held en) is w) = around w"
  by (induction "is" arbitrary: w) simp_all

text \<open>Another task's slot is only ever taken apart, never changed.\<close>

definition others_frame :: "nat \<Rightarrow> ('u, 'v, 'f) world \<Rightarrow> ('u, 'v, 'f) world \<Rightarrow> bool" where
  "others_frame i w w' \<longleftrightarrow> (\<forall>j. j \<noteq> i \<longrightarrow> slot_frame (mem j w) (mem j w'))"

lemma others_frame_drops: "drops_frame w w' \<Longrightarrow> others_frame i w w'"
  by (simp add: others_frame_def drops_frame_def)

lemma others_frame_trans: "others_frame i a b \<Longrightarrow> others_frame i b c \<Longrightarrow> others_frame i a c"
  unfolding others_frame_def by (blast intro: slot_frame_trans)

lemma others_frame_same: "(\<And>j. j \<noteq> i \<Longrightarrow> mem j w' = mem j w) \<Longrightarrow> others_frame i w w'"
  by (simp add: others_frame_def)

lemma others_release: "others_frame i w (release i w)"
proof (cases "live_task i w")
  case (Some d)
  let ?w = "put_task i (snd (claim_release d)) w"
  have "others_frame i w ?w" by (simp add: others_frame_same)
  moreover have "others_frame i ?w (run_drops [DropClaim i] ?w)"
    by (rule others_frame_drops [OF drops_frame_run_drops])
  ultimately have "others_frame i w (run_drops [DropClaim i] ?w)" by (rule others_frame_trans)
  with \<open>others_frame i w ?w\<close> Some show ?thesis by (simp add: release_def exec_drop_listener_def Let_def split_beta)
qed (simp add: release_gone others_frame_same)

lemma others_take_down: "others_frame i w (take_down en i w)"
proof -
  let ?w1 = "put_task i (snd (claim (mem i w))) w"
  let ?w2 = "case fst (claim (mem i w)) of None \<Rightarrow> ?w1 | Some t \<Rightarrow> drop_erased i t ?w1"
  let ?w3 = "put_task i (snd (try_state Running Failed (mem i ?w2))) ?w2"
  let ?w4 = "if fst (try_state Running Failed (mem i ?w2)) then wake_listeners en i ?w3 else ?w3"
  have "others_frame i w ?w1" by (simp add: others_frame_same)
  moreover have "others_frame i ?w1 ?w2"
    by (auto simp: others_frame_same intro: others_frame_drops drops_frame_run_drops split: option.split)
  moreover have "others_frame i ?w2 ?w4" by (rule others_frame_same) simp
  ultimately have "others_frame i w (release i ?w4)" by (blast intro: others_frame_trans others_release)
  then show ?thesis by (simp add: take_down_def Let_def split_beta)
qed

lemma others_unpark: "others_frame i w (unpark en i w)"
proof (cases "fst (claim_parked (mem i w))")
  case None
  then show ?thesis by (auto simp: unpark_def split_beta intro: others_frame_same)
next
  case (Some parked)
  let ?w = "unwatch_park en i parked FiredNeither (put_task i (snd (claim_parked (mem i w))) w)"
  have "others_frame i w ?w" by (rule others_frame_same) (simp add: unwatch_world)
  then have "others_frame i w (take_down en i ?w)" by (rule others_frame_trans [OF _ others_take_down])
  with Some show ?thesis by (simp add: unpark_def Let_def split_beta)
qed

lemma others_settle: "others_frame i w (settle_slot en i w)"
proof -
  let ?w = "close_extras en i (if \<not> terminal (td_state (mem i w))
      then wake_listeners en i (on_task i (set_state Failed) w) else w)"
  have "others_frame i w ?w"
    by (rule others_frame_same) (simp add: close_extras_def far_calls_def Let_def split_beta split: option.split)
  then show ?thesis unfolding settle_slot_def Let_def by (rule others_frame_trans [OF _ others_release])
qed

lemma others_stop: "others_frame i w (stop_held en i w)"
proof -
  have d: "others_frame i w (on_task i disarm w)" by (rule others_frame_same) simp
  show ?thesis
    using d others_frame_trans [OF d others_unpark] others_frame_trans [OF d others_settle]
    by (auto simp: stop_held_def Let_def intro: others_frame_same split: option.split)
qed

text \<open>The executor holds on to a task only for a thread that is running it.\<close>

definition let_go :: "nat \<Rightarrow> ('u, 'v, 'f) world \<Rightarrow> bool" where
  "let_go i w \<longleftrightarrow>
     (case live_task i w of
        None \<Rightarrow> True
      | Some d \<Rightarrow> td_held d \<longrightarrow> td_state d = Running \<and> \<not> schedules (kind d) \<and> \<not> td_parked d)"

lemma let_go_release: "let_go i (release i w)"
proof (cases "live_task i w")
  case (Some d)
  then have "\<not> td_held (mem i (release i w))" by (simp add: release_clears)
  then show ?thesis by (auto simp: let_go_def live_iff split: option.split)
qed (simp add: release_gone let_go_def)

lemma let_go_take_down: "let_go i (take_down en i w)"
  unfolding take_down_def Let_def split_beta by (rule let_go_release)

lemma let_go_stop: "let_go i (stop_held en i w)"
proof (cases "live_task i w")
  case (Some d)
  let ?w = "on_task i disarm w"
  have p: "let_go i (unpark en i ?w)" if "td_parked d"
    using that Some by (simp add: unpark_def claim_parked_def disarm_def live_iff let_go_take_down)
  have "let_go i ?w" if "td_state d = Running" "\<not> schedules (kind d)" "\<not> td_parked d"
    using that Some by (auto simp: let_go_def disarm_def kind_def live_iff split: option.split)
  then show ?thesis using Some p by (simp add: stop_held_def settle_slot_def let_go_release Let_def)
qed (simp add: stop_held_def let_go_def)

lemma let_go_frame:
  assumes "others_frame j w w'" "around w' = around w" "i \<noteq> j" "let_go i w"
  shows "let_go i w'"
proof -
  have f: "slot_frame (mem i w) (mem i w')" "slot_ok i (wd_table w') = slot_ok i (wd_table w)"
    using assms(1,3) around_fields(4) [OF assms(2)] by (auto simp: others_frame_def)
  show ?thesis
  proof (cases "td_state (mem i w') = Free")
    case False
    with f have c: "core (mem i w') = core (mem i w)" by (simp add: slot_frame_def)
    with f(2) assms(4) show ?thesis
      by (auto simp: let_go_def live_iff live_none_iff kind_def core_fields [OF c] split: option.splits)
  qed (auto simp: let_go_def live_iff split: option.split)
qed

lemma let_go_stops: "i \<in> set is \<Longrightarrow> let_go i (fold (stop_held en) is w)"
proof (induction "is" arbitrary: w rule: rev_induct)
  case (snoc j js)
  then show ?case
    using let_go_stop [of i en] let_go_frame [OF others_stop [of j "fold (stop_held en) js w" en]]
    by (cases "i = j") auto
qed simp

lemma stop_threads_none:
  "stop_threads en others n w = Some x \<Longrightarrow> pl_live (wd_pool (snd x)) = 0 \<and> pl_sleeps_live (wd_pool (snd x)) = 0"
  by (erule stop_threads.raw_induct [where P = "\<lambda>en others n w x. pl_live (wd_pool (snd x)) = 0 \<and>
      pl_sleeps_live (wd_pool (snd x)) = 0", rotated])
    (auto elim!: bind_SomeE split: if_split_asm prod.split_asm)

lemma fail_drained_threads:
  assumes "fail_drained en w = Some w'"
  shows "pl_live (wd_pool w') = pl_live (wd_pool w)" "pl_sleeps_live (wd_pool w') = pl_sleeps_live (wd_pool w)"
proof -
  from assms obtain p ids where "w' = fold (fail en) ids (w\<lparr>wd_pool := p\<rparr>)" "pl_live p = pl_live (wd_pool w)"
      "pl_sleeps_live p = pl_sleeps_live (wd_pool w)"
    by (auto simp: fail_drained_def simp del: fold_append elim!: bind_SomeE)
  then show "pl_live (wd_pool w') = pl_live (wd_pool w)" "pl_sleeps_live (wd_pool w') = pl_sleeps_live (wd_pool w)"
    using around_fields(1,2) [of "fold (fail en) ids (w\<lparr>wd_pool := p\<rparr>)" "w\<lparr>wd_pool := p\<rparr>"] by simp_all
qed

text \<open>
  C22: a shutdown of a live runtime that returns has stopped it: the lifecycle says so, no
  worker and no sleep thread is left, and no slot of the table is still held for the
  executor, except for a task some thread outside the pool is in the middle of running.
\<close>
theorem shutdown_lets_everything_go:
  assumes "shutdown_now en others w = Some w'" "wd_lifecycle w = LIVE" "i < high_water (wd_table w')"
  shows "wd_lifecycle w' = STOPPED \<and> pl_live (wd_pool w') = 0 \<and> pl_sleeps_live (wd_pool w') = 0 \<and> let_go i w'"
proof -
  have "enter_shutdown others 0 w = Some (True, 0, w\<lparr>wd_lifecycle := STOPPING\<rparr>)"
    using assms(2) by (subst enter_shutdown.simps) simp
  with assms(1) obtain n1 w4 n2 w5 w6 where w5: "stop_threads en others n1 w4 = Some (n2, w5)"
    and w6: "fail_drained en w5 = Some w6"
    and w': "w' = (fold (stop_held en) [0..<high_water (wd_table w6)] w6)\<lparr>wd_lifecycle := STOPPED\<rparr>"
    by (auto simp: shutdown_now_def Let_def elim!: bind_SomeE)
  have a: "around w' = around w6" using w' by simp
  have "pl_live (wd_pool w5) = 0" "pl_sleeps_live (wd_pool w5) = 0" using stop_threads_none [OF w5] by simp_all
  then have "pl_live (wd_pool w') = 0" "pl_sleeps_live (wd_pool w') = 0"
    using around_fields(1,2) [OF a] fail_drained_threads [OF w6] by simp_all
  moreover have "let_go i (fold (stop_held en) [0..<high_water (wd_table w6)] w6)"
    using assms(3) around_fields(3) [OF a] by (intro let_go_stops) simp
  ultimately show ?thesis using w' by (simp add: let_go_def)
qed

lemma take_from_new: "take_from b injector_new tb = Some (None, injector_new, tb)"
proof -
  have "pop_ready b injector_new tb = Some (None, injector_new)"
    by (subst pop_ready.simps) (simp add: injector_new_def head_index_def)
  moreover have "flip b injector_new tb = Some (False, injector_new, tb)"
    by (simp add: flip_def injector_new_def head_index_def set_flipping_def set_incoming_def Let_def fun_upd_idem)
  ultimately show ?thesis by (subst take_from.simps) (simp add: next_of_def)
qed

lemma drain_new: "drain injector_new tb = Some ([], injector_new, tb)"
proof -
  have "pop_bands bs injector_new tb = Some (None, injector_new, tb)" for bs
    by (induction bs) (simp_all add: take_from_new)
  moreover have "in_relief injector_new = 0" by (simp add: injector_new_def)
  ultimately have "pop injector_new tb = Some (None, injector_new, tb)" by (simp add: pop_def pop_banded_def Let_def)
  then show ?thesis unfolding drain_def by (subst drain_bands.simps) simp
qed

definition demo_live :: "(nat, nat, nat) world" where
  "demo_live = (demo demo_slot)
     \<lparr>wd_pool := (wd_pool (demo demo_slot))\<lparr>pl_table := (wd_table (demo demo_slot))\<lparr>tb_next_id := 1\<rparr>\<rparr>, wd_lifecycle := LIVE\<rparr>"

lemma demo_live_shutdown: "\<exists>w'. shutdown_now demo_env (\<lambda>_ w. w) demo_live = Some w' \<and> high_water (wd_table w') = 1"
proof -
  let ?w = "demo_live\<lparr>wd_lifecycle := STOPPING, wd_pool := pool_close (wd_pool demo_live), wd_manager := DEAD_KQUEUE_ID\<rparr>"
  have e: "enter_shutdown (\<lambda>_ w. w) 0 demo_live = Some (True, 0, demo_live\<lparr>wd_lifecycle := STOPPING\<rparr>)"
    by (subst enter_shutdown.simps) (simp add: demo_live_def)
  have m: "wd_manager demo_live = DEAD_KQUEUE_ID" by (simp add: demo_live_def demo_def world_new_def)
  have d: "drain_tasks mc (\<lambda>_ w. w) n ?w = Some (n, ?w)" for mc n
    by (subst drain_tasks.simps)
      (simp add: has_any_task_def stats_def stats_busy_def stats_backlog_def demo_live_def demo_def world_new_def
        pool_close_def pool_new_def injector_new_def injector_len_def)
  have s: "stop_threads demo_env (\<lambda>_ w. w) n ?w = Some (n, ?w)" for n
    by (subst stop_threads.simps)
      (simp add: with_pool_def stop_all_def abandon_def sweep_all_def sweep_sleeps_def demo_live_def demo_def
        world_new_def pool_close_def pool_new_def)
  obtain w6 where f: "fail_drained demo_env ?w = Some w6" "w6 = ?w"
    by (simp add: fail_drained_def demo_live_def demo_def world_new_def pool_close_def pool_new_def drain_new)
  let ?w' = "(fold (stop_held demo_env) [0..<high_water (wd_table ?w)] ?w)\<lparr>wd_lifecycle := STOPPED\<rparr>"
  have "around ?w' = around ?w" by simp
  then have "high_water (wd_table ?w') = high_water (wd_table ?w)" by (rule around_fields(3))
  also have "\<dots> = 1" by (simp add: high_water_def demo_live_def pool_close_def)
  finally have h: "high_water (wd_table ?w') = 1" .
  have "shutdown_now demo_env (\<lambda>_ w. w) demo_live = Some ?w'"
    using e m d s f by (simp add: shutdown_now_def Let_def)
  with h show ?thesis by blast
qed

theorem shutdown_lets_everything_go_witness:
  "\<exists>w'. shutdown_now demo_env (\<lambda>_ w. w) demo_live = Some w' \<and> wd_lifecycle w' = STOPPED \<and> let_go 0 w'"
proof -
  obtain w' where w': "shutdown_now demo_env (\<lambda>_ w. w) demo_live = Some w'" "high_water (wd_table w') = 1"
    using demo_live_shutdown by blast
  have "wd_lifecycle demo_live = LIVE" by (simp add: demo_live_def)
  with shutdown_lets_everything_go [OF w'(1), of 0] w' show ?thesis by simp
qed

section \<open>A reactor that never started\<close>

lemma ready_at_once: "wd_ready w \<Longrightarrow> until_ready others n w = Some w"
  by (subst until_ready.simps) simp

lemma init_at_once:
  "wd_lifecycle w = STOPPED \<Longrightarrow> enter_init others n w = Some (True, w\<lparr>wd_lifecycle := STARTING\<rparr>)"
  by (subst enter_init.simps) simp

text \<open>
  when the kernel refuses the very first call for the reactor's queue, the start fails
  but counts as done. A second start succeeds without a reactor ever being started, and
  with the pool up the status says that everything, the reactor included, is healthy.
\<close>
theorem second_start_has_no_reactor:
  assumes "init_with others (Inl e) queue tn (runtime_new ck en) = Some (r, rt)"
    and "init_with others1 (Inr q1) (Inr q2) tn1 rt = Some (r1, rt1)"
  shows "r = Inl e \<and> r1 = Inr () \<and> rt_reactors rt1 = [] \<and> rs_reactor_alive (runtime_status_of rt1) \<and>
    (pl_live (wd_pool (rt_world rt1)) > 0 \<and> q2 \<noteq> DEAD_KQUEUE_ID \<and> pl_dead (wd_pool (rt_world rt1)) = 0 \<longrightarrow>
      healthy (runtime_status_of rt1))"
proof -
  from assms(1) have r: "r = Inl e"
    and rt: "rt = (runtime_new ck en)\<lparr>rt_init := True, rt_world := (world_new ck)\<lparr>wd_ready := True\<rparr>\<rparr>"
    by (simp_all add: init_with_def init_runtime_def runtime_new_def)
  let ?w = "(world_new ck)\<lparr>wd_ready := True\<rparr>"
  have u: "until_ready others1 0 ?w = Some ?w" by (simp add: ready_at_once)
  have n: "enter_init others1 0 ?w = Some (True, ?w\<lparr>wd_lifecycle := STARTING\<rparr>)"
    by (simp add: init_at_once world_new_def)
  from assms(2) show ?thesis
    using r by (auto simp: rt init_with_def executor_init_def exec_init_def u n runtime_new_def runtime_status_of_def
        healthy_def shutting_down_def manager_alive_def DEAD_KQUEUE_ID_def Let_def)
qed

theorem second_start_has_no_reactor_witness:
  "\<exists>rt rt1. init_with (\<lambda>_ w. w) (Inl (CheckError None)) (Inr 4) tuning_new
      (runtime_new \<lparr>ck_now = 10, ck_epoch = 0, ck_limit = 1000\<rparr> demo_env) = Some (Inl (CheckError None), rt) \<and>
    init_with (\<lambda>_ w. w) (Inr 3) (Inr 4) tuning_new rt = Some (Inr (), rt1) \<and> rt_reactors rt1 = []"
proof -
  let ?rt0 = "runtime_new \<lparr>ck_now = 10, ck_epoch = 0, ck_limit = 1000\<rparr> demo_env"
  obtain r rt where a: "init_with (\<lambda>_ w. w) (Inl (CheckError None)) (Inr 4) tuning_new ?rt0 = Some (r, rt)"
    by (simp add: init_with_def init_runtime_def runtime_new_def)
  have rt: "rt_init rt" "wd_ready (rt_world rt)" "wd_lifecycle (rt_world rt) = STOPPED"
    using a by (auto simp: init_with_def init_runtime_def runtime_new_def world_new_def)
  obtain r1 rt1 where b: "init_with (\<lambda>_ w. w) (Inr 3) (Inr 4) tuning_new rt = Some (r1, rt1)"
    using rt by (simp add: init_with_def executor_init_def exec_init_def ready_at_once init_at_once Let_def)
  from second_start_has_no_reactor [OF a b] a b show ?thesis by blast
qed

end
