(* ===== verification/Waiting_Facts.thy ===== *)
theory Waiting_Facts
  imports Waiting Manager_Facts "HOL-Library.Multiset" "HOL-Library.Sublist"
begin

text \<open>
  What waiting guarantees: an answer is the task's own settled state, the wait gives up only
  at its deadline, a thread asleep on a task learns of its settling, and the race of several
  handles returns one that has settled and the others in order.
\<close>

section \<open>What a wait leaves alone\<close>

lemma patience_drop_world [simp]:
  "mem i (patience_drop pt w) = mem i w" "wd_clock (patience_drop pt w) = wd_clock w"
  "wd_table (patience_drop pt w) = wd_table w"
  by (simp_all add: patience_drop_def on_worker_def put_worker_def blocked_out_def Let_def split: option.split)

lemma past_drop [simp]: "past deadline (patience_drop pt w) = past deadline w"
  by (simp add: past_def split: option.split)

section \<open>Answers\<close>

definition answers_truly :: "nat \<Rightarrow> nat option \<Rightarrow> task_state res ended \<Rightarrow> ('u, 'v, 'f) world \<Rightarrow> bool" where
  "answers_truly i deadline r w \<longleftrightarrow>
     (\<forall>st. r = Returned (Inr st) \<longrightarrow> terminal st \<and> td_state (mem i w) = st) \<and>
     (r = Returned (Inl NotReady) \<longrightarrow> past deadline w)"

lemma answers_truly_simps [simp]:
  "answers_truly i deadline (Returned (Inr st)) w \<longleftrightarrow> terminal st \<and> td_state (mem i w) = st"
  "answers_truly i deadline (Returned (Inl e)) w \<longleftrightarrow> (e = NotReady \<longrightarrow> past deadline w)"
  "answers_truly i deadline ThreadGone w"
  by (auto simp: answers_truly_def)

lemma wait_loop_true:
  assumes "wait_loop en code sleeps i deadline n pt w = Some x"
    and "\<And>n l st w. fst (sleeps n l st w) \<noteq> Inl NotReady"
  shows "answers_truly i deadline (fst x) (snd (snd (snd x)))"
proof -
  have "(\<forall>n l st w w'. sleeps n l st w \<noteq> (Inl NotReady, w')) \<longrightarrow> answers_truly i deadline (fst x) (snd (snd (snd x)))"
    using assms(1)
  proof (rule wait_loop.raw_induct [where P = "\<lambda>en code sleeps i deadline n pt w x.
      (\<forall>n l st w w'. sleeps n l st w \<noteq> (Inl NotReady, w')) \<longrightarrow> answers_truly i deadline (fst x) (snd (snd (snd x)))",
      rotated], goal_cases)
    case (1 f en code sleeps i deadline n pt w x)
    note IH = 1(1)
    from 1(2) show ?case
      by (auto simp: Let_def split: if_split_asm prod.split_asm sum.split_asm elim!: bind_SomeE) (blast dest: IH)+
  qed
  with assms(2) show ?thesis by (metis fst_conv)
qed

section \<open>A thread outside the pool\<close>

text \<open>Such a thread has nothing to help with, and only sleeps.\<close>

lemma outside_no_help: "wd_worker w = None \<Longrightarrow> awaited_or_help en code i w = Some (NoHelp, w)"
  by (simp add: awaited_or_help_def run_awaited_def help_once_def)

lemma outside_slice:
  "wd_worker w = None \<Longrightarrow> manager_alive w \<Longrightarrow> patience_slice en pt w = Some (None, pt, w)"
  by (simp add: patience_slice_def)

lemma outside_round:
  assumes "wd_worker w = None" "manager_alive w" "\<not> past deadline w" "\<not> terminal (td_state (mem i w))"
    and "sleeps n (sleep_for deadline None w) (td_state (mem i w)) w = (Inr True, w1)"
  shows "wait_loop en code sleeps i deadline n pt w = wait_loop en code sleeps i deadline (n + 1) pt w1"
  using assms by (subst wait_loop.simps) (simp add: outside_no_help outside_slice)

lemma outside_waits:
  assumes "\<And>m. n \<le> m \<Longrightarrow> m < k \<Longrightarrow> wd_worker (u m) = None \<and> manager_alive (u m) \<and> \<not> past deadline (u m) \<and>
      (\<forall>l st. sleeps m l st (u m) = (Inr True, u (Suc m)))"
    and "terminal (td_state (mem i (u k)))" "n \<le> k"
  shows "\<exists>j\<ge>n. j \<le> k \<and> terminal (td_state (mem i (u j))) \<and> (\<forall>m. n \<le> m \<and> m < j \<longrightarrow> \<not> terminal (td_state (mem i (u m)))) \<and>
    wait_loop en code sleeps i deadline n pt (u n) = Some (Returned (Inr (td_state (mem i (u j)))), j, pt, u j)"
  using assms(3,1)
proof (induction rule: inc_induct)
  case base
  then show ?case using assms(2) by (subst wait_loop.simps) auto
next
  case (step n)
  show ?case
  proof (cases "terminal (td_state (mem i (u n)))")
    case True
    then show ?thesis using step.hyps by (intro exI [of _ n]) (subst wait_loop.simps, auto)
  next
    case False
    have u: "wd_worker (u n) = None" "manager_alive (u n)" "\<not> past deadline (u n)"
        "\<And>l st. sleeps n l st (u n) = (Inr True, u (Suc n))"
      using step.prems [of n] step.hyps by auto
    obtain j where j: "j \<ge> Suc n" "j \<le> k" "terminal (td_state (mem i (u j)))"
        "\<forall>m. Suc n \<le> m \<and> m < j \<longrightarrow> \<not> terminal (td_state (mem i (u m)))"
        "wait_loop en code sleeps i deadline (Suc n) pt (u (Suc n)) = Some (Returned (Inr (td_state (mem i (u j)))), j, pt, u j)"
      using step.IH [OF step.prems] by auto
    have "wait_loop en code sleeps i deadline n pt (u n) = wait_loop en code sleeps i deadline (Suc n) pt (u (Suc n))"
      using outside_round [OF u(1-3) False, of sleeps n] u(4) by simp
    then show ?thesis using j False by (intro exI [of _ j]) (auto simp: le_Suc_eq Suc_le_eq dest: le_neq_implies_less)
  qed
qed

section \<open>The first of several\<close>

definition nothing_left :: "nat \<Rightarrow> ('u, 'v, 'f) world \<Rightarrow> bool" where
  "nothing_left i w \<longleftrightarrow> (case live_task i w of None \<Rightarrow> True | Some d \<Rightarrow> terminal (td_state d))"

lemma nothing_left_iff: "nothing_left i w \<longleftrightarrow> \<not> slot_ok i (wd_table w) \<or> td_state (mem i w) = Free \<or> terminal (td_state (mem i w))"
  by (auto simp: nothing_left_def live_slot_simps split: option.split)

lemma settled_any_some:
  assumes "settled_any ids w = Some i"
  shows "i \<in> set ids \<and> nothing_left i w"
  using assms unfolding settled_any_def nothing_left_def find_Some_iff by (auto split: option.split option.split_asm)

lemma unregister_left [simp]: "nothing_left i (unregister_select q j w) = nothing_left i w"
  by (simp add: nothing_left_iff unregister_select_def clear_select_def)

lemma unregister_all_left [simp]: "nothing_left i (fold (unregister_select q) js w) = nothing_left i w"
  by (induction js arbitrary: w) simp_all

lemma drop_left [simp]: "nothing_left i (patience_drop pt w) = nothing_left i w"
  by (simp add: nothing_left_iff)

lemma select_loop_settles:
  assumes "select_loop en code wakes queued_up ids n pt w = Some x"
  shows "\<forall>i. fst x = Returned i \<longrightarrow> i \<in> set ids \<and> nothing_left i (snd (snd x))"
  using assms
proof (rule select_loop.raw_induct [where P = "\<lambda>en code wakes queued_up ids n pt w x.
    \<forall>i. fst x = Returned i \<longrightarrow> i \<in> set ids \<and> nothing_left i (snd (snd x))", rotated], goal_cases)
  case (1 f en code wakes queued_up ids n pt w x)
  note IH = 1(1)
  from 1(2) show ?case
    by (auto simp: Let_def settled_any_some split: if_split_asm prod.split_asm option.split_asm
        elim!: bind_SomeE) (drule IH, simp)+
qed

lemma join_first_settles:
  assumes "join_first en code wakes queue ids w = Some (Returned r, w')" "ids \<noteq> []"
  shows "\<exists>i. r = Some i \<and> i \<in> set ids \<and> nothing_left i w'"
proof -
  have map: "\<exists>i. got = Returned i \<and> r = Some i" if "map_ended Some got = Returned r" for got
    using that by (cases got) auto
  show ?thesis
  proof (cases "settled_any ids w")
    case (Some i)
    then have "join_first en code wakes queue ids w = Some (Returned (Some i), w)"
      using assms(2) by (simp add: join_first_def)
    with assms(1) settled_any_some [OF Some] show ?thesis by (intro exI [of _ i]) simp
  next
    case None
    with assms show ?thesis
      by (auto simp: join_first_def Let_def split: sum.split_asm prod.split_asm elim!: bind_SomeE
          dest!: map select_loop_settles)
  qed
qed

lemma remove_first:
  assumes "x \<in> set xs"
  shows "\<exists>ys zs. xs = ys @ x # zs \<and> x \<notin> set ys \<and> remove_at (position_of x xs) xs = ys @ zs"
proof -
  obtain ys zs where xs: "xs = ys @ x # zs" "x \<notin> set ys" using split_list_first [OF assms] by blast
  have "position_of x xs = length ys" using xs by (simp add: position_of_def takeWhile_append takeWhile_eq_all_conv)
  moreover have "remove_at (length ys) (ys @ x # zs) = ys @ zs" by (induction ys) simp_all
  ultimately show ?thesis using xs by (intro exI [of _ ys] exI [of _ zs]) simp
qed

section \<open>A wait, run\<close>

definition waiting_demo :: "(nat, nat, nat) world" where
  "waiting_demo = (demo demo_slot)\<lparr>wd_manager := 7\<rparr>"

lemma waiting_demo_simps [simp]:
  "mem 0 waiting_demo = demo_slot" "live_task 0 waiting_demo = Some demo_slot" "wd_worker waiting_demo = None"
  "manager_alive waiting_demo" "td_state demo_slot = Pending"
  by (simp_all add: waiting_demo_def live_slot_simps manager_alive_def DEAD_KQUEUE_ID_def demo_slot_def)
    (simp_all add: demo_def world_new_def)

lemma waiting_demo_settles:
  "wait_until en code (\<lambda>n l st w. (Inr True, put_task 0 (set_state Cancelled demo_slot) w)) 0 None 0 waiting_demo =
    Some (Returned (Inr Cancelled), 1, put_task 0 (set_state Cancelled demo_slot) waiting_demo)"
  by (simp add: wait_until_def wait_loop.simps outside_no_help outside_slice past_def patience_drop_def
      patience_new_def set_state_def)

section \<open>Properties\<close>

text \<open>
  C27: a wait answers truly: the state it returns is the settled state the slot has at that
  moment, and it says not ready only once its deadline has passed, whatever the thread
  helped with and however often it slept.
\<close>
theorem wait_answers_truly:
  assumes "wait_until en code sleeps i deadline n w = Some (r, n1, w')" "live_task i w \<noteq> None"
    and "\<And>n l st w. fst (sleeps n l st w) \<noteq> Inl NotReady"
  shows "(\<forall>st. r = Returned (Inr st) \<longrightarrow> terminal st \<and> td_state (mem i w') = st) \<and>
    (r = Returned (Inl NotReady) \<longrightarrow> past deadline w')"
proof -
  obtain pt w1 where l: "wait_loop en code sleeps i deadline n patience_new w = Some (r, n1, pt, w1)"
    and w': "w' = patience_drop pt w1"
    using assms(1,2) by (auto simp: wait_until_def elim!: bind_SomeE)
  from wait_loop_true [OF l assms(3)] show ?thesis by (simp add: answers_truly_def w')
qed

theorem wait_answers_truly_witness:
  "\<exists>r n1 w'. wait_until demo_env (\<lambda>i resumed input u w. (Stepped (Done (u + 2)) u, w))
      (\<lambda>n l st w. (Inr True, put_task 0 (set_state Cancelled demo_slot) w)) 0 None 0 waiting_demo = Some (r, n1, w') \<and>
    r = Returned (Inr Cancelled) \<and> td_state (mem 0 w') = Cancelled"
proof -
  let ?sleeps = "\<lambda>n l st w. (Inr True, put_task 0 (set_state Cancelled demo_slot) w)"
  let ?code = "\<lambda>i resumed input u w. (Stepped (Done (u + 2)) u, w)"
  have "wait_until demo_env ?code ?sleeps 0 None 0 waiting_demo =
      Some (Returned (Inr Cancelled), 1, put_task 0 (set_state Cancelled demo_slot) waiting_demo)"
    using waiting_demo_settles [of demo_env ?code] by simp
  with wait_answers_truly [OF this] show ?thesis by simp
qed



text \<open>
  C29: racing several handles returns one whose task has nothing left to wait for, and with
  the policy that hands the others back, hands back every other one, in the order given.
\<close>
theorem join_first_hands_back:
  assumes "runtime_join_first en code wakes queue gives PassBack ids w = Some (Returned (winner, rest), w')" "ids \<noteq> []"
  shows "nothing_left winner w' \<and>
    (\<exists>xs ys. ids = xs @ winner # ys \<and> winner \<notin> set xs \<and> rest = Some (xs @ ys))"
proof -
  from assms(1) obtain got w1 where g: "join_first en code wakes queue ids w = Some (got, w1)"
    by (auto simp: runtime_join_first_def elim!: bind_SomeE)
  with assms(1) obtain r where r: "got = Returned r" by (cases got) (auto simp: runtime_join_first_def)
  from join_first_settles [OF g [unfolded r] assms(2)]
  obtain i where i: "r = Some i" "i \<in> set ids" "nothing_left i w1" by blast
  with assms(1) g r remove_first [OF i(2)] show ?thesis by (auto simp: runtime_join_first_def Let_def)
qed

theorem join_first_hands_back_witness:
  "\<exists>w'. runtime_join_first demo_env (\<lambda>i resumed input u w. (Stepped (Done (u + 2)) u, w)) (\<lambda>n p w. w) (Inr 4) False
      PassBack [0, 5] (demo (demo_slot\<lparr>td_state := Ready\<rparr>)) = Some (Returned (0, Some [5]), w') \<and> nothing_left 0 w'"
proof -
  let ?w = "demo (demo_slot\<lparr>td_state := Ready\<rparr>)"
  have r: "runtime_join_first demo_env (\<lambda>i resumed input u w. (Stepped (Done (u + 2)) u, w)) (\<lambda>n p w. w) (Inr 4) False
      PassBack [0, 5] ?w = Some (Returned (0, Some [5]), ?w)"
    by (simp add: runtime_join_first_def join_first_def settled_any_def position_of_def)
  with join_first_hands_back [OF r] show ?thesis by simp
qed

end
