(* ===== verification/Channel.thy ===== *)
theory Channel
  imports Kernel_Events Queue_Spec
begin

text \<open>
  Channels, in \<open>src/futures/channel\<close>: \<open>core.rs\<close> (the values, who holds an end, and the two
  doorbells), \<open>channel.rs\<close>, \<open>ends.rs\<close> and the two tasks of \<open>channel_task.rs\<close>.

  Everything \<open>Core\<close> does is under its lock, so an operation is one step. A doorbell is the
  number of bytes waiting to be read from it. \<open>takes n\<close> says whether the kernel takes another
  byte while \<open>n\<close> are waiting, since the result of the write is not looked at.
\<close>

section \<open>The core\<close>

record 'a core =
  co_queue :: "'a list"
  co_capacity :: "nat option"
  co_senders :: nat
  co_receivers :: nat
  co_items_ring :: int
  co_items_bell :: int
  co_room_ring :: int
  co_room_bell :: int
  co_items :: nat
  co_room :: nat

datatype 'a refused = RefusedClosed | RefusedFull 'a

definition ring_bell :: "(nat \<Rightarrow> bool) \<Rightarrow> nat \<Rightarrow> nat" where
  "ring_bell takes n = (if takes n then n + 1 else n)"

definition drain_bell :: "nat \<Rightarrow> nat" where
  "drain_bell n = 0"

text \<open>
  The kernel's answers in the order of the calls: the pair, the two settings and the two
  copies. Beside the result are the descriptors closed again by a failure.
\<close>

definition core_open ::
  "(nat \<Rightarrow> bool) \<Rightarrow> (int \<times> int) res \<Rightarrow> unit res \<Rightarrow> unit res \<Rightarrow> int res \<Rightarrow> int res \<Rightarrow> nat option
    \<Rightarrow> 'a core res \<times> int list" where
  "core_open takes pair set1 set2 dup1 dup2 capacity =
     (case pair of
        Inl e \<Rightarrow> (Inl e, [])
      | Inr (first, second) \<Rightarrow>
          (case set1 of
             Inl e \<Rightarrow> (Inl e, [second, first])
           | Inr _ \<Rightarrow>
               (case set2 of
                  Inl e \<Rightarrow> (Inl e, [second, first])
                | Inr _ \<Rightarrow>
                    (case dup1 of
                       Inl e \<Rightarrow> (Inl e, [second, first])
                     | Inr items_ring \<Rightarrow>
                         (case dup2 of
                            Inl e \<Rightarrow> (Inl e, [items_ring, second, first])
                          | Inr room_ring \<Rightarrow>
                              (Inr \<lparr>co_queue = [], co_capacity = capacity, co_senders = 1, co_receivers = 1,
                                    co_items_ring = items_ring, co_items_bell = second,
                                    co_room_ring = room_ring, co_room_bell = first, co_items = 0,
                                    co_room = (if capacity \<noteq> None then ring_bell takes 0 else 0)\<rparr>, []))))))"

definition core_full :: "'a core \<Rightarrow> bool" where
  "core_full c \<longleftrightarrow> co_capacity c = Some (length (co_queue c))"

definition core_push :: "(nat \<Rightarrow> bool) \<Rightarrow> 'a \<Rightarrow> 'a core \<Rightarrow> ('a refused + unit) \<times> 'a core" where
  "core_push takes v c =
     (if co_receivers c = 0 then (Inl RefusedClosed, c)
      else if (case co_capacity c of None \<Rightarrow> False | Some cap \<Rightarrow> length (co_queue c) \<ge> cap)
      then (Inl (RefusedFull v), c)
      else
        (let was_empty = (co_queue c = []);
             c1 = c\<lparr>co_queue := co_queue c @ [v]\<rparr>;
             c2 = (if was_empty \<and> co_senders c1 > 0 then c1\<lparr>co_items := ring_bell takes (co_items c1)\<rparr> else c1)
         in (Inr (), if core_full c2 then c2\<lparr>co_room := drain_bell (co_room c2)\<rparr> else c2)))"

definition core_pop :: "(nat \<Rightarrow> bool) \<Rightarrow> 'a core \<Rightarrow> 'a res \<times> 'a core" where
  "core_pop takes c =
     (let was_full = core_full c in
      case co_queue c of
        [] \<Rightarrow> (Inl (if co_senders c = 0 then Closed else NotReady), c)
      | v # vs \<Rightarrow>
          (let c1 = c\<lparr>co_queue := vs\<rparr>;
               c2 = (if vs = [] \<and> co_senders c1 > 0 then c1\<lparr>co_items := drain_bell (co_items c1)\<rparr> else c1)
           in (Inr v, if was_full then c2\<lparr>co_room := ring_bell takes (co_room c2)\<rparr> else c2)))"

definition add_sender :: "'a core \<Rightarrow> 'a core" where
  "add_sender c = c\<lparr>co_senders := co_senders c + 1\<rparr>"

definition drop_sender :: "(nat \<Rightarrow> bool) \<Rightarrow> 'a core \<Rightarrow> 'a core" where
  "drop_sender takes c =
     (let c1 = c\<lparr>co_senders := co_senders c - 1\<rparr> in
      if co_senders c1 = 0 \<and> co_queue c1 = [] then c1\<lparr>co_items := ring_bell takes (co_items c1)\<rparr> else c1)"

definition add_receiver :: "'a core \<Rightarrow> 'a core" where
  "add_receiver c = c\<lparr>co_receivers := co_receivers c + 1\<rparr>"

definition drop_receiver :: "(nat \<Rightarrow> bool) \<Rightarrow> 'a core \<Rightarrow> 'a core" where
  "drop_receiver takes c =
     (let c1 = c\<lparr>co_receivers := co_receivers c - 1\<rparr> in
      if co_receivers c1 = 0 \<and> core_full c1 then c1\<lparr>co_room := ring_bell takes (co_room c1)\<rparr> else c1)"

definition core_len :: "'a core \<Rightarrow> nat" where
  "core_len c = length (co_queue c)"

section \<open>The ends and their tasks\<close>

definition bounded_capacity :: "nat \<Rightarrow> nat" where
  "bounded_capacity capacity = max capacity 1"

definition unbounded_send :: "(nat \<Rightarrow> bool) \<Rightarrow> 'a \<Rightarrow> 'a core \<Rightarrow> unit res \<times> 'a core" where
  "unbounded_send takes v c =
     (case core_push takes v c of
        (Inr _, c1) \<Rightarrow> (Inr (), c1)
      | (Inl _, c1) \<Rightarrow> (Inl Closed, c1))"

text \<open>A refused value comes back as \<open>Some\<close>.\<close>

definition try_send :: "(nat \<Rightarrow> bool) \<Rightarrow> 'a \<Rightarrow> 'a core \<Rightarrow> 'a option res \<times> 'a core" where
  "try_send takes v c =
     (case core_push takes v c of
        (Inr _, c1) \<Rightarrow> (Inr None, c1)
      | (Inl (RefusedFull v), c1) \<Rightarrow> (Inr (Some v), c1)
      | (Inl RefusedClosed, c1) \<Rightarrow> (Inl Closed, c1))"

definition recv_advance :: "(nat \<Rightarrow> bool) \<Rightarrow> 'a core \<Rightarrow> 'a res step \<times> 'a core" where
  "recv_advance takes c =
     (case core_pop takes c of
        (Inl NotReady, c1) \<Rightarrow> (settle (wait_on (co_items_bell c1) EVFILT_READ), c1)
      | (got, c1) \<Rightarrow> (Done got, c1))"

text \<open>The value of a send task is shared by its copies: \<open>slot\<close> is it, until it is in.\<close>

definition send_advance ::
  "(nat \<Rightarrow> bool) \<Rightarrow> 'a option \<Rightarrow> 'a core \<Rightarrow> unit res step \<times> 'a option \<times> 'a core" where
  "send_advance takes slot c =
     (case slot of
        None \<Rightarrow> (Done (Inl Finished), None, c)
      | Some v \<Rightarrow>
          (case core_push takes v c of
             (Inr _, c1) \<Rightarrow> (Done (Inr ()), None, c1)
           | (Inl RefusedClosed, c1) \<Rightarrow> (Done (Inl Closed), None, c1)
           | (Inl (RefusedFull v), c1) \<Rightarrow> (settle (wait_on (co_room_bell c1) EVFILT_READ), Some v, c1)))"

section \<open>Any number of ends\<close>

text \<open>
  What any holder of an end can do next, with every value that went in and every value that
  came out. An end that exists is counted, so its operations need a count above nothing.
\<close>

datatype 'a chan_op = Send 'a | Recv | CloneSender | CloneReceiver | DropSender | DropReceiver

fun chan_allowed :: "'a chan_op \<Rightarrow> 'a core \<Rightarrow> bool" where
  "chan_allowed (Send v) c \<longleftrightarrow> co_senders c > 0"
| "chan_allowed Recv c \<longleftrightarrow> co_receivers c > 0"
| "chan_allowed CloneSender c \<longleftrightarrow> co_senders c > 0"
| "chan_allowed CloneReceiver c \<longleftrightarrow> co_receivers c > 0"
| "chan_allowed DropSender c \<longleftrightarrow> co_senders c > 0"
| "chan_allowed DropReceiver c \<longleftrightarrow> co_receivers c > 0"

fun chan_do :: "(nat \<Rightarrow> bool) \<Rightarrow> 'a chan_op \<Rightarrow> 'a core \<Rightarrow> 'a list \<times> 'a list \<times> 'a core" where
  "chan_do takes (Send v) c =
     (case core_push takes v c of (Inr _, c1) \<Rightarrow> ([v], [], c1) | (Inl _, c1) \<Rightarrow> ([], [], c1))"
| "chan_do takes Recv c =
     (case core_pop takes c of (Inr v, c1) \<Rightarrow> ([], [v], c1) | (Inl _, c1) \<Rightarrow> ([], [], c1))"
| "chan_do takes CloneSender c = ([], [], add_sender c)"
| "chan_do takes CloneReceiver c = ([], [], add_receiver c)"
| "chan_do takes DropSender c = ([], [], drop_sender takes c)"
| "chan_do takes DropReceiver c = ([], [], drop_receiver takes c)"

inductive chan_run :: "(nat \<Rightarrow> bool) \<Rightarrow> 'a core \<Rightarrow> 'a list \<Rightarrow> 'a list \<Rightarrow> 'a core \<Rightarrow> bool" for takes c0 where
  run_start: "chan_run takes c0 [] [] c0"
| run_step: "chan_run takes c0 ins outs c \<Longrightarrow> chan_allowed op c \<Longrightarrow> chan_do takes op c = (i, out, c1)
    \<Longrightarrow> chan_run takes c0 (ins @ i) (outs @ out) c1"

text \<open>A byte sits in a bell exactly while the end that parks on it has something to do.\<close>

definition recv_can_move :: "'a core \<Rightarrow> bool" where
  "recv_can_move c \<longleftrightarrow> co_queue c \<noteq> [] \<or> co_senders c = 0"

definition send_can_move :: "'a core \<Rightarrow> bool" where
  "send_can_move c \<longleftrightarrow>
     (case co_capacity c of None \<Rightarrow> False | Some cap \<Rightarrow> length (co_queue c) < cap \<or> co_receivers c = 0)"

definition core_ok :: "'a core \<Rightarrow> bool" where
  "core_ok c \<longleftrightarrow>
     (case co_capacity c of None \<Rightarrow> True | Some cap \<Rightarrow> 0 < cap \<and> length (co_queue c) \<le> cap) \<and>
     co_items c = of_bool (recv_can_move c) \<and> co_room c = of_bool (send_can_move c)"

text \<open>The copies of one send task, each advancing after whatever the other ends did.\<close>

fun send_copies ::
  "(nat \<Rightarrow> bool) \<Rightarrow> ('a core \<Rightarrow> 'a core) list \<Rightarrow> 'a option \<Rightarrow> 'a core
    \<Rightarrow> unit res step list \<times> 'a option \<times> 'a core" where
  "send_copies takes [] slot c = ([], slot, c)"
| "send_copies takes (f # fs) slot c =
     (let (r, slot1, c1) = send_advance takes slot (f c);
          (rs, slot2, c2) = send_copies takes fs slot1 c1
      in (r # rs, slot2, c2))"

definition recv_step :: "(nat \<Rightarrow> bool) \<Rightarrow> unit \<Rightarrow> 'a core \<Rightarrow> 'a res step \<times> unit \<times> 'a core" where
  "recv_step takes t c = (let (r, c1) = recv_advance takes c in (r, t, c1))"

text \<open>A channel with one end of each kind and nothing in it.\<close>

definition idle_core :: "'a core" where
  "idle_core = \<lparr>co_queue = [], co_capacity = None, co_senders = 1, co_receivers = 1, co_items_ring = 5,
     co_items_bell = 4, co_room_ring = 6, co_room_bell = 3, co_items = 0, co_room = 0\<rparr>"

section \<open>Facts\<close>

lemmas core_defs = core_push_def core_pop_def add_sender_def drop_sender_def add_receiver_def
  drop_receiver_def core_full_def ring_bell_def drain_bell_def Let_def

lemma open_ok:
  assumes "fst (core_open takes pair set1 set2 dup1 dup2 capacity) = Inr c" "takes 0" "capacity \<noteq> Some 0"
  shows "core_ok c \<and> co_queue c = []"
  using assms
  by (auto simp: core_open_def core_ok_def recv_can_move_def send_can_move_def ring_bell_def
      split: sum.split_asm prod.split_asm option.split)

lemma push_ok:
  assumes "core_ok c" "takes 0" "co_senders c > 0"
  shows "core_ok (snd (core_push takes v c)) \<and>
    (fst (core_push takes v c) = Inr () \<and> co_queue (snd (core_push takes v c)) = co_queue c @ [v] \<or>
     (\<exists>e. fst (core_push takes v c) = Inl e) \<and> snd (core_push takes v c) = c)"
proof (cases "co_capacity c")
  case None
  with assms show ?thesis
    by (cases "co_queue c") (simp_all add: core_defs core_ok_def recv_can_move_def send_can_move_def)
next
  case (Some cap)
  with assms show ?thesis
    by (cases "co_queue c")
      (auto simp: core_defs core_ok_def recv_can_move_def send_can_move_def of_bool_def)
qed

lemma pop_ok:
  assumes "core_ok c" "takes 0" "co_receivers c > 0"
  shows "core_ok (snd (core_pop takes c)) \<and>
    (case co_queue c of
       [] \<Rightarrow> core_pop takes c = (Inl (if co_senders c = 0 then Closed else NotReady), c)
     | v # vs \<Rightarrow> fst (core_pop takes c) = Inr v \<and> co_queue (snd (core_pop takes c)) = vs)"
proof (cases "co_queue c")
  case Nil
  with assms show ?thesis by (simp add: core_pop_def)
next
  case (Cons v vs)
  with assms show ?thesis
    by (cases "co_capacity c"; cases vs)
      (auto simp: core_defs core_ok_def recv_can_move_def send_can_move_def of_bool_def)
qed

lemma ends_ok:
  assumes "core_ok c" "takes 0"
  shows "co_senders c > 0 \<Longrightarrow> core_ok (add_sender c) \<and> co_queue (add_sender c) = co_queue c"
    "co_receivers c > 0 \<Longrightarrow> core_ok (add_receiver c) \<and> co_queue (add_receiver c) = co_queue c"
    "co_senders c > 0 \<Longrightarrow> core_ok (drop_sender takes c) \<and> co_queue (drop_sender takes c) = co_queue c"
    "co_receivers c > 0 \<Longrightarrow> core_ok (drop_receiver takes c) \<and> co_queue (drop_receiver takes c) = co_queue c"
  using assms
  by (auto simp: core_defs core_ok_def recv_can_move_def send_can_move_def split: option.split)

lemma chan_do_ok:
  assumes "core_ok c" "takes 0" "chan_allowed op c" "chan_do takes op c = (i, out, c1)"
  shows "core_ok c1 \<and> co_queue c @ i = out @ co_queue c1"
proof (cases op)
  case (Send v)
  with assms push_ok [of c takes v] show ?thesis by (auto split: prod.split_asm sum.split_asm)
next
  case Recv
  with assms pop_ok [of c takes] show ?thesis by (auto split: prod.split_asm sum.split_asm list.split_asm)
qed (use assms ends_ok [of c takes] in auto)

lemma chan_run_ok:
  assumes "chan_run takes c0 ins outs c" "core_ok c0" "takes 0"
  shows "core_ok c \<and> co_queue c0 @ ins = outs @ co_queue c"
  using assms(1)
proof (induction rule: chan_run.induct)
  case run_start
  then show ?case using assms(2) by simp
next
  case (run_step ins outs c op i out c1)
  have h: "core_ok c1" "co_queue c @ i = out @ co_queue c1"
    using chan_do_ok [of c takes op i out c1] run_step assms(3) by auto
  have "co_queue c0 @ ins @ i = (outs @ co_queue c) @ i" using run_step.IH by simp
  with h show ?case by simp
qed

lemma push_answer:
  assumes "co_receivers c > 0"
  shows "fst (core_push takes v c) = Inr () \<or> fst (core_push takes v c) = Inl (RefusedFull v)"
  using assms by (auto simp: core_defs split: option.split)

interpretation chan_queue: fifo
  "\<lambda>c xs. takes 0 \<and> core_ok c \<and> co_senders c > 0 \<and> co_receivers c > 0 \<and> co_queue c = xs"
  "\<lambda>x c. fst (core_push takes x c) = Inr ()" "\<lambda>x c. snd (core_push takes x c)"
  "\<lambda>c. Some (case core_pop takes c of (Inr v, c1) \<Rightarrow> (Some v, c1) | (Inl _, c1) \<Rightarrow> (None, c1))"
  for takes :: "nat \<Rightarrow> bool"
proof (unfold_locales, goal_cases)
  case (1 c xs x)
  then show ?case using push_ok [of c takes x] by (auto simp: core_defs split: if_split_asm)
next
  case (2 c)
  then show ?case by (auto simp: core_pop_def)
next
  case (3 c x xs)
  then show ?case using pop_ok [of c takes] by (auto simp: core_defs)
qed

section \<open>Properties\<close>

text \<open>
  C23: a channel delivers every value that went in once and in order. Whatever any number of
  senders and receivers do, cloning and dropping their ends included, the values accepted
  are those received so far followed by those still waiting, and a bounded channel never
  holds more than its capacity.
\<close>
theorem channel_in_order:
  assumes "fst (core_open takes pair set1 set2 dup1 dup2 capacity) = Inr c0" "takes 0" "capacity \<noteq> Some 0"
    and "chan_run takes c0 ins outs c"
  shows "ins = outs @ co_queue c \<and> (\<forall>cap. co_capacity c = Some cap \<longrightarrow> length (co_queue c) \<le> cap)"
proof -
  have o: "core_ok c0" "co_queue c0 = []" using open_ok assms(1-3) by blast+
  with chan_run_ok [OF assms(4) o(1) assms(2)] show ?thesis by (auto simp: core_ok_def)
qed

theorem channel_in_order_witness:
  "\<exists>c. chan_run (\<lambda>n. n < 1) (projr (fst (core_open (\<lambda>n. n < 1) (Inr (3, 4)) (Inr ()) (Inr ()) (Inr 5) (Inr 6) (Some 2))))
      [7, 8 :: nat] [7] c \<and> [7, 8] = [7] @ co_queue c"
proof -
  let ?t = "\<lambda>n::nat. n < 1"
  let ?o = "core_open ?t (Inr (3, 4)) (Inr ()) (Inr ()) (Inr 5) (Inr 6) (Some 2) :: nat core res \<times> int list"
  let ?c0 = "projr (fst ?o)"
  have o: "fst ?o = Inr ?c0" by (simp add: core_open_def)
  let ?c1 = "snd (core_push ?t 7 ?c0)"
  let ?c2 = "snd (core_push ?t 8 ?c1)"
  let ?c3 = "snd (core_pop ?t ?c2)"
  have "chan_run ?t ?c0 ([] @ [7]) ([] @ []) ?c1"
    by (rule run_step [OF run_start, where op = "Send 7"]) (simp_all add: core_open_def core_defs)
  then have "chan_run ?t ?c0 (([] @ [7]) @ [8]) (([] @ []) @ []) ?c2"
    by (rule run_step [where op = "Send 8"]) (simp_all add: core_open_def core_defs)
  then have "chan_run ?t ?c0 ((([] @ [7]) @ [8]) @ []) ((([] @ []) @ []) @ [7]) ?c3"
    by (rule run_step [where op = Recv]) (simp_all add: core_open_def core_defs)
  then have r: "chan_run ?t ?c0 [7, 8] [7] ?c3" by simp
  have "[7, 8] = [7] @ co_queue ?c3"
    using channel_in_order [OF o, of "[7, 8]" "[7]" ?c3] r by simp
  with r show ?thesis by blast
qed

text \<open>
  C24: the doorbells tell the truth, so no end sleeps through what it waits for. At every
  moment a byte is waiting in the items bell exactly when a receive has something to do, and
  in the room bell exactly when a bounded send has; a receive is told to wait only with a
  silent items bell, and a send only with a silent room bell.
\<close>
theorem bells_tell_the_truth:
  assumes "fst (core_open takes pair set1 set2 dup1 dup2 capacity) = Inr c0" "takes 0" "capacity \<noteq> Some 0"
    and "chan_run takes c0 ins outs c"
  shows "co_items c = of_bool (recv_can_move c) \<and> co_room c = of_bool (send_can_move c) \<and>
    (fst (core_pop takes c) = Inl NotReady \<longleftrightarrow> co_items c = 0) \<and>
    (fst (core_push takes v c) = Inl (RefusedFull v) \<longleftrightarrow>
      co_capacity c \<noteq> None \<and> co_room c = 0)"
proof -
  have o: "core_ok c0" using open_ok assms(1-3) by blast
  with chan_run_ok [OF assms(4) o assms(2)] have c: "core_ok c" by blast
  then show ?thesis
    by (auto simp: core_ok_def recv_can_move_def send_can_move_def core_pop_def core_push_def Let_def
        split: list.split option.split_asm)
qed

theorem bells_tell_the_truth_witness:
  "co_items (projr (fst (core_open (\<lambda>n. n < 1) (Inr (3, 4)) (Inr ()) (Inr ()) (Inr 5) (Inr 6) (Some 2))) :: nat core) = 0 \<and>
   co_room (projr (fst (core_open (\<lambda>n. n < 1) (Inr (3, 4)) (Inr ()) (Inr ()) (Inr 5) (Inr 6) (Some 2))) :: nat core) = 1"
proof -
  let ?t = "\<lambda>n::nat. n < 1"
  let ?o = "core_open ?t (Inr (3, 4)) (Inr ()) (Inr ()) (Inr 5) (Inr 6) (Some 2) :: nat core res \<times> int list"
  have o: "fst ?o = Inr (projr (fst ?o))" by (simp add: core_open_def)
  show ?thesis
    using bells_tell_the_truth [OF o, of "[]" "[]" "projr (fst ?o)" 0] run_start [of ?t "projr (fst ?o)"]
    by (simp add: recv_can_move_def send_can_move_def core_open_def)
qed

text \<open>
  C25: a receive that waits gets its answer. When the kernel wakes it for its bell, and no
  other receiver took the value meanwhile, the wait is over after at most one more look, with
  the oldest value, or with closed if there will never be one.
\<close>
theorem recv_returns:
  assumes "core_ok c" "takes 0"
    and "\<And>c. core_ok c \<Longrightarrow> core_ok (waited (co_items_bell c) c) \<and> co_items (waited (co_items_bell c) c) > 0"
  shows "\<exists>c1 out c2. drive (recv_step takes) (\<lambda>pk. waited (pk_ident pk)) () c = Some (out, c2) \<and>
    c1 \<in> {c, waited (co_items_bell c) c} \<and> recv_can_move c1 \<and> (out, c2) = core_pop takes c1 \<and>
    out = (case co_queue c1 of [] \<Rightarrow> Inl Closed | v # _ \<Rightarrow> Inr v)"
proof -
  have moves: "drive (recv_step takes) w () c = Some (core_pop takes c) \<and>
      fst (core_pop takes c) = (case co_queue c of [] \<Rightarrow> Inl Closed | v # _ \<Rightarrow> Inr v)"
    if "recv_can_move c" for c and w :: "park_req \<Rightarrow> 'a core \<Rightarrow> 'a core"
    using that
    by (subst drive.simps)
      (auto simp: recv_step_def recv_advance_def core_pop_def recv_can_move_def Let_def split: list.split)
  show ?thesis
  proof (cases "recv_can_move c")
    case True
    with moves [OF True, of "\<lambda>pk. waited (pk_ident pk)"] show ?thesis
      by (metis insertI1 prod.collapse)
  next
    case False
    let ?c = "waited (co_items_bell c) c"
    have m: "recv_can_move ?c" using assms(3) [OF assms(1)] by (auto simp: core_ok_def of_bool_def split: if_split_asm)
    have "recv_step takes () c =
        (Park \<lparr>pk_ident = co_items_bell c, pk_filter = EVFILT_READ, pk_notes = 0, pk_deadline = None\<rparr>, (), c)"
      using False by (simp add: recv_step_def recv_advance_def core_pop_def recv_can_move_def wait_on_def settle_def)
    then have "drive (recv_step takes) (\<lambda>pk. waited (pk_ident pk)) () c =
        drive (recv_step takes) (\<lambda>pk. waited (pk_ident pk)) () ?c"
      by (subst drive.simps) simp
    with moves [OF m, of "\<lambda>pk. waited (pk_ident pk)"] m show ?thesis
      by (metis insertI1 insertI2 prod.collapse)
  qed
qed

theorem recv_returns_witness:
  "drive (recv_step (\<lambda>n. n < 1)) (\<lambda>pk. (\<lambda>i c. snd (core_push (\<lambda>n. n < 1) 9 idle_core)) (pk_ident pk)) () idle_core =
    Some (Inr (9 :: nat), idle_core)"
  using recv_returns [of idle_core "\<lambda>n. n < 1" "\<lambda>i c. snd (core_push (\<lambda>n. n < 1) (9 :: nat) idle_core)"]
  by (auto simp: core_defs core_ok_def recv_can_move_def send_can_move_def idle_core_def)

lemma send_copies_none:
  "\<exists>c'. send_copies takes fs None c = (replicate (length fs) (Done (Inl Finished)), None, c')"
proof (induction fs arbitrary: c)
  case (Cons f fs)
  from Cons [of "f c"] show ?case by (auto simp: send_advance_def)
qed simp


text \<open>An unbounded send says closed only when no receiver is left.\<close>

lemma unbounded_send_closed:
  assumes "co_capacity c = None"
  shows "fst (unbounded_send takes v c) = Inl Closed \<longleftrightarrow> co_receivers c = 0"
  using assms by (simp add: unbounded_send_def core_push_def Let_def)

text \<open>A start that fails closes every descriptor it was given.\<close>

lemma open_leaks_nothing:
  assumes "core_open takes (Inr (a, b)) set1 set2 dup1 dup2 capacity = (Inl e, closed)"
  shows "set closed = {a, b} \<union> (if set1 = Inr () \<and> set2 = Inr () then (case dup1 of Inr d \<Rightarrow> {d} | Inl _ \<Rightarrow> {}) else {})"
  using assms by (auto simp: core_open_def split: sum.split_asm)

end
