(* ===== verification/Gather.thy ===== *)
theory Gather
  imports Waiting
begin

text \<open>
  Tasks that receive from sets of other tasks: \<open>src/modules/handle_set.rs\<close>,
  \<open>handle_set_tuples.rs\<close>, \<open>merge_set.rs\<close> and \<open>gather.rs\<close>, with \<open>receive_all\<close> and
  \<open>receive_any\<close> of \<open>src/executor.rs\<close>.

  A set nests handles in tuples, arrays and vectors, which the model does not tell apart. The
  access a leaf was given is the path down to its slot. The gather is shared by every leaf's
  thread, so its operations are also given as the single steps they take, each one access
  under a lock or one atomic access.
\<close>

section \<open>Sets and their slots\<close>

datatype 'h handle_set = Handle 'h | Sets "'h handle_set list"

datatype 'v slots = SlotLeaf "'v option" | SlotSets "'v slots list"

datatype 'v assembled = One 'v | Many "'v assembled list"

fun empty_slots :: "'h handle_set \<Rightarrow> 'v slots" where
  "empty_slots (Handle h) = SlotLeaf None"
| "empty_slots (Sets hs) = SlotSets (map empty_slots hs)"

fun filled :: "'v slots \<Rightarrow> bool" where
  "filled (SlotLeaf v) \<longleftrightarrow> v \<noteq> None"
| "filled (SlotSets ss) \<longleftrightarrow> list_all filled ss"

text \<open>Only full slots are ever assembled; the code panics otherwise, which is \<open>None\<close>.\<close>

fun assemble :: "'v slots \<Rightarrow> ('v assembled \<times> 'v slots) option" where
  "assemble (SlotLeaf v) = map_option (\<lambda>x. (One x, SlotLeaf None)) v"
| "assemble (SlotSets ss) =
     map_option (\<lambda>rs. (Many (map fst rs), SlotSets (map snd rs))) (those (map assemble ss))"

fun set_leaves :: "'h handle_set \<Rightarrow> (nat list \<times> 'h) list" where
  "set_leaves (Handle h) = [([], h)]"
| "set_leaves (Sets hs) =
     concat (map (\<lambda>(n, ls). map (\<lambda>(p, h). (n # p, h)) ls) (enumerate 0 (map set_leaves hs)))"

fun slot_at :: "nat list \<Rightarrow> 'v slots \<Rightarrow> 'v option" where
  "slot_at [] (SlotLeaf v) = v"
| "slot_at (n # p) (SlotSets ss) = (if n < length ss then slot_at p (ss ! n) else None)"
| "slot_at _ _ = None"

fun fill_at :: "nat list \<Rightarrow> 'v \<Rightarrow> 'v slots \<Rightarrow> 'v slots" where
  "fill_at [] v (SlotLeaf _) = SlotLeaf (Some v)"
| "fill_at (n # p) v (SlotSets ss) = (if n < length ss then SlotSets (ss[n := fill_at p v (ss ! n)]) else SlotSets ss)"
| "fill_at _ v s = s"

fun slot_paths :: "'v slots \<Rightarrow> nat list list" where
  "slot_paths (SlotLeaf v) = [[]]"
| "slot_paths (SlotSets ss) = concat (map (\<lambda>(n, ps). map ((#) n) ps) (enumerate 0 (map slot_paths ss)))"

section \<open>The gather\<close>

record 'v gather =
  ga_slots :: "'v slots"
  ga_target :: bool
  ga_leaves :: nat
  ga_broken :: bool
  ga_giving :: nat

definition gather_new :: "'v slots \<Rightarrow> 'v gather" where
  "gather_new s = \<lparr>ga_slots = s, ga_target = True, ga_leaves = 0, ga_broken = False, ga_giving = 0\<rparr>"

definition add_leaf :: "'v gather \<Rightarrow> 'v gather" where
  "add_leaf g = g\<lparr>ga_leaves := ga_leaves g + 1\<rparr>"

definition let_go_target :: "'v gather \<Rightarrow> 'v gather" where
  "let_go_target g = g\<lparr>ga_target := False\<rparr>"

text \<open>The part of \<open>fill\<close> under the slots' lock: the round, once it is full.\<close>

definition fill_locked :: "('v slots \<Rightarrow> 'v slots) \<Rightarrow> 'v gather \<Rightarrow> 'v assembled option \<times> 'v gather" where
  "fill_locked change g =
     (let s = change (ga_slots g) in
      if filled s then
        (case assemble s of
           None \<Rightarrow> (None, g\<lparr>ga_slots := s, ga_giving := ga_giving g + 1\<rparr>)
         | Some (out, s1) \<Rightarrow> (Some out, g\<lparr>ga_slots := s1, ga_giving := ga_giving g + 1\<rparr>))
      else (None, g\<lparr>ga_slots := s\<rparr>))"

text \<open>A whole fill that nothing disturbs, with what is given to the target.\<close>

definition gather_fill :: "('v slots \<Rightarrow> 'v slots) \<Rightarrow> 'v gather \<Rightarrow> 'v assembled list \<times> 'v gather" where
  "gather_fill change g =
     (let (full, g1) = fill_locked change g in
      case full of
        None \<Rightarrow> ([], g1)
      | Some out \<Rightarrow>
          (let gives = (if ga_target g1 then [out] else []);
               g2 = g1\<lparr>ga_giving := ga_giving g1 - 1\<rparr>
           in (gives, if ga_broken g2 then let_go_target g2 else g2)))"

definition gather_settle :: "'v gather \<Rightarrow> 'v assembled list \<times> 'v gather" where
  "gather_settle g =
     (if ga_leaves g \<noteq> 0 then ([], g)
      else (let (gives, g1) = gather_fill (\<lambda>s. s) g in (gives, let_go_target g1)))"

definition still_coming :: "nat list \<Rightarrow> 'v gather \<Rightarrow> bool" where
  "still_coming p g \<longleftrightarrow> slot_at p (ga_slots g) \<noteq> None \<or> ga_giving g \<noteq> 0"

definition leaf_gone :: "nat list \<Rightarrow> 'v gather \<Rightarrow> 'v gather" where
  "leaf_gone p g =
     (let g1 = g\<lparr>ga_broken := True\<rparr> in if still_coming p g1 then g1 else let_go_target g1)"

definition gather_finished :: "bool \<Rightarrow> 'v gather \<Rightarrow> bool" where
  "gather_finished takes_gives g \<longleftrightarrow> \<not> ga_target g \<or> \<not> takes_gives"

text \<open>Writing the target off: whether there was one to write off.\<close>

definition gather_write_off :: "'v gather \<Rightarrow> bool \<times> 'v gather" where
  "gather_write_off g = (ga_target g, let_go_target g)"

section \<open>The gather, one access at a time\<close>

text \<open>
  Where the thread that last acted for a leaf is. A leaf is delivered to by one walk at a time
  and dropped after the last, so each leaf is one sequence of steps.
\<close>

datatype 'v leaf_pc =
    Resting | Giving "'v assembled" | Lowering | Checking | Releasing | Leaving | Dropping | Left

record 'v gathering =
  gg_gather :: "'v gather"
  gg_pc :: "nat list \<Rightarrow> 'v leaf_pc"
  gg_given :: "'v assembled list"
  gg_lost :: "'v assembled list"

inductive gather_step :: "'v gathering \<Rightarrow> 'v gathering \<Rightarrow> bool" where
  part: "gg_pc s p = Resting \<Longrightarrow> p \<in> set (slot_paths (ga_slots (gg_gather s)))
    \<Longrightarrow> fill_locked (fill_at p v) (gg_gather s) = (None, g) \<Longrightarrow> gather_step s (s\<lparr>gg_gather := g\<rparr>)"
| full: "gg_pc s p = Resting \<Longrightarrow> p \<in> set (slot_paths (ga_slots (gg_gather s)))
    \<Longrightarrow> fill_locked (fill_at p v) (gg_gather s) = (Some out, g)
    \<Longrightarrow> gather_step s (s\<lparr>gg_gather := g, gg_pc := (gg_pc s)(p := Giving out)\<rparr>)"
| gives: "gg_pc s p = Giving out \<Longrightarrow> ga_target (gg_gather s)
    \<Longrightarrow> gather_step s (s\<lparr>gg_given := gg_given s @ [out], gg_pc := (gg_pc s)(p := Lowering)\<rparr>)"
| loses: "gg_pc s p = Giving out \<Longrightarrow> \<not> ga_target (gg_gather s)
    \<Longrightarrow> gather_step s (s\<lparr>gg_lost := gg_lost s @ [out], gg_pc := (gg_pc s)(p := Lowering)\<rparr>)"
| lowers: "gg_pc s p = Lowering \<Longrightarrow> gather_step s
    (s\<lparr>gg_gather := (gg_gather s)\<lparr>ga_giving := ga_giving (gg_gather s) - 1\<rparr>, gg_pc := (gg_pc s)(p := Checking)\<rparr>)"
| checks: "gg_pc s p = Checking \<Longrightarrow> gather_step s
    (s\<lparr>gg_pc := (gg_pc s)(p := if ga_broken (gg_gather s) then Releasing else Resting)\<rparr>)"
| releases: "gg_pc s p = Releasing \<Longrightarrow> gather_step s
    (s\<lparr>gg_gather := let_go_target (gg_gather s), gg_pc := (gg_pc s)(p := Resting)\<rparr>)"
| leaves: "gg_pc s p = Resting \<Longrightarrow> p \<in> set (slot_paths (ga_slots (gg_gather s)))
    \<Longrightarrow> gather_step s (s\<lparr>gg_gather := (gg_gather s)\<lparr>ga_broken := True\<rparr>, gg_pc := (gg_pc s)(p := Leaving)\<rparr>)"
| looks: "gg_pc s p = Leaving \<Longrightarrow> gather_step s
    (s\<lparr>gg_pc := (gg_pc s)(p := if still_coming p (gg_gather s) then Left else Dropping)\<rparr>)"
| drops: "gg_pc s p = Dropping \<Longrightarrow> gather_step s
    (s\<lparr>gg_gather := let_go_target (gg_gather s), gg_pc := (gg_pc s)(p := Left)\<rparr>)"

definition gathering_new :: "'h handle_set \<Rightarrow> 'v gathering" where
  "gathering_new hs =
     \<lparr>gg_gather = gather_new (empty_slots hs), gg_pc = (\<lambda>_. Resting), gg_given = [], gg_lost = []\<rparr>"

section \<open>Linking a task to a set\<close>

text \<open>
  A handle of a set is its id and whether it can give. \<open>leaf p\<close> is the registration made for
  the slot at \<open>p\<close>; \<open>empty_round\<close> is what a set with no handle in it is assembled into.
\<close>

definition link_leaf ::
  "('u, 'v, 'f) env \<Rightarrow> 'f \<Rightarrow> bool \<times> nat \<Rightarrow> ('u, 'v, 'f) world \<Rightarrow> ('u, 'v, 'f) world" where
  "link_leaf en f h w = into_plain en (fst h) (snd h) (exec_forward en (snd h) f w)"

definition receive_all ::
  "('u, 'v, 'f) env \<Rightarrow> (nat list \<Rightarrow> 'f) \<Rightarrow> 'v \<Rightarrow> nat \<Rightarrow> (bool \<times> nat) handle_set \<Rightarrow> ('u, 'v, 'f) world
    \<Rightarrow> ('u, 'v, 'f) world option" where
  "receive_all en leaf empty_round i hs w = do {
     let ls = set_leaves hs;
     let w1 = fold (\<lambda>(p, h). link_leaf en (leaf p) h) ls (handle_cloned True i w);
     let w2 = hold_claims i (map (snd \<circ> snd) ls) w1;
     w3 \<leftarrow> (if ls \<noteq> [] then Some w2
            else do {
              (_, w) \<leftarrow> give en i empty_round (handle_cloned True i w2);
              Some (handle_dropped en True i (handle_dropped en True i w))
            });
     Some (into_plain en True i w3)
   }"

text \<open>Every handle of a merged set gets a giving handle of its own.\<close>

definition receive_any ::
  "('u, 'v, 'f) env \<Rightarrow> (nat list \<Rightarrow> 'f) \<Rightarrow> nat \<Rightarrow> (bool \<times> nat) handle_set \<Rightarrow> ('u, 'v, 'f) world
    \<Rightarrow> ('u, 'v, 'f) world" where
  "receive_any en forwarder i hs w =
     (let ls = set_leaves hs;
          w1 = fold (\<lambda>(p, h) w. link_leaf en (forwarder p) h (handle_cloned True i w)) ls (handle_cloned True i w);
          w2 = hold_claims i (map (snd \<circ> snd) ls) w1
      in into_plain en True i (handle_dropped en True i w2))"

end
