(* ===== verification/Gather_Race.thy ===== *)
theory Gather_Race
  imports Gather
begin

text \<open>
  What gathering guarantees: a round is complete and in the set's shape, at most one round is
  on its way, and the target is let go once no round can come. Also the interleaving in which
  a round that was complete never reaches the target.
\<close>

section \<open>Slots\<close>

primrec assembled_values :: "'v assembled \<Rightarrow> 'v list" where
  "assembled_values (One v) = [v]"
| "assembled_values (Many os) = concat (map assembled_values os)"

lemma path_sets [simp]:
  "n # p \<in> set (slot_paths (SlotSets ss)) \<longleftrightarrow> n < length ss \<and> p \<in> set (slot_paths (ss ! n))"
  "[] \<notin> set (slot_paths (SlotSets ss))"
  by (auto simp: in_set_enumerate_eq split_beta' Bex_def)

lemma path_leaf [simp]: "p \<in> set (slot_paths (SlotLeaf v)) \<longleftrightarrow> p = []"
  by simp

declare slot_paths.simps [simp del]

lemma paths_by_index:
  "slot_paths (SlotSets ss) = concat (map (\<lambda>n. map ((#) n) (slot_paths (ss ! n))) [0..<length ss])"
proof -
  have "enumerate 0 (map slot_paths ss) = map (\<lambda>n. (n, slot_paths (ss ! n))) [0..<length ss]"
    by (rule nth_equalityI) (simp_all add: nth_enumerate_eq)
  then show ?thesis by (simp add: slot_paths.simps comp_def)
qed

lemma slot_at_fill:
  "p \<in> set (slot_paths s) \<Longrightarrow> slot_at q (fill_at p v s) = (if q = p then Some v else slot_at q s)"
proof (induction p v s arbitrary: q rule: fill_at.induct)
  case (1 v u)
  then show ?case by (cases q) simp_all
next
  case (2 n p v ss)
  then show ?case by (cases q) (auto simp: nth_list_update)
qed simp_all

lemma paths_fill [simp]: "slot_paths (fill_at p v s) = slot_paths s"
proof (induction p v s rule: fill_at.induct)
  case (2 n p v ss)
  moreover have "(map slot_paths ss)[n := slot_paths (ss ! n)] = map slot_paths ss" if "n < length ss"
    using that list_update_id [of "map slot_paths ss" n] by simp
  ultimately show ?case by (simp add: slot_paths.simps map_update)
qed (simp_all add: slot_paths.simps)

lemma filled_iff: "filled s \<longleftrightarrow> (\<forall>p\<in>set (slot_paths s). slot_at p s \<noteq> None)"
proof (induction s)
  case (SlotSets ss)
  have "(\<forall>p\<in>set (slot_paths (SlotSets ss)). slot_at p (SlotSets ss) \<noteq> None) \<longleftrightarrow>
      (\<forall>n<length ss. \<forall>p\<in>set (slot_paths (ss ! n)). slot_at p (ss ! n) \<noteq> None)"
    (is "?l \<longleftrightarrow> ?r")
  proof
    assume l: ?l
    show ?r
    proof (intro allI impI ballI)
      fix n p assume "n < length ss" "p \<in> set (slot_paths (ss ! n))"
      with bspec [OF l, of "n # p"] show "slot_at p (ss ! n) \<noteq> None" by simp
    qed
  next
    assume r: ?r
    show ?l
    proof
      fix p assume p: "p \<in> set (slot_paths (SlotSets ss))"
      then show "slot_at p (SlotSets ss) \<noteq> None" using r by (cases p rule: list.exhaust) auto
    qed
  qed
  with SlotSets show ?case by (simp add: list_all_length)
qed simp

lemma those_all:
  assumes "\<And>x. x \<in> set xs \<Longrightarrow> f x = Some (g x)"
  shows "those (map f xs) = Some (map g xs)"
  using assms by (induction xs) simp_all

text \<open>What comes out is one value per slot in the set's order, and what stays is empty.\<close>

lemma assemble_full:
  assumes "filled s"
  shows "\<exists>out s1. assemble s = Some (out, s1) \<and> slot_paths s1 = slot_paths s \<and> (\<forall>p. slot_at p s1 = None) \<and>
    map Some (assembled_values out) = map (\<lambda>p. slot_at p s) (slot_paths s)"
  using assms
proof (induction s)
  case (SlotLeaf v)
  then show ?case by (auto simp: slot_paths.simps) (metis slot_at.elims option.distinct(1) slots.distinct(1) slots.inject(1))
next
  case (SlotSets ss)
  obtain f where f: "\<And>s. s \<in> set ss \<Longrightarrow> assemble s = Some (f s) \<and> slot_paths (snd (f s)) = slot_paths s \<and>
      (\<forall>p. slot_at p (snd (f s)) = None) \<and> map Some (assembled_values (fst (f s))) = map (\<lambda>p. slot_at p s) (slot_paths s)"
  proof -
    have "\<exists>r. assemble s = Some r \<and> slot_paths (snd r) = slot_paths s \<and> (\<forall>p. slot_at p (snd r) = None) \<and>
        map Some (assembled_values (fst r)) = map (\<lambda>p. slot_at p s) (slot_paths s)" if "s \<in> set ss" for s
    proof -
      have "filled s" using SlotSets.prems that by (simp add: list_all_iff)
      from SlotSets.IH [OF that this] show ?thesis by auto
    qed
    then show ?thesis using that by metis
  qed
  have "assemble (SlotSets ss) = Some (Many (map (fst \<circ> f) ss), SlotSets (map (snd \<circ> f) ss))"
    using f by (simp add: those_all)
  moreover have "slot_paths (SlotSets (map (snd \<circ> f) ss)) = slot_paths (SlotSets ss)"
    using f by (simp add: slot_paths.simps comp_def cong: map_cong)
  moreover have "slot_at p (SlotSets (map (snd \<circ> f) ss)) = None" for p
    using f by (cases p) simp_all
  moreover have "map Some (assembled_values (Many (map (fst \<circ> f) ss))) = map (\<lambda>p. slot_at p (SlotSets ss)) (slot_paths (SlotSets ss))"
  proof -
    have "map Some (assembled_values (Many (map (fst \<circ> f) ss))) =
        concat (map (\<lambda>s. map Some (assembled_values (fst (f s)))) ss)"
      by (simp add: map_concat comp_def)
    also have "\<dots> = concat (map (\<lambda>s. map (\<lambda>p. slot_at p s) (slot_paths s)) ss)"
      using f by (simp cong: map_cong)
    also have "\<dots> = concat (map (\<lambda>n. map (\<lambda>p. slot_at p (ss ! n)) (slot_paths (ss ! n))) [0..<length ss])"
      by (subst map_nth [symmetric, of ss]) (simp only: map_map comp_def)
    also have "\<dots> = map (\<lambda>p. slot_at p (SlotSets ss)) (slot_paths (SlotSets ss))"
      unfolding paths_by_index map_concat map_map comp_def by (intro arg_cong [where f = concat] map_cong) simp_all
    finally show ?thesis .
  qed
  ultimately show ?case by blast
qed

lemma fill_locked_cases:
  assumes "p \<in> set (slot_paths (ga_slots g))"
  shows "(\<forall>q\<in>set (slot_paths (ga_slots g)). q \<noteq> p \<longrightarrow> slot_at q (ga_slots g) \<noteq> None) \<Longrightarrow>
      \<exists>out s1. fill_locked (fill_at p v) g = (Some out, g\<lparr>ga_slots := s1, ga_giving := ga_giving g + 1\<rparr>) \<and>
        slot_paths s1 = slot_paths (ga_slots g) \<and> (\<forall>q. slot_at q s1 = None) \<and>
        map Some (assembled_values out) =
          map (\<lambda>q. if q = p then Some v else slot_at q (ga_slots g)) (slot_paths (ga_slots g))"
    and "\<not> (\<forall>q\<in>set (slot_paths (ga_slots g)). q \<noteq> p \<longrightarrow> slot_at q (ga_slots g) \<noteq> None) \<Longrightarrow>
      fill_locked (fill_at p v) g = (None, g\<lparr>ga_slots := fill_at p v (ga_slots g)\<rparr>)"
proof -
  let ?s = "fill_at p v (ga_slots g)"
  have f: "filled ?s \<longleftrightarrow> (\<forall>q\<in>set (slot_paths (ga_slots g)). q \<noteq> p \<longrightarrow> slot_at q (ga_slots g) \<noteq> None)"
    using assms by (auto simp: filled_iff slot_at_fill)
  show "fill_locked (fill_at p v) g = (None, g\<lparr>ga_slots := ?s\<rparr>)"
    if "\<not> (\<forall>q\<in>set (slot_paths (ga_slots g)). q \<noteq> p \<longrightarrow> slot_at q (ga_slots g) \<noteq> None)"
  proof -
    have "\<not> filled ?s" using f that by blast
    then show ?thesis by (simp add: fill_locked_def)
  qed
  show "\<exists>out s1. fill_locked (fill_at p v) g = (Some out, g\<lparr>ga_slots := s1, ga_giving := ga_giving g + 1\<rparr>) \<and>
        slot_paths s1 = slot_paths (ga_slots g) \<and> (\<forall>q. slot_at q s1 = None) \<and>
        map Some (assembled_values out) =
          map (\<lambda>q. if q = p then Some v else slot_at q (ga_slots g)) (slot_paths (ga_slots g))"
    if "\<forall>q\<in>set (slot_paths (ga_slots g)). q \<noteq> p \<longrightarrow> slot_at q (ga_slots g) \<noteq> None"
  proof -
    have "filled ?s" using f that by blast
    from assemble_full [OF this] this assms show ?thesis
      by (auto simp: fill_locked_def slot_at_fill Let_def)
  qed
qed

section \<open>One access at a time\<close>

fun in_flight :: "'v leaf_pc \<Rightarrow> bool" where
  "in_flight (Giving out) = True" | "in_flight Lowering = True" | "in_flight _ = False"

definition busy_leaf :: "'v leaf_pc \<Rightarrow> bool" where
  "busy_leaf pc \<longleftrightarrow> in_flight pc \<or> pc = Checking \<or> pc = Releasing"

definition away :: "'v leaf_pc \<Rightarrow> bool" where
  "away pc \<longleftrightarrow> pc = Leaving \<or> pc = Dropping \<or> pc = Left"

abbreviation leaf_slot :: "nat list \<Rightarrow> 'v gathering \<Rightarrow> 'v option" where
  "leaf_slot p s \<equiv> slot_at p (ga_slots (gg_gather s))"

abbreviation leaf_paths :: "'v gathering \<Rightarrow> nat list set" where
  "leaf_paths s \<equiv> set (slot_paths (ga_slots (gg_gather s)))"

definition gathering_ok :: "'v gathering \<Rightarrow> bool" where
  "gathering_ok s \<longleftrightarrow>
     (\<forall>p. gg_pc s p \<noteq> Resting \<longrightarrow> p \<in> leaf_paths s) \<and>
     (\<forall>p. busy_leaf (gg_pc s p) \<longrightarrow> leaf_slot p s = None) \<and>
     (\<forall>p q. busy_leaf (gg_pc s p) \<longrightarrow> busy_leaf (gg_pc s q) \<longrightarrow> p = q) \<and>
     ga_giving (gg_gather s) \<le> 1 \<and> (ga_giving (gg_gather s) = 0 \<longleftrightarrow> (\<forall>p. \<not> in_flight (gg_pc s p))) \<and>
     (\<forall>p. away (gg_pc s p) \<longrightarrow> ga_broken (gg_gather s)) \<and>
     (\<forall>p. gg_pc s p = Releasing \<longrightarrow> ga_broken (gg_gather s)) \<and>
     (\<not> ga_broken (gg_gather s) \<longrightarrow> ga_target (gg_gather s) \<and> gg_lost s = []) \<and>
     (\<forall>p. gg_pc s p = Dropping \<longrightarrow> leaf_slot p s = None) \<and>
     (\<forall>p. gg_pc s p = Left \<longrightarrow> leaf_slot p s = None \<longrightarrow>
        \<not> ga_target (gg_gather s) \<or> (\<exists>q. busy_leaf (gg_pc s q)))"

lemma leaf_simps [simp]:
  "busy_leaf (Giving out)" "busy_leaf Lowering" "busy_leaf Checking" "busy_leaf Releasing" "\<not> busy_leaf Resting"
  "\<not> busy_leaf Leaving" "\<not> busy_leaf Dropping" "\<not> busy_leaf Left" "away Leaving" "away Dropping" "away Left"
  "\<not> away Resting" "\<not> away (Giving out)" "\<not> away Lowering" "\<not> away Checking" "\<not> away Releasing"
  by (simp_all add: busy_leaf_def away_def)

lemma in_flight_busy: "in_flight pc \<Longrightarrow> busy_leaf pc"
  by (simp add: busy_leaf_def)

lemma gathering_new_ok: "gathering_ok (gathering_new hs)"
  by (simp add: gathering_ok_def gathering_new_def gather_new_def)

lemma ok_part:
  assumes "gathering_ok s" "gg_pc s p = Resting" "p \<in> leaf_paths s" "fill_locked (fill_at p v) (gg_gather s) = (None, g)"
  shows "gathering_ok (s\<lparr>gg_gather := g\<rparr>)"
proof -
  have g: "g = (gg_gather s)\<lparr>ga_slots := fill_at p v (ga_slots (gg_gather s))\<rparr>"
  proof (cases "\<forall>q\<in>leaf_paths s. q \<noteq> p \<longrightarrow> leaf_slot q s \<noteq> None")
    case True
    from fill_locked_cases(1) [OF assms(3) True, of v] assms(4) show ?thesis by auto
  next
    case False
    from fill_locked_cases(2) [OF assms(3) False, of v] assms(4) show ?thesis by simp
  qed
  have "leaf_slot q (s\<lparr>gg_gather := g\<rparr>) = (if q = p then Some v else leaf_slot q s)" for q
    using slot_at_fill [OF assms(3)] g by simp
  with assms(1,2) g show ?thesis by (simp add: gathering_ok_def)
qed

lemma ok_full:
  assumes "gathering_ok s" "gg_pc s p = Resting" "p \<in> leaf_paths s"
    and "fill_locked (fill_at p v) (gg_gather s) = (Some out, g)"
  shows "gathering_ok (s\<lparr>gg_gather := g, gg_pc := (gg_pc s)(p := Giving out)\<rparr>)"
proof -
  have all: "\<forall>q\<in>leaf_paths s. q \<noteq> p \<longrightarrow> leaf_slot q s \<noteq> None"
  proof (rule ccontr)
    assume "\<not> ?thesis"
    from fill_locked_cases(2) [OF assms(3) this, of v] assms(4) show False by simp
  qed
  then obtain s1 where g: "g = (gg_gather s)\<lparr>ga_slots := s1, ga_giving := ga_giving (gg_gather s) + 1\<rparr>"
    "slot_paths s1 = slot_paths (ga_slots (gg_gather s))" "\<forall>q. slot_at q s1 = None"
    using fill_locked_cases(1) [OF assms(3) all, of v] assms(4) by auto
  have idle: "\<not> busy_leaf (gg_pc s q)" for q
    using all assms(1,2) unfolding gathering_ok_def by (metis leaf_simps(5))
  then have fl: "\<not> in_flight (gg_pc s q)" for q using in_flight_busy by blast
  have drop: "gg_pc s q \<noteq> Dropping" for q
    using all assms(1,2) unfolding gathering_ok_def by (metis leaf_pc.distinct(11) leaf_pc.distinct(12))
  show ?thesis
    using assms(1-3) g idle fl drop by (simp add: gathering_ok_def) blast
qed

text \<open>A step that moves one leaf and leaves the slots alone.\<close>

lemma ok_move:
  assumes ok: "gathering_ok s" and pc: "gg_pc t = (gg_pc s)(p := x)"
    and slots: "ga_slots (gg_gather t) = ga_slots (gg_gather s)" and path: "p \<in> leaf_paths s"
    and busy: "busy_leaf x \<Longrightarrow> busy_leaf (gg_pc s p)"
    and giving: "ga_giving (gg_gather t) = (if in_flight (gg_pc s p) \<and> \<not> in_flight x then 0 else ga_giving (gg_gather s))"
    and flight: "in_flight x \<Longrightarrow> in_flight (gg_pc s p)"
    and broken: "ga_broken (gg_gather s) \<or> away x \<or> x = Releasing \<Longrightarrow> ga_broken (gg_gather t)"
    and held: "\<not> ga_broken (gg_gather t) \<Longrightarrow> ga_target (gg_gather t) \<and> gg_lost t = []"
    and target: "ga_target (gg_gather t) \<Longrightarrow> ga_target (gg_gather s)"
    and drop: "x = Dropping \<Longrightarrow> leaf_slot p s = None"
    and quit: "x = Left \<Longrightarrow> leaf_slot p s = None \<Longrightarrow> \<not> ga_target (gg_gather t) \<or> (\<exists>q. q \<noteq> p \<and> busy_leaf (gg_pc s q))"
    and stop: "busy_leaf (gg_pc s p) \<Longrightarrow> \<not> busy_leaf x \<Longrightarrow> ga_broken (gg_gather s) \<Longrightarrow> \<not> ga_target (gg_gather t)"
  shows "gathering_ok t"
proof -
  from ok have o: "\<forall>p. gg_pc s p \<noteq> Resting \<longrightarrow> p \<in> leaf_paths s" "\<forall>p. busy_leaf (gg_pc s p) \<longrightarrow> leaf_slot p s = None"
      "\<forall>p q. busy_leaf (gg_pc s p) \<longrightarrow> busy_leaf (gg_pc s q) \<longrightarrow> p = q" "ga_giving (gg_gather s) \<le> 1"
      "ga_giving (gg_gather s) = 0 \<longleftrightarrow> (\<forall>p. \<not> in_flight (gg_pc s p))"
      "\<forall>p. away (gg_pc s p) \<longrightarrow> ga_broken (gg_gather s)" "\<forall>p. gg_pc s p = Releasing \<longrightarrow> ga_broken (gg_gather s)"
      "\<forall>p. gg_pc s p = Dropping \<longrightarrow> leaf_slot p s = None"
      "\<forall>p. gg_pc s p = Left \<longrightarrow> leaf_slot p s = None \<longrightarrow> \<not> ga_target (gg_gather s) \<or> (\<exists>q. busy_leaf (gg_pc s q))"
    unfolding gathering_ok_def by blast+
  have fl: "(\<forall>q. \<not> in_flight (gg_pc t q)) \<longleftrightarrow> ga_giving (gg_gather t) = 0"
  proof (cases "in_flight (gg_pc s p) \<and> \<not> in_flight x")
    case True
    then have "\<not> in_flight (gg_pc s q)" if "q \<noteq> p" for q using o(3) in_flight_busy that by blast
    with True show ?thesis using giving pc by auto
  next
    case False
    then have "in_flight x \<longleftrightarrow> in_flight (gg_pc s p)" using flight by blast
    with False show ?thesis using giving pc o(5) by auto
  qed
  have left: "\<not> ga_target (gg_gather t) \<or> (\<exists>q. busy_leaf (gg_pc t q))"
    if q: "gg_pc t q = Left" "leaf_slot q s = None" for q
  proof (cases "q = p")
    case True
    then show ?thesis using q pc quit by auto
  next
    case False
    then have l: "gg_pc s q = Left" using q pc by simp
    then have "ga_broken (gg_gather s)" using o(6) by (metis leaf_simps(11))
    moreover have "\<not> ga_target (gg_gather s) \<or> (\<exists>r. busy_leaf (gg_pc s r))" using o(9) q l by blast
    ultimately have "ga_broken (gg_gather s)" "\<not> ga_target (gg_gather s) \<or> (\<exists>r. busy_leaf (gg_pc s r))" by auto
    then show ?thesis using target stop pc by (metis fun_upd_apply)
  qed
  have b: "busy_leaf (gg_pc s q)" if "busy_leaf (gg_pc t q)" for q
    using that busy pc by (cases "q = p") auto
  have "\<forall>q. gg_pc t q \<noteq> Resting \<longrightarrow> q \<in> leaf_paths s" using o(1) pc path by simp
  moreover have "\<forall>q. busy_leaf (gg_pc t q) \<longrightarrow> leaf_slot q s = None" using b o(2) by blast
  moreover have "\<forall>q r. busy_leaf (gg_pc t q) \<longrightarrow> busy_leaf (gg_pc t r) \<longrightarrow> q = r" using b o(3) by blast
  moreover have "ga_giving (gg_gather t) \<le> 1" using giving o(4) by simp
  moreover have "\<forall>q. away (gg_pc t q) \<longrightarrow> ga_broken (gg_gather t)" using broken o(6) pc by auto
  moreover have "\<forall>q. gg_pc t q = Releasing \<longrightarrow> ga_broken (gg_gather t)" using broken o(7) pc by auto
  moreover have "\<forall>q. gg_pc t q = Dropping \<longrightarrow> leaf_slot q s = None" using drop o(8) pc by simp
  moreover have "\<forall>q. gg_pc t q = Left \<longrightarrow> leaf_slot q s = None \<longrightarrow> \<not> ga_target (gg_gather t) \<or> (\<exists>q. busy_leaf (gg_pc t q))"
    using left by blast
  moreover have "\<not> ga_broken (gg_gather t) \<longrightarrow> ga_target (gg_gather t) \<and> gg_lost t = []" using held by blast
  ultimately show ?thesis unfolding gathering_ok_def slots using fl [symmetric] by (intro conjI)
qed

lemma ok_fields:
  assumes "gathering_ok s"
  shows "gg_pc s p \<noteq> Resting \<Longrightarrow> p \<in> leaf_paths s" "busy_leaf (gg_pc s p) \<Longrightarrow> leaf_slot p s = None"
    "gg_pc s p = Dropping \<Longrightarrow> leaf_slot p s = None" "away (gg_pc s p) \<Longrightarrow> ga_broken (gg_gather s)"
    "gg_pc s p = Releasing \<Longrightarrow> ga_broken (gg_gather s)"
    "\<not> ga_broken (gg_gather s) \<Longrightarrow> ga_target (gg_gather s) \<and> gg_lost s = []"
    "ga_giving (gg_gather s) = 0 \<longleftrightarrow> (\<forall>p. \<not> in_flight (gg_pc s p))" "ga_giving (gg_gather s) \<le> 1"
    "gg_pc s p = Left \<Longrightarrow> leaf_slot p s = None \<Longrightarrow> \<not> ga_target (gg_gather s) \<or> (\<exists>q. busy_leaf (gg_pc s q))"
  using assms unfolding gathering_ok_def by blast+

lemma ok_step:
  assumes "gather_step s t" "gathering_ok s"
  shows "gathering_ok t \<and> slot_paths (ga_slots (gg_gather t)) = slot_paths (ga_slots (gg_gather s))"
  using assms
proof (induction rule: gather_step.induct)
  case (part s p v g)
  then show ?case
    using ok_part [of s p v g] fill_locked_cases [of p "gg_gather s" v]
    by (cases "\<forall>q\<in>leaf_paths s. q \<noteq> p \<longrightarrow> leaf_slot q s \<noteq> None") auto
next
  case (full s p v out g)
  then show ?case
    using ok_full [of s p v out g] fill_locked_cases [of p "gg_gather s" v]
    by (cases "\<forall>q\<in>leaf_paths s. q \<noteq> p \<longrightarrow> leaf_slot q s \<noteq> None") auto
next
  case (gives s p out)
  note f = ok_fields [OF gives(3)]
  show ?case using gives f(1) [of p] f(6)
    by (intro conjI ok_move [OF gives(3), where p = p and x = Lowering]) simp_all
next
  case (loses s p out)
  note f = ok_fields [OF loses(3)]
  show ?case using loses f(1) [of p] f(6)
    by (intro conjI ok_move [OF loses(3), where p = p and x = Lowering]) simp_all
next
  case (lowers s p)
  note f = ok_fields [OF lowers(2)]
  have "ga_giving (gg_gather s) \<noteq> 0" using f(7) lowers(1) by (metis in_flight.simps(2))
  then have "ga_giving (gg_gather s) = 1" using f(8) by simp
  then show ?case using lowers f(1) [of p] f(6)
    by (intro conjI ok_move [OF lowers(2), where p = p and x = Checking]) simp_all
next
  case (checks s p)
  note f = ok_fields [OF checks(2)]
  show ?case using checks f(1) [of p] f(6)
    by (intro conjI ok_move [OF checks(2), where p = p and x = "if ga_broken (gg_gather s) then Releasing else Resting"])
      (simp_all split: if_split_asm)
next
  case (releases s p)
  note f = ok_fields [OF releases(2)]
  show ?case using releases f(1,5) [of p]
    by (intro conjI ok_move [OF releases(2), where p = p and x = Resting]) (simp_all add: let_go_target_def)
next
  case (leaves s p)
  note f = ok_fields [OF leaves(3)]
  show ?case using leaves
    by (intro conjI ok_move [OF leaves(3), where p = p and x = Leaving]) simp_all
next
  case (looks s p)
  note f = ok_fields [OF looks(2)]
  have "\<exists>q. q \<noteq> p \<and> busy_leaf (gg_pc s q)" if "ga_giving (gg_gather s) \<noteq> 0"
    using f(7) that looks(1) in_flight_busy by (metis leaf_simps(6))
  then show ?case using looks f(1,4) [of p]
    by (intro conjI ok_move [OF looks(2), where p = p and x = "if still_coming p (gg_gather s) then Left else Dropping"])
      (auto simp: still_coming_def split: if_split_asm)
next
  case (drops s p)
  note f = ok_fields [OF drops(2)]
  show ?case using drops f(1,4) [of p]
    by (intro conjI ok_move [OF drops(2), where p = p and x = Left]) (simp_all add: let_go_target_def)
qed

lemma ok_steps:
  fixes s :: "'v gathering"
  assumes "gather_step\<^sup>*\<^sup>* (gathering_new hs) s"
  shows "gathering_ok s \<and> slot_paths (ga_slots (gg_gather s)) = slot_paths (empty_slots hs :: 'v slots)"
  using assms
proof (induction rule: rtranclp_induct)
  case base
  then show ?case using gathering_new_ok by (simp add: gathering_new_def gather_new_def)
next
  case (step s t)
  then show ?case using ok_step [of s t] by simp
qed

section \<open>Properties\<close>

text \<open>
  C30: a fill nothing disturbs keeps the newest value of each task of the set, and the one that
  makes the round complete hands it on once, with exactly one value per task in the set's own
  order, and leaves every slot empty for the next round.
\<close>
theorem gather_round:
  assumes "p \<in> set (slot_paths (ga_slots g))" "ga_target g"
  shows "if \<forall>q\<in>set (slot_paths (ga_slots g)). q \<noteq> p \<longrightarrow> slot_at q (ga_slots g) \<noteq> None
    then \<exists>out g1. gather_fill (fill_at p v) g = ([out], g1) \<and>
      map Some (assembled_values out) =
        map (\<lambda>q. if q = p then Some v else slot_at q (ga_slots g)) (slot_paths (ga_slots g)) \<and>
      (\<forall>q. slot_at q (ga_slots g1) = None) \<and> ga_giving g1 = ga_giving g \<and> ga_target g1 = (\<not> ga_broken g)
    else \<exists>g1. gather_fill (fill_at p v) g = ([], g1) \<and>
      (\<forall>q. slot_at q (ga_slots g1) = (if q = p then Some v else slot_at q (ga_slots g)))"
proof (cases "\<forall>q\<in>set (slot_paths (ga_slots g)). q \<noteq> p \<longrightarrow> slot_at q (ga_slots g) \<noteq> None")
  case True
  from fill_locked_cases(1) [OF assms(1) True, of v] assms(2) show ?thesis
    unfolding if_P [OF True] by (auto simp: gather_fill_def let_go_target_def Let_def)
next
  case False
  from fill_locked_cases(2) [OF assms(1) False, of v] slot_at_fill [OF assms(1)] show ?thesis
    unfolding if_not_P [OF False] by (simp add: gather_fill_def)
qed

theorem gather_round_witness:
  "\<exists>out g1. gather_fill (fill_at [0] (5 :: nat))
      (gather_new (SlotSets [SlotLeaf (Some 4), SlotSets [SlotLeaf (Some 7)]])) = ([out], g1) \<and>
    map Some (assembled_values out) = [Some 5, Some 7]"
  using gather_round [of "[0]" "gather_new (SlotSets [SlotLeaf (Some 4), SlotSets [SlotLeaf (Some 7)]])" 5]
  by (auto simp: gather_new_def paths_by_index slot_paths.simps(1))

text \<open>
  C31: the target of a gathered set is let go once no round can come, whatever order the
  tasks' threads act in: when every thread is done with the set and a task that published
  nothing for the round under way has gone, the set holds no claim on the target any more.
  Until a task has gone, the target is held, no complete round is lost, and at most one is on
  its way to it.
\<close>
theorem gather_lets_go:
  assumes "gather_step\<^sup>*\<^sup>* (gathering_new hs) s"
  shows "(\<not> ga_broken (gg_gather s) \<longrightarrow> ga_target (gg_gather s) \<and> gg_lost s = []) \<and>
    ga_giving (gg_gather s) \<le> 1 \<and>
    ((\<forall>q. gg_pc s q = Resting \<or> gg_pc s q = Left) \<and> gg_pc s p = Left \<and> slot_at p (ga_slots (gg_gather s)) = None \<longrightarrow>
      \<not> ga_target (gg_gather s))"
proof -
  have ok: "gathering_ok s" using ok_steps [OF assms] by blast
  note f = ok_fields [OF ok]
  have "\<not> ga_target (gg_gather s)"
    if q: "\<forall>q. gg_pc s q = Resting \<or> gg_pc s q = Left" "gg_pc s p = Left" "leaf_slot p s = None"
  proof -
    have "\<not> busy_leaf (gg_pc s q)" for q using q(1) by (metis leaf_simps(5) leaf_simps(8))
    then show ?thesis using f(9) [OF q(2,3)] by blast
  qed
  then show ?thesis using f(6,8) by blast
qed

theorem gather_lets_go_witness:
  "\<exists>s. gather_step\<^sup>*\<^sup>* (gathering_new (Sets [Handle 3, Handle (4 :: nat)]) :: nat gathering) s \<and>
    gg_pc s [0] = Left \<and> \<not> ga_target (gg_gather s)"
proof -
  let ?s0 = "gathering_new (Sets [Handle 3, Handle (4 :: nat)]) :: nat gathering"
  let ?s1 = "?s0\<lparr>gg_gather := (gg_gather ?s0)\<lparr>ga_broken := True\<rparr>, gg_pc := (gg_pc ?s0)([0] := Leaving)\<rparr>"
  let ?s2 = "?s1\<lparr>gg_pc := (gg_pc ?s1)([0] := Dropping)\<rparr>"
  let ?s3 = "?s2\<lparr>gg_gather := let_go_target (gg_gather ?s2), gg_pc := (gg_pc ?s2)([0] := Left)\<rparr>"
  have "gather_step ?s0 ?s1"
    by (rule gather_step.leaves) (simp_all add: gathering_new_def gather_new_def)
  moreover have "gather_step ?s1 ?s2"
    using gather_step.looks [of ?s1 "[0]"] by (simp add: gathering_new_def gather_new_def still_coming_def)
  moreover have "gather_step ?s2 ?s3" by (rule gather_step.drops) simp
  ultimately have r: "gather_step\<^sup>*\<^sup>* ?s0 ?s3" by (meson converse_rtranclp_into_rtranclp rtranclp.rtrancl_refl)
  have "\<not> ga_target (gg_gather ?s3)"
    using gather_lets_go [OF r, of "[0]"] by (simp add: gathering_new_def gather_new_def let_go_target_def)
  with r show ?thesis by (intro exI [of _ ?s3]) simp
qed

text \<open>Two leaves, spelled out.\<close>

definition two_leaves ::
  "nat option \<Rightarrow> nat option \<Rightarrow> bool \<Rightarrow> bool \<Rightarrow> nat \<Rightarrow> nat leaf_pc \<Rightarrow> nat leaf_pc \<Rightarrow> nat assembled list
    \<Rightarrow> nat assembled list \<Rightarrow> nat gathering" where
  "two_leaves a b target broken giving pa pb given gone =
     \<lparr>gg_gather = \<lparr>ga_slots = SlotSets [SlotLeaf a, SlotLeaf b], ga_target = target, ga_leaves = 0,
        ga_broken = broken, ga_giving = giving\<rparr>,
      gg_pc = (\<lambda>p. if p = [0] then pa else if p = [1] then pb else Resting), gg_given = given, gg_lost = gone\<rparr>"

lemma two_leaves_new: "gathering_new (Sets [Handle 3, Handle (4 :: nat)]) = two_leaves None None True False 0 Resting Resting [] []"
  by (simp add: gathering_new_def gather_new_def two_leaves_def fun_eq_iff)

lemma step_to: "gather_step s t' \<Longrightarrow> t' = t \<Longrightarrow> gather_step s t"
  by simp

lemmas two_leaves_steps = two_leaves_def fill_locked_def let_go_target_def still_coming_def fun_eq_iff

text \<open>
  C39: a complete round can be lost. Two tasks publish twice each; while the first round is
  being given, the second task publishes its next value and goes. Its slot is full, so it
  leaves the target to the fill that gives the round, but the fill of the first round finds
  the set broken and lets the target go, and the second round, complete, has nobody to go to.
\<close>
theorem gather_loses_a_round:
  "\<exists>s. gather_step\<^sup>*\<^sup>* (gathering_new (Sets [Handle 3, Handle (4 :: nat)])) s \<and>
    gg_given s = [Many [One 1, One 10]] \<and> gg_lost s = [Many [One 2, One (20 :: nat)]]"
proof -
  have "gather_step (two_leaves None None True False 0 Resting Resting [] [])
      (two_leaves None (Some 10) True False 0 Resting Resting [] [])"
    by (rule step_to [OF gather_step.part [where p = "[1]" and v = 10]]) (auto simp: two_leaves_steps)
  moreover have "gather_step (two_leaves None (Some 10) True False 0 Resting Resting [] [])
      (two_leaves None None True False 1 (Giving (Many [One 1, One 10])) Resting [] [])"
    by (rule step_to [OF gather_step.full [where p = "[0]" and v = 1]]) (auto simp: two_leaves_steps)
  moreover have "gather_step (two_leaves None None True False 1 (Giving (Many [One 1, One 10])) Resting [] [])
      (two_leaves None (Some 20) True False 1 (Giving (Many [One 1, One 10])) Resting [] [])"
    by (rule step_to [OF gather_step.part [where p = "[1]" and v = 20]]) (auto simp: two_leaves_steps)
  moreover have "gather_step (two_leaves None (Some 20) True False 1 (Giving (Many [One 1, One 10])) Resting [] [])
      (two_leaves None (Some 20) True True 1 (Giving (Many [One 1, One 10])) Leaving [] [])"
    by (rule step_to [OF gather_step.leaves [where p = "[1]"]]) (auto simp: two_leaves_steps)
  moreover have "gather_step (two_leaves None (Some 20) True True 1 (Giving (Many [One 1, One 10])) Leaving [] [])
      (two_leaves None (Some 20) True True 1 (Giving (Many [One 1, One 10])) Left [] [])"
    by (rule step_to [OF gather_step.looks [where p = "[1]"]]) (auto simp: two_leaves_steps)
  moreover have "gather_step (two_leaves None (Some 20) True True 1 (Giving (Many [One 1, One 10])) Left [] [])
      (two_leaves None (Some 20) True True 1 Lowering Left [Many [One 1, One 10]] [])"
    by (rule step_to [OF gather_step.gives [where p = "[0]"]]) (auto simp: two_leaves_steps)
  moreover have "gather_step (two_leaves None (Some 20) True True 1 Lowering Left [Many [One 1, One 10]] [])
      (two_leaves None (Some 20) True True 0 Checking Left [Many [One 1, One 10]] [])"
    by (rule step_to [OF gather_step.lowers [where p = "[0]"]]) (auto simp: two_leaves_steps)
  moreover have "gather_step (two_leaves None (Some 20) True True 0 Checking Left [Many [One 1, One 10]] [])
      (two_leaves None (Some 20) True True 0 Releasing Left [Many [One 1, One 10]] [])"
    by (rule step_to [OF gather_step.checks [where p = "[0]"]]) (auto simp: two_leaves_steps)
  moreover have "gather_step (two_leaves None (Some 20) True True 0 Releasing Left [Many [One 1, One 10]] [])
      (two_leaves None (Some 20) False True 0 Resting Left [Many [One 1, One 10]] [])"
    by (rule step_to [OF gather_step.releases [where p = "[0]"]]) (auto simp: two_leaves_steps)
  moreover have "gather_step (two_leaves None (Some 20) False True 0 Resting Left [Many [One 1, One 10]] [])
      (two_leaves None None False True 1 (Giving (Many [One 2, One 20])) Left [Many [One 1, One 10]] [])"
    by (rule step_to [OF gather_step.full [where p = "[0]" and v = 2]]) (auto simp: two_leaves_steps)
  moreover have "gather_step (two_leaves None None False True 1 (Giving (Many [One 2, One 20])) Left [Many [One 1, One 10]] [])
      (two_leaves None None False True 1 Lowering Left [Many [One 1, One 10]] [Many [One 2, One 20]])"
    by (rule step_to [OF gather_step.loses [where p = "[0]"]]) (auto simp: two_leaves_steps)
  ultimately have "gather_step\<^sup>*\<^sup>* (two_leaves None None True False 0 Resting Resting [] [])
      (two_leaves None None False True 1 Lowering Left [Many [One 1, One 10]] [Many [One 2, One 20]])"
    by (meson converse_rtranclp_into_rtranclp rtranclp.rtrancl_refl)
  then show ?thesis unfolding two_leaves_new by (intro exI conjI) (auto simp: two_leaves_def)
qed

end
