(* ===== verification/Process.thy ===== *)
theory Process
  imports Kernel_Events
begin

text \<open>
  Running other programs, in \<open>src/futures/process\<close>: \<open>exit_status.rs\<close> and
  \<open>process_task.rs\<close> (the program as the kernel takes it, the environment, starting a child,
  feeding it while its output is read, waiting for its end, and the guard that never leaves one
  behind).

  Bytes are characters. What a system call answers is a parameter. A run also keeps the list of
  the calls it made that anybody outside can tell, in order, so that a signal sent or a
  descriptor closed too early is visible.
\<close>

unbundle bit_operations_syntax

type_synonym i32 = "32 word"

definition FILE_CHUNK :: nat where "FILE_CHUNK = 64 * 1024"
definition EAGAIN :: int where "EAGAIN = 35"
definition EPIPE :: int where "EPIPE = 32"
definition ENOSYS :: int where "ENOSYS = 78"
definition SIGKILL :: int where "SIGKILL = 9"
definition NO_CHILD :: int where "NO_CHILD = -1"
definition IGNORED :: int where "IGNORED = -1"

section \<open>How a child ended\<close>

definition STATUS_MASK :: i32 where "STATUS_MASK = 127"
definition STATUS_STOPPED :: i32 where "STATUS_STOPPED = 127"
definition CODE_SHIFT :: nat where "CODE_SHIFT = 8"

definition exit_code :: "i32 \<Rightarrow> i32 option" where
  "exit_code raw =
     (if raw AND STATUS_MASK \<noteq> 0 then None else Some (signed_drop_bit CODE_SHIFT raw AND 0xff))"

definition exit_signal :: "i32 \<Rightarrow> i32 option" where
  "exit_signal raw =
     (let status = raw AND STATUS_MASK in
      if status = 0 \<or> status = STATUS_STOPPED then None else Some status)"

definition exit_success :: "i32 \<Rightarrow> bool" where
  "exit_success raw \<longleftrightarrow> exit_code raw = Some 0"

section \<open>The program as the kernel takes it\<close>

definition as_c_arg :: "string \<Rightarrow> string option" where
  "as_c_arg s = (if CHR 0x00 \<in> set s then None else Some s)"

record program =
  pg_file :: "string option"
  pg_args :: "string list option"

definition program_new :: "string \<Rightarrow> string list \<Rightarrow> program" where
  "program_new file args = \<lparr>pg_file = as_c_arg file, pg_args = those (map as_c_arg args)\<rparr>"

definition relative :: "string \<Rightarrow> bool" where
  "relative file \<longleftrightarrow> take 1 file \<noteq> ''/'' \<and> CHR ''/'' \<in> set file"

definition join_dir :: "string \<Rightarrow> string \<Rightarrow> string res" where
  "join_dir dir file =
     (let path = dir @ (if dir \<noteq> [] \<and> last dir = CHR ''/'' then [] else ''/'') @ file
      in case as_c_arg path of None \<Rightarrow> Inl BadDirectory | Some p \<Rightarrow> Inr p)"

text \<open>A vector ends in a null.\<close>

definition argv :: "program \<Rightarrow> string option \<Rightarrow> (string \<times> string option list) res" where
  "argv pg dir =
     (case pg_file pg of
        None \<Rightarrow> Inl BadPath
      | Some file \<Rightarrow>
          (case pg_args pg of
             None \<Rightarrow> Inl BadArgument
           | Some args \<Rightarrow>
               (let vec = map Some (file # args) @ [None] in
                case dir of
                  Some d \<Rightarrow>
                    if relative file
                    then (case join_dir d file of Inl e \<Rightarrow> Inl e | Inr p \<Rightarrow> Inr (p, vec))
                    else Inr (file, vec)
                | None \<Rightarrow> Inr (file, vec))))"

datatype child_dir = DirInherited | DirAt string | DirBad

datatype child_env = EnvInherited | EnvOver "string list" | EnvOnly "string list" | EnvBad

definition as_dir :: "string \<Rightarrow> child_dir" where
  "as_dir path =
     (if take 1 path \<noteq> ''/'' then DirBad
      else case as_c_arg path of Some d \<Rightarrow> DirAt d | None \<Rightarrow> DirBad)"

definition as_c_var :: "string \<Rightarrow> string \<Rightarrow> string option" where
  "as_c_var name val =
     (if name = [] \<or> CHR ''='' \<in> set name then None else as_c_arg (name @ ''='' @ val))"

definition as_env :: "(string \<times> string) list \<Rightarrow> (string list \<Rightarrow> child_env) \<Rightarrow> child_env" where
  "as_env vars into =
     (case those (map (\<lambda>(name, val). as_c_var name val) vars) of Some vs \<Rightarrow> into vs | None \<Rightarrow> EnvBad)"

definition env_key :: "string \<Rightarrow> string" where
  "env_key entry = takeWhile (\<lambda>c. c \<noteq> CHR ''='') entry"

definition env_merge :: "string list \<Rightarrow> string list \<Rightarrow> string option list" where
  "env_merge base over =
     map Some (filter (\<lambda>e. \<not> (\<exists>v\<in>set over. env_key v = env_key e)) base @ over) @ [None]"

definition envp :: "string list \<Rightarrow> child_env \<Rightarrow> string option list option res" where
  "envp inherited en =
     (case en of
        EnvInherited \<Rightarrow> Inr None
      | EnvBad \<Rightarrow> Inl BadVariable
      | EnvOnly vars \<Rightarrow> Inr (Some (map Some vars @ [None]))
      | EnvOver vars \<Rightarrow> Inr (Some (env_merge inherited vars)))"

record child_setup =
  cs_input :: "string option"
  cs_dir :: child_dir
  cs_env :: child_env

text \<open>The calls that set a task up, each keeping the last of its kind.\<close>

datatype setup_call = Input string | InDir string | Env "(string \<times> string) list" | EnvOnlyThese "(string \<times> string) list"

fun set_up :: "child_setup \<Rightarrow> setup_call \<Rightarrow> child_setup" where
  "set_up su (Input d) = su\<lparr>cs_input := Some d\<rparr>"
| "set_up su (InDir path) = su\<lparr>cs_dir := as_dir path\<rparr>"
| "set_up su (Env vars) = su\<lparr>cs_env := as_env vars EnvOver\<rparr>"
| "set_up su (EnvOnlyThese vars) = su\<lparr>cs_env := as_env vars EnvOnly\<rparr>"

section \<open>Starting a child\<close>

record stdio =
  io_input :: "int option"
  io_capture :: "(int \<times> int) option"

datatype file_action = Dup2 int int | OpenNull int | Chdir string

record spawn_request =
  sr_file :: string
  sr_argv :: "string option list"
  sr_envp :: "string option list"
  sr_actions :: "file_action list"

definition spawn_check :: "int \<Rightarrow> unit res" where
  "spawn_check code = (if code = 0 then Inr () else Inl (CheckError (Some code)))"

text \<open>
  \<open>sk_codes n\<close> answers the n-th call that prepares the spawn, \<open>sk_chdir\<close> says whether the
  platform has the call that sets a directory, \<open>sk_sets\<close> answers the two calls that make signal
  sets, \<open>sk_inherited\<close> is this process's own environment, and \<open>sk_spawned\<close> is the kernel's
  answer to a request: a code, and the child.
\<close>

record spawn_kernel =
  sk_codes :: "nat \<Rightarrow> int"
  sk_chdir :: bool
  sk_sets :: "unit res"
  sk_inherited :: "string list"
  sk_spawned :: "spawn_request \<Rightarrow> int \<times> int"

fun prepared :: "(nat \<Rightarrow> int) \<Rightarrow> nat list \<Rightarrow> unit res" where
  "prepared codes [] = Inr ()"
| "prepared codes (n # ns) = (case spawn_check (codes n) of Inl e \<Rightarrow> Inl e | Inr _ \<Rightarrow> prepared codes ns)"

definition stdio_actions :: "stdio \<Rightarrow> file_action list" where
  "stdio_actions io =
     (case io_input io of Some fd \<Rightarrow> Dup2 fd 0 | None \<Rightarrow> OpenNull 0) #
     (case io_capture io of Some (out, err) \<Rightarrow> [Dup2 out 1, Dup2 err 2] | None \<Rightarrow> [Dup2 1 1, Dup2 2 2])"

definition spawn_child ::
  "spawn_kernel \<Rightarrow> program \<Rightarrow> child_setup \<Rightarrow> stdio \<Rightarrow> int res" where
  "spawn_child sk pg su io =
     (let dir = (case cs_dir su of DirInherited \<Rightarrow> Inr None | DirAt d \<Rightarrow> Inr (Some d) | DirBad \<Rightarrow> Inl BadDirectory)
      in case dir of
           Inl e \<Rightarrow> Inl e
         | Inr dir \<Rightarrow>
             (case argv pg dir of
                Inl e \<Rightarrow> Inl e
              | Inr (file, vec) \<Rightarrow>
                  (case envp (sk_inherited sk) (cs_env su) of
                     Inl e \<Rightarrow> Inl e
                   | Inr env \<Rightarrow>
                       (case prepared (sk_codes sk) [0..<5] of
                          Inl e \<Rightarrow> Inl e
                        | Inr _ \<Rightarrow>
                            (let moved = (case dir of
                                   None \<Rightarrow> Inr []
                                 | Some d \<Rightarrow>
                                     if \<not> sk_chdir sk then Inl (CheckError (Some ENOSYS))
                                     else (case spawn_check (sk_codes sk 5) of Inl e \<Rightarrow> Inl e | Inr _ \<Rightarrow> Inr [Chdir d]))
                             in case moved of
                                  Inl e \<Rightarrow> Inl e
                                | Inr last_action \<Rightarrow>
                                    (case sk_sets sk of
                                       Inl e \<Rightarrow> Inl e
                                     | Inr _ \<Rightarrow>
                                         (case prepared (sk_codes sk) [6..<10] of
                                            Inl e \<Rightarrow> Inl e
                                          | Inr _ \<Rightarrow>
                                              (let (code, pid) = sk_spawned sk
                                                     \<lparr>sr_file = file, sr_argv = vec,
                                                      sr_envp = (case env of Some v \<Rightarrow> v | None \<Rightarrow> map Some (sk_inherited sk) @ [None]),
                                                      sr_actions = stdio_actions io @ last_action\<rparr>
                                               in case spawn_check code of Inl e \<Rightarrow> Inl e | Inr _ \<Rightarrow> Inr pid))))))))"

section \<open>What can be told from outside\<close>

datatype wait_answer = StillRunning | ReapedWith i32 | CantWait

datatype proc_call =
    ReadCall int string | WriteCall int string | BrokenPipe int | WatchOff int nat int | CloseFd int
  | KillCall int int | WaitCall int wait_answer

section \<open>Feeding a child while its output is read\<close>

text \<open>
  The n-th read and the n-th write are answered by \<open>xk_read n\<close> and \<open>xk_write n\<close>: the bytes
  there were on a descriptor, and how many of the wanted bytes were taken. \<open>xk_events\<close> are the
  wakes, \<open>xk_poll\<close> the answers of a poll on the three descriptors, \<open>xk_cancelled\<close> what the task's
  state says after a wake, \<open>xk_watch\<close> the answers to the registrations, and the last two whether
  the wait may start and whether it was not cancelled when it ended.
\<close>

record exchange_kernel =
  xk_read :: "nat \<Rightarrow> int \<Rightarrow> string res"
  xk_write :: "nat \<Rightarrow> nat \<Rightarrow> nat res"
  xk_events :: "nat \<Rightarrow> kevent list res"
  xk_poll :: "nat \<Rightarrow> int list \<Rightarrow> (nat \<times> bool list) res"
  xk_cancelled :: "nat \<Rightarrow> bool"
  xk_watch :: "nat \<Rightarrow> unit res"
  xk_waiting_on :: bool
  xk_stopped_waiting :: bool

record exchange_state =
  xs_open :: "bool list"
  xs_found :: "string list"
  xs_end :: "int option"
  xs_sent :: nat
  xs_calls :: nat
  xs_log :: "proc_call list"

definition write_chunk :: "(nat \<Rightarrow> nat res) \<Rightarrow> string \<Rightarrow> nat \<Rightarrow> (bool \<times> nat) res" where
  "write_chunk answer data sent =
     (let want = min (length data - sent) FILE_CHUNK in
      if want = 0 then Inr (False, sent)
      else
        (case answer want of
           Inr put \<Rightarrow> Inr (sent + put < length data, sent + put)
         | Inl e \<Rightarrow>
             if e = CheckError (Some EINTR) \<or> e = CheckError (Some EAGAIN) then Inr (True, sent)
             else if e = CheckError (Some EPIPE) then Inr (False, sent)
             else Inl e))"

definition read_chunk :: "string res \<Rightarrow> string \<Rightarrow> (bool \<times> string) res" where
  "read_chunk answer into =
     (case answer of
        Inr got \<Rightarrow> if got = [] then Inr (False, into) else Inr (True, into @ got)
      | Inl e \<Rightarrow> if e = CheckError (Some EINTR) then Inr (True, into) else Inl e)"

text \<open>The calls these two come to.\<close>

definition write_calls :: "(nat \<Rightarrow> nat res) \<Rightarrow> int \<Rightarrow> string \<Rightarrow> nat \<Rightarrow> proc_call list" where
  "write_calls answer fd data sent =
     (let want = min (length data - sent) FILE_CHUNK in
      if want = 0 then []
      else
        (case answer want of
           Inr put \<Rightarrow> [WriteCall fd (take put (drop sent data))]
         | Inl e \<Rightarrow> if e = CheckError (Some EPIPE) then [BrokenPipe fd] else []))"

definition read_calls :: "string res \<Rightarrow> int \<Rightarrow> proc_call list" where
  "read_calls answer fd = (case answer of Inr got \<Rightarrow> [ReadCall fd got] | Inl _ \<Rightarrow> [])"

definition feed_is :: "exchange_state \<Rightarrow> kevent \<Rightarrow> bool" where
  "feed_is xs ev =
     (case xs_end xs of
        Some fd \<Rightarrow> ke_filter ev = EVFILT_WRITE \<and> ke_ident ev = usize_of fd
      | None \<Rightarrow> False)"

definition feed_finish :: "int \<Rightarrow> exchange_state \<Rightarrow> exchange_state" where
  "feed_finish queue xs =
     (case xs_end xs of
        None \<Rightarrow> xs
      | Some fd \<Rightarrow>
          xs\<lparr>xs_end := None, xs_log := xs_log xs @ [WatchOff queue (usize_of fd) EVFILT_WRITE, CloseFd fd]\<rparr>)"

definition feed_push ::
  "exchange_kernel \<Rightarrow> int \<Rightarrow> string \<Rightarrow> exchange_state \<Rightarrow> unit res \<times> exchange_state" where
  "feed_push xk queue data xs =
     (case xs_end xs of
        None \<Rightarrow> (Inr (), xs)
      | Some fd \<Rightarrow>
        (let xs1 = xs\<lparr>xs_calls := xs_calls xs + 1,
               xs_log := xs_log xs @ write_calls (xk_write xk (xs_calls xs)) fd data (xs_sent xs)\<rparr> in
         case write_chunk (xk_write xk (xs_calls xs)) data (xs_sent xs) of
           Inl e \<Rightarrow> (Inl e, xs1)
         | Inr (again, sent) \<Rightarrow>
             (let xs2 = xs1\<lparr>xs_sent := sent\<rparr>
              in (Inr (), if again then xs2 else feed_finish queue xs2))))"

text \<open>One chunk of a stream, and its watch taken off at its end where it has one.\<close>

definition read_slot ::
  "exchange_kernel \<Rightarrow> int option \<Rightarrow> int list \<Rightarrow> nat \<Rightarrow> exchange_state \<Rightarrow> unit res \<times> exchange_state" where
  "read_slot xk queue ends k xs =
     (let answer = xk_read xk (xs_calls xs) (ends ! k);
          xs1 = xs\<lparr>xs_calls := xs_calls xs + 1, xs_log := xs_log xs @ read_calls answer (ends ! k)\<rparr> in
      case read_chunk answer (xs_found xs ! k) of
        Inl e \<Rightarrow> (Inl e, xs1)
      | Inr (again, into) \<Rightarrow>
          (let xs2 = xs1\<lparr>xs_found := (xs_found xs)[k := into]\<rparr>
           in (Inr (),
               if again then xs2
               else xs2\<lparr>xs_open := (xs_open xs)[k := False],
                  xs_log := xs_log xs2 @
                    (case queue of Some q \<Rightarrow> [WatchOff q (usize_of (ends ! k)) EVFILT_READ] | None \<Rightarrow> [])\<rparr>)))"

definition slot_of :: "int list \<Rightarrow> nat \<Rightarrow> nat option" where
  "slot_of ends ident = List.find (\<lambda>k. usize_of (ends ! k) = ident) [0..<length ends]"

definition pump_event ::
  "exchange_kernel \<Rightarrow> int \<Rightarrow> int list \<Rightarrow> string \<Rightarrow> kevent \<Rightarrow> exchange_state \<Rightarrow> unit res \<times> exchange_state" where
  "pump_event xk queue ends data ev xs =
     (if ke_flags ev AND EV_ERROR \<noteq> 0 then (Inr (), xs)
      else if feed_is xs ev then feed_push xk queue data xs
      else if ke_filter ev \<noteq> EVFILT_READ then (Inr (), xs)
      else
        (case slot_of ends (ke_ident ev) of
           None \<Rightarrow> (Inr (), xs)
         | Some k \<Rightarrow> if \<not> xs_open xs ! k then (Inr (), xs) else read_slot xk (Some queue) ends k xs))"

fun pump_events ::
  "exchange_kernel \<Rightarrow> int \<Rightarrow> int list \<Rightarrow> string \<Rightarrow> kevent list \<Rightarrow> exchange_state \<Rightarrow> unit res \<times> exchange_state" where
  "pump_events xk queue ends data [] xs = (Inr (), xs)"
| "pump_events xk queue ends data (ev # evs) xs =
     (case pump_event xk queue ends data ev xs of
        (Inl e, xs1) \<Rightarrow> (Inl e, xs1)
      | (Inr _, xs1) \<Rightarrow> pump_events xk queue ends data evs xs1)"

definition pump_wanted :: "exchange_state \<Rightarrow> bool" where
  "pump_wanted xs \<longleftrightarrow> (\<exists>b\<in>set (xs_open xs). b) \<or> xs_end xs \<noteq> None"

partial_function (option) pump ::
  "exchange_kernel \<Rightarrow> int \<Rightarrow> int list \<Rightarrow> string \<Rightarrow> nat \<Rightarrow> exchange_state \<Rightarrow> (unit res \<times> exchange_state) option" where
  [code]: "pump xk queue ends data n xs =
     (if \<not> pump_wanted xs then Some (Inr (), xs)
      else
        (case xk_events xk n of
           Inl e \<Rightarrow>
             if e = CheckError (Some EINTR) then pump xk queue ends data (n + 1) xs else Some (Inl e, xs)
         | Inr evs \<Rightarrow>
             (case pump_events xk queue ends data evs xs of
                (Inl e, xs1) \<Rightarrow> Some (Inl e, xs1)
              | (Inr _, xs1) \<Rightarrow>
                  if xk_cancelled xk n then Some (Inl ECancelled, xs1)
                  else pump xk queue ends data (n + 1) xs1)))"

fun watch_reads :: "exchange_kernel \<Rightarrow> int list \<Rightarrow> nat list \<Rightarrow> bool list \<Rightarrow> unit res \<times> bool list" where
  "watch_reads xk ends [] opens = (Inr (), opens)"
| "watch_reads xk ends (k # ks) opens =
     (if ends ! k = IGNORED then watch_reads xk ends ks opens
      else
        (case xk_watch xk k of
           Inl e \<Rightarrow> (Inl e, opens)
         | Inr _ \<Rightarrow> watch_reads xk ends ks (opens[k := True])))"

text \<open>The guard on the read watches.\<close>

definition drop_reads :: "int \<Rightarrow> int list \<Rightarrow> exchange_state \<Rightarrow> exchange_state" where
  "drop_reads queue ends xs =
     xs\<lparr>xs_open := map (\<lambda>_. False) (xs_open xs),
       xs_log := xs_log xs @
         map (\<lambda>k. WatchOff queue (usize_of (ends ! k)) EVFILT_READ)
           (filter (\<lambda>k. xs_open xs ! k) [0..<length ends])\<rparr>"

definition exchange_io ::
  "exchange_kernel \<Rightarrow> int \<Rightarrow> int option \<Rightarrow> string \<Rightarrow> int option \<Rightarrow> int option
    \<Rightarrow> ((string \<times> string) res \<times> exchange_state) option" where
  "exchange_io xk queue input data out err = do {
     let ends = [case out of Some fd \<Rightarrow> fd | None \<Rightarrow> IGNORED, case err of Some fd \<Rightarrow> fd | None \<Rightarrow> IGNORED];
     let (watched, opens) = watch_reads xk ends [0, 1] [False, False];
     let xs = \<lparr>xs_open = opens, xs_found = [[], []], xs_end = input, xs_sent = 0, xs_calls = 0, xs_log = []\<rparr>;
     let ready = (case watched of Inl e \<Rightarrow> Inl e | Inr _ \<Rightarrow> if input = None then Inr () else xk_watch xk 2);
     (outcome, xs1) \<leftarrow>
       (case ready of
          Inl e \<Rightarrow> Some (Inl e, xs)
        | Inr _ \<Rightarrow>
            if \<not> xk_waiting_on xk then Some (Inl ECancelled, xs)
            else do {
              (pumped, xs1) \<leftarrow> pump xk queue ends data 0 xs;
              Some (if xk_stopped_waiting xk then pumped else Inl ECancelled, xs1)
            });
     let xs2 = feed_finish queue (drop_reads queue ends xs1);
     Some (case outcome of Inl e \<Rightarrow> Inl e | Inr _ \<Rightarrow> Inr (xs_found xs2 ! 0, xs_found xs2 ! 1), xs2)
   }"

text \<open>The same without a queue.\<close>

fun poll_reads ::
  "exchange_kernel \<Rightarrow> int list \<Rightarrow> bool list \<Rightarrow> nat list \<Rightarrow> exchange_state \<Rightarrow> unit res \<times> exchange_state" where
  "poll_reads xk ends revents [] xs = (Inr (), xs)"
| "poll_reads xk ends revents (k # ks) xs =
     (if \<not> xs_open xs ! k \<or> \<not> revents ! k then poll_reads xk ends revents ks xs
      else
        (case read_slot xk None ends k xs of
           (Inl e, xs1) \<Rightarrow> (Inl e, xs1)
         | (Inr _, xs1) \<Rightarrow> poll_reads xk ends revents ks xs1))"

definition poll_write :: "exchange_kernel \<Rightarrow> string \<Rightarrow> exchange_state \<Rightarrow> unit res \<times> exchange_state" where
  "poll_write xk data xs =
     (let fd = (case xs_end xs of Some fd \<Rightarrow> fd | None \<Rightarrow> IGNORED);
          xs1 = xs\<lparr>xs_calls := xs_calls xs + 1,
            xs_log := xs_log xs @ write_calls (xk_write xk (xs_calls xs)) fd data (xs_sent xs)\<rparr> in
      case write_chunk (xk_write xk (xs_calls xs)) data (xs_sent xs) of
        Inl e \<Rightarrow> (Inl e, xs1)
      | Inr (again, sent) \<Rightarrow>
          (let xs2 = xs1\<lparr>xs_sent := sent\<rparr>
           in (Inr (),
               if again then xs2
               else xs2\<lparr>xs_end := None,
                  xs_log := xs_log xs2 @ (case xs_end xs of Some fd \<Rightarrow> [CloseFd fd] | None \<Rightarrow> [])\<rparr>)))"

definition poll_fds :: "int list \<Rightarrow> exchange_state \<Rightarrow> int list" where
  "poll_fds ends xs =
     [if xs_open xs ! 0 then ends ! 0 else IGNORED, if xs_open xs ! 1 then ends ! 1 else IGNORED,
      case xs_end xs of Some fd \<Rightarrow> fd | None \<Rightarrow> IGNORED]"

partial_function (option) poll_loop ::
  "exchange_kernel \<Rightarrow> int list \<Rightarrow> string \<Rightarrow> nat \<Rightarrow> exchange_state \<Rightarrow> (unit res \<times> exchange_state) option" where
  [code]: "poll_loop xk ends data n xs =
     (if \<not> pump_wanted xs then Some (Inr (), xs)
      else if xk_cancelled xk n then Some (Inl ECancelled, xs)
      else
        (case xk_poll xk n (poll_fds ends xs) of
           Inl e \<Rightarrow> if e = CheckError (Some EINTR) then poll_loop xk ends data (n + 1) xs else Some (Inl e, xs)
         | Inr (ready, revents) \<Rightarrow>
             if ready = 0 then poll_loop xk ends data (n + 1) xs
             else
               (case poll_reads xk ends revents [0..<length ends] xs of
                  (Inl e, xs1) \<Rightarrow> Some (Inl e, xs1)
                | (Inr _, xs1) \<Rightarrow>
                    (case (if revents ! 2 then poll_write xk data xs1 else (Inr (), xs1)) of
                       (Inl e, xs2) \<Rightarrow> Some (Inl e, xs2)
                     | (Inr _, xs2) \<Rightarrow> poll_loop xk ends data (n + 1) xs2))))"

definition poll_exchange ::
  "exchange_kernel \<Rightarrow> int option \<Rightarrow> string \<Rightarrow> int option \<Rightarrow> int option
    \<Rightarrow> ((string \<times> string) res \<times> exchange_state) option" where
  "poll_exchange xk input data out err = do {
     let ends = [case out of Some fd \<Rightarrow> fd | None \<Rightarrow> IGNORED, case err of Some fd \<Rightarrow> fd | None \<Rightarrow> IGNORED];
     let xs = \<lparr>xs_open = map (\<lambda>fd. fd \<noteq> IGNORED) ends, xs_found = [[], []], xs_end = input, xs_sent = 0,
       xs_calls = 0, xs_log = []\<rparr>;
     (outcome, xs1) \<leftarrow> poll_loop xk ends data 0 xs;
     Some (case outcome of Inl e \<Rightarrow> Inl e | Inr _ \<Rightarrow> Inr (xs_found xs1 ! 0, xs_found xs1 ! 1), xs1)
   }"

section \<open>Waiting for a child to end\<close>

record child =
  ch_pid :: int
  ch_queue :: "int option"

definition child_new :: "int \<Rightarrow> child" where
  "child_new pid = \<lparr>ch_pid = pid, ch_queue = None\<rparr>"

definition reaped :: "child \<Rightarrow> child" where
  "reaped ch = ch\<lparr>ch_pid := NO_CHILD\<rparr>"

text \<open>
  \<open>wk_waitpid n\<close> answers the n-th call that waits for a child: how many there were, and the
  status. \<open>wk_laps\<close> is how each lap of the wait on the queue ended and \<open>wk_cancelled\<close> what the
  task's state says after it.
\<close>

record wait_kernel =
  wk_waitpid :: "nat \<Rightarrow> int res \<times> i32"
  wk_watch :: bool
  wk_waiting_on :: bool
  wk_laps :: "nat \<Rightarrow> waited"
  wk_cancelled :: "nat \<Rightarrow> bool"
  wk_stopped_waiting :: bool

record wait_state =
  ws_calls :: nat
  ws_log :: "proc_call list"

partial_function (option) try_reap ::
  "wait_kernel \<Rightarrow> int \<Rightarrow> wait_state \<Rightarrow> (i32 option res \<times> wait_state) option" where
  [code]: "try_reap wk pid ws =
     (let (answer, status) = wk_waitpid wk (ws_calls ws); ws1 = ws\<lparr>ws_calls := ws_calls ws + 1\<rparr> in
      case answer of
        Inr found \<Rightarrow>
          if found = 0 then Some (Inr None, ws1\<lparr>ws_log := ws_log ws @ [WaitCall pid StillRunning]\<rparr>)
          else Some (Inr (Some status), ws1\<lparr>ws_log := ws_log ws @ [WaitCall pid (ReapedWith status)]\<rparr>)
      | Inl e \<Rightarrow>
          if e = CheckError (Some EINTR) then try_reap wk pid ws1
          else Some (Inl e, ws1\<lparr>ws_log := ws_log ws @ [WaitCall pid CantWait]\<rparr>))"

partial_function (option) reap_child ::
  "wait_kernel \<Rightarrow> int \<Rightarrow> wait_state \<Rightarrow> (i32 res \<times> wait_state) option" where
  [code]: "reap_child wk pid ws =
     (let (answer, status) = wk_waitpid wk (ws_calls ws); ws1 = ws\<lparr>ws_calls := ws_calls ws + 1\<rparr> in
      case answer of
        Inr _ \<Rightarrow> Some (Inr status, ws1\<lparr>ws_log := ws_log ws @ [WaitCall pid (ReapedWith status)]\<rparr>)
      | Inl e \<Rightarrow>
          if e = CheckError (Some EINTR) then reap_child wk pid ws1
          else Some (Inl e, ws1\<lparr>ws_log := ws_log ws @ [WaitCall pid CantWait]\<rparr>))"

definition kill_and_reap :: "wait_kernel \<Rightarrow> int \<Rightarrow> wait_state \<Rightarrow> wait_state option" where
  "kill_and_reap wk pid ws = do {
     (_, ws1) \<leftarrow> reap_child wk pid (ws\<lparr>ws_log := ws_log ws @ [KillCall (- pid) SIGKILL, KillCall pid SIGKILL]\<rparr>);
     Some ws1
   }"

definition unwatch_proc :: "int \<Rightarrow> int \<Rightarrow> wait_state \<Rightarrow> wait_state" where
  "unwatch_proc queue pid ws = ws\<lparr>ws_log := ws_log ws @ [WatchOff queue (usize_of pid) EVFILT_PROC]\<rparr>"

definition drop_child :: "wait_kernel \<Rightarrow> child \<Rightarrow> wait_state \<Rightarrow> wait_state option" where
  "drop_child wk ch ws =
     (if ch_pid ch = NO_CHILD then Some ws
      else kill_and_reap wk (ch_pid ch)
        (case ch_queue ch of Some q \<Rightarrow> unwatch_proc q (ch_pid ch) ws | None \<Rightarrow> ws))"

partial_function (option) poll_exit ::
  "wait_kernel \<Rightarrow> nat \<Rightarrow> child \<Rightarrow> wait_state \<Rightarrow> (i32 res \<times> child \<times> wait_state) option" where
  [code]: "poll_exit wk n ch ws = do {
     (r, ws1) \<leftarrow> try_reap wk (ch_pid ch) ws;
     case r of
       Inr (Some status) \<Rightarrow> Some (Inr status, reaped ch, ws1)
     | Inl e \<Rightarrow> Some (Inl e, reaped ch, ws1)
     | Inr None \<Rightarrow>
         if wk_cancelled wk n then Some (Inl ECancelled, ch, ws1) else poll_exit wk (n + 1) ch ws1
   }"

text \<open>The laps of the wait: an outcome, or none when the queue failed.\<close>

partial_function (option) wait_laps ::
  "wait_kernel \<Rightarrow> int \<Rightarrow> nat \<Rightarrow> wait_state \<Rightarrow> (i32 res option \<times> nat \<times> wait_state) option" where
  [code]: "wait_laps wk pid n ws = do {
     let waited = wk_laps wk n;
     (r, ws1) \<leftarrow> try_reap wk pid ws;
     case r of
       Inr (Some status) \<Rightarrow> Some (Some (Inr status), n + 1, ws1)
     | Inl e \<Rightarrow> Some (Some (Inl e), n + 1, ws1)
     | Inr None \<Rightarrow>
         if waited = WaitCancelled \<or> wk_cancelled wk n then Some (Some (Inl ECancelled), n + 1, ws1)
         else if waited = WaitFailed then Some (None, n + 1, ws1)
         else wait_laps wk pid (n + 1) ws1
   }"

definition wait_exit ::
  "wait_kernel \<Rightarrow> int option \<Rightarrow> child \<Rightarrow> wait_state \<Rightarrow> (i32 res \<times> child \<times> wait_state) option" where
  "wait_exit wk queue ch ws =
     (case queue of
        None \<Rightarrow> poll_exit wk 0 ch ws
      | Some q \<Rightarrow>
          if \<not> wk_watch wk then poll_exit wk 0 ch ws
          else do {
            let pid = ch_pid ch;
            let ch1 = ch\<lparr>ch_queue := Some q\<rparr>;
            (r, ws1) \<leftarrow> try_reap wk pid ws;
            case r of
              Inr (Some status) \<Rightarrow> Some (Inr status, reaped ch1, unwatch_proc q pid ws1)
            | Inl e \<Rightarrow> Some (Inl e, reaped ch1, unwatch_proc q pid ws1)
            | Inr None \<Rightarrow>
                if \<not> wk_waiting_on wk then Some (Inl ECancelled, ch1, unwatch_proc q pid ws1)
                else do {
                  (outcome, n, ws2) \<leftarrow> wait_laps wk pid 0 ws1;
                  let ws3 = unwatch_proc q pid ws2;
                  case outcome of
                    None \<Rightarrow> poll_exit wk n ch1 ws3
                  | Some r \<Rightarrow>
                      if \<not> wk_stopped_waiting wk then Some (Inl ECancelled, ch1, ws3)
                      else Some (r, reaped ch1, ws3)
                }
          })"

section \<open>The two tasks\<close>

text \<open>What either task does once the child has started. The guard is dropped on every way out.\<close>

definition child_tail ::
  "wait_kernel \<Rightarrow> int option \<Rightarrow> int \<Rightarrow> 'a res \<Rightarrow> wait_state \<Rightarrow> (('a \<times> i32) res \<times> wait_state) option" where
  "child_tail wk queue pid exchanged ws =
     (case exchanged of
        Inl e \<Rightarrow> do { ws1 \<leftarrow> drop_child wk (child_new pid) ws; Some (Inl e, ws1) }
      | Inr x \<Rightarrow> do {
          (r, ch, ws1) \<leftarrow> wait_exit wk queue (child_new pid) ws;
          ws2 \<leftarrow> drop_child wk ch ws1;
          Some (case r of Inl e \<Rightarrow> Inl e | Inr status \<Rightarrow> Inr (x, status), ws2)
        })"

text \<open>
  \<open>gone\<close> says that the task was cancelled before it began, the pipes are the kernel's answers,
  and \<open>queue\<close> is the thread's own queue, if there is one.
\<close>

definition status_task ::
  "spawn_kernel \<Rightarrow> exchange_kernel \<Rightarrow> wait_kernel \<Rightarrow> int option \<Rightarrow> bool \<Rightarrow> (int \<times> int) res \<Rightarrow> program
    \<Rightarrow> child_setup \<Rightarrow> wait_state \<Rightarrow> (i32 res \<times> wait_state) option" where
  "status_task sk xk wk queue gone in_pipe pg su ws =
     (let data = (case cs_input su of Some d \<Rightarrow> d | None \<Rightarrow> []) in
      if gone then Some (Inl ECancelled, ws)
      else if data = [] then
        (case spawn_child sk pg su \<lparr>io_input = None, io_capture = None\<rparr> of
           Inl e \<Rightarrow> Some (Inl e, ws)
         | Inr pid \<Rightarrow> do {
             (r, ws1) \<leftarrow> child_tail wk queue pid (Inr ()) ws;
             Some (map_sum id snd r, ws1)
           })
      else
        (case in_pipe of
           Inl e \<Rightarrow> Some (Inl e, ws)
         | Inr (in_read, in_write) \<Rightarrow>
             (case spawn_child sk pg su \<lparr>io_input = Some in_read, io_capture = None\<rparr> of
                Inl e \<Rightarrow> Some (Inl e, ws)
              | Inr pid \<Rightarrow> do {
                  (fed, _) \<leftarrow> (case queue of
                      Some q \<Rightarrow> exchange_io xk q (Some in_write) data None None
                    | None \<Rightarrow> poll_exchange xk (Some in_write) data None None);
                  (r, ws1) \<leftarrow> child_tail wk queue pid fed ws;
                  Some (map_sum id snd r, ws1)
                })))"

definition output_task ::
  "spawn_kernel \<Rightarrow> exchange_kernel \<Rightarrow> wait_kernel \<Rightarrow> int option \<Rightarrow> bool \<Rightarrow> (int \<times> int) res \<Rightarrow> (int \<times> int) res
    \<Rightarrow> (int \<times> int) res \<Rightarrow> program \<Rightarrow> child_setup \<Rightarrow> wait_state
    \<Rightarrow> (((string \<times> string) \<times> i32) res \<times> wait_state) option" where
  "output_task sk xk wk queue gone in_pipe out_pipe err_pipe pg su ws =
     (let data = (case cs_input su of Some d \<Rightarrow> d | None \<Rightarrow> []);
          feeding = (if data = [] then Inr None else map_sum id Some in_pipe)
      in if gone then Some (Inl ECancelled, ws)
         else
           (case feeding of
              Inl e \<Rightarrow> Some (Inl e, ws)
            | Inr feed \<Rightarrow>
                (case out_pipe of
                   Inl e \<Rightarrow> Some (Inl e, ws)
                 | Inr (out_read, out_write) \<Rightarrow>
                     (case err_pipe of
                        Inl e \<Rightarrow> Some (Inl e, ws)
                      | Inr (err_read, err_write) \<Rightarrow>
                          (case spawn_child sk pg su
                              \<lparr>io_input = map_option fst feed, io_capture = Some (out_write, err_write)\<rparr> of
                             Inl e \<Rightarrow> Some (Inl e, ws)
                           | Inr pid \<Rightarrow> do {
                               (got, _) \<leftarrow> (case queue of
                                   Some q \<Rightarrow> exchange_io xk q (map_option snd feed) data (Some out_read) (Some err_read)
                                 | None \<Rightarrow> poll_exchange xk (map_option snd feed) data (Some out_read) (Some err_read));
                               child_tail wk queue pid got ws
                             })))))"

end
