(* ===== verification/Process_Facts.thy ===== *)
theory Process_Facts
  imports Process Pool_Frame
begin

text \<open>
  What running programs guarantees: statuses and environments read back as they were written,
  everything a child wrote is kept in order and it is fed a prefix of what it was given, and
  every child started is waited for. Also the wait that forgets it reaped its child.
\<close>

section \<open>Statuses\<close>

lemma mask_values: "STATUS_MASK = mask 7" "STATUS_STOPPED = mask 7" "(0xff :: i32) = mask 8"
  by (simp_all add: STATUS_MASK_def STATUS_STOPPED_def mask_eq_exp_minus_1)

lemma code_shifted: "exit_code (push_bit 8 c) = Some (take_bit 8 c)"
proof -
  have "push_bit 8 c AND STATUS_MASK = 0"
    by (simp add: mask_values flip: take_bit_eq_mask) (simp add: take_bit_push_bit)
  moreover have "signed_drop_bit 8 (push_bit 8 c) AND 0xff = take_bit 8 c"
    by (rule bit_word_eqI) (auto simp: mask_values bit_simps)
  ultimately show ?thesis by (simp add: exit_code_def CODE_SHIFT_def)
qed

section \<open>The environment\<close>

lemma key_of_var:
  assumes "as_c_var name val = Some e"
  shows "env_key e = name \<and> drop (length name + 1) e = val \<and> CHR 0x00 \<notin> set e"
  using assms
  by (auto simp: as_c_var_def as_c_arg_def env_key_def takeWhile_append takeWhile_eq_all_conv split: if_split_asm)

lemma those_Some_iff: "those xs = Some ys \<longleftrightarrow> xs = map Some ys"
proof (induction xs arbitrary: ys)
  case (Cons x xs)
  then show ?case by (cases x; cases ys) (auto split: option.split)
qed auto

section \<open>Feeding and reading\<close>

fun read_from :: "int \<Rightarrow> proc_call \<Rightarrow> string" where
  "read_from fd (ReadCall f bs) = (if f = fd then bs else [])"
| "read_from fd _ = []"

fun written_by :: "proc_call \<Rightarrow> string" where
  "written_by (WriteCall f bs) = bs"
| "written_by _ = []"

definition bytes_read :: "int \<Rightarrow> proc_call list \<Rightarrow> string" where
  "bytes_read fd log = concat (map (read_from fd) log)"

definition bytes_written :: "proc_call list \<Rightarrow> string" where
  "bytes_written log = concat (map written_by log)"

lemma bytes_append [simp]:
  "bytes_read fd (a @ b) = bytes_read fd a @ bytes_read fd b" "bytes_read fd [] = []"
  "bytes_read fd (c # cs) = read_from fd c @ bytes_read fd cs"
  "bytes_written (a @ b) = bytes_written a @ bytes_written b" "bytes_written [] = []"
  "bytes_written (c # cs) = written_by c @ bytes_written cs"
  by (simp_all add: bytes_read_def bytes_written_def)

lemma write_calls_simps [simp]:
  "bytes_read f (write_calls a fd data sent) = []" "count_list (write_calls a fd data sent) (CloseFd f) = 0"
  by (auto simp: write_calls_def Let_def split: sum.split)

definition ends_apart :: "int list \<Rightarrow> bool" where
  "ends_apart ends \<longleftrightarrow> length ends = 2 \<and> (ends ! 0 = ends ! 1 \<longrightarrow> ends ! 0 = IGNORED)"

text \<open>The kernel never takes rest than it was offered.\<close>

definition writes_fit :: "exchange_kernel \<Rightarrow> bool" where
  "writes_fit xk \<longleftrightarrow> (\<forall>n want put. xk_write xk n want = Inr put \<longrightarrow> put \<le> want)"

definition stream_ok :: "int \<Rightarrow> bool \<Rightarrow> string \<Rightarrow> proc_call list \<Rightarrow> bool" where
  "stream_ok fd opened found log \<longleftrightarrow>
     found = bytes_read fd log \<and> (opened \<longrightarrow> fd \<noteq> IGNORED) \<and>
     (opened \<or> fd = IGNORED \<or> ReadCall fd [] \<in> set log)"

definition feed_ok :: "string \<Rightarrow> int option \<Rightarrow> int option \<Rightarrow> nat \<Rightarrow> proc_call list \<Rightarrow> bool" where
  "feed_ok data input rest sent log \<longleftrightarrow>
     bytes_written log = take sent data \<and> sent \<le> length data \<and> (rest = None \<or> rest = input) \<and>
     (rest = None \<longrightarrow> input = None \<or> sent = length data \<or> BrokenPipe (the input) \<in> set log) \<and>
     (\<forall>fd. input = Some fd \<longrightarrow> count_list log (CloseFd fd) = (if rest = None then 1 else 0))"

definition exchange_ok :: "int list \<Rightarrow> string \<Rightarrow> int option \<Rightarrow> exchange_state \<Rightarrow> bool" where
  "exchange_ok ends data input xs \<longleftrightarrow>
     length (xs_open xs) = 2 \<and> length (xs_found xs) = 2 \<and>
     (\<forall>k<2. stream_ok (ends ! k) (xs_open xs ! k) (xs_found xs ! k) (xs_log xs)) \<and>
     feed_ok data input (xs_end xs) (xs_sent xs) (xs_log xs)"

lemma stream_ok_more:
  "stream_ok fd opened found log \<Longrightarrow> bytes_read fd cs = [] \<Longrightarrow> stream_ok fd opened found (log @ cs)"
  by (auto simp: stream_ok_def)

lemma feed_ok_more:
  "feed_ok data input rest sent log \<Longrightarrow> bytes_written cs = [] \<Longrightarrow> (\<And>fd. count_list cs (CloseFd fd) = 0)
    \<Longrightarrow> feed_ok data input rest sent (log @ cs)"
  by (auto simp: feed_ok_def)

lemma read_slot_form:
  obtains opened f extra where "snd (read_slot xk queue ends k xs) =
      xs\<lparr>xs_calls := xs_calls xs + 1, xs_open := (xs_open xs)[k := opened], xs_found := (xs_found xs)[k := f],
        xs_log := xs_log xs @ extra\<rparr>"
    "bytes_written extra = []" "\<And>fd. count_list extra (CloseFd fd) = 0"
    "\<And>fd. fd \<noteq> ends ! k \<Longrightarrow> bytes_read fd extra = []"
    "f = xs_found xs ! k @ bytes_read (ends ! k) extra"
    "opened \<Longrightarrow> xs_open xs ! k" "opened \<or> \<not> xs_open xs ! k \<or> ReadCall (ends ! k) [] \<in> set extra"
proof (cases "xk_read xk (xs_calls xs) (ends ! k)")
  case (Inl e)
  have "snd (read_slot xk queue ends k xs) =
      xs\<lparr>xs_calls := xs_calls xs + 1, xs_open := (xs_open xs)[k := xs_open xs ! k],
        xs_found := (xs_found xs)[k := xs_found xs ! k], xs_log := xs_log xs @ []\<rparr>"
    using Inl by (simp add: read_slot_def read_chunk_def read_calls_def)
  from that [OF this] show thesis by simp
next
  case (Inr got)
  let ?off = "case queue of Some q \<Rightarrow> [WatchOff q (usize_of (ends ! k)) EVFILT_READ] | None \<Rightarrow> []"
  show thesis
  proof (cases "got = []")
    case True
    have "snd (read_slot xk queue ends k xs) =
        xs\<lparr>xs_calls := xs_calls xs + 1, xs_open := (xs_open xs)[k := False],
          xs_found := (xs_found xs)[k := xs_found xs ! k], xs_log := xs_log xs @ ReadCall (ends ! k) [] # ?off\<rparr>"
      using Inr True by (simp add: read_slot_def read_chunk_def read_calls_def)
    from that [OF this] show thesis by (simp split: option.split)
  next
    case False
    have "snd (read_slot xk queue ends k xs) =
        xs\<lparr>xs_calls := xs_calls xs + 1, xs_open := (xs_open xs)[k := xs_open xs ! k],
          xs_found := (xs_found xs)[k := xs_found xs ! k @ got], xs_log := xs_log xs @ [ReadCall (ends ! k) got]\<rparr>"
      using Inr False by (simp add: read_slot_def read_chunk_def read_calls_def)
    from that [OF this] show thesis by simp
  qed
qed

lemma ends_apart_other:
  "ends_apart ends \<Longrightarrow> j < 2 \<Longrightarrow> k < 2 \<Longrightarrow> j \<noteq> k \<Longrightarrow> ends ! k \<noteq> IGNORED \<Longrightarrow> ends ! j \<noteq> ends ! k"
  by (auto simp: ends_apart_def less_Suc_eq numeral_2_eq_2)

lemma ok_read_slot:
  assumes ok: "exchange_ok ends data input xs" and "ends_apart ends" "k < 2" "xs_open xs ! k"
  shows "exchange_ok ends data input (snd (read_slot xk queue ends k xs))"
proof (rule read_slot_form [where xk = xk and queue = queue and ends = ends and k = k and xs = xs], goal_cases)
  case (1 op f extra)
  have streams: "\<And>j. j < 2 \<Longrightarrow> stream_ok (ends ! j) (xs_open xs ! j) (xs_found xs ! j) (xs_log xs)"
    and lens: "length (xs_open xs) = 2" "length (xs_found xs) = 2"
    and feed: "feed_ok data input (xs_end xs) (xs_sent xs) (xs_log xs)"
    using ok by (simp_all add: exchange_ok_def)
  have "stream_ok (ends ! j) ((xs_open xs)[k := op] ! j) ((xs_found xs)[k := f] ! j) (xs_log xs @ extra)" if "j < 2" for j
  proof (cases "j = k")
    case True
    then show ?thesis using streams [OF that] 1 lens assms(3,4) by (auto simp: stream_ok_def)
  next
    case False
    then have "ends ! j \<noteq> ends ! k"
      using ends_apart_other [OF assms(2) that assms(3)] streams [OF assms(3)] assms(4) by (simp add: stream_ok_def)
    then show ?thesis using False streams [OF that] 1(4) by (simp add: stream_ok_more)
  qed
  then show ?case using 1(1-3) lens feed_ok_more [OF feed 1(2,3)] by (simp add: exchange_ok_def)
qed

text \<open>Writing a chunk, whichever of the two loops writes it.\<close>

lemma feed_ok_closes:
  assumes "feed_ok data input (Some fd) sent log" "sent = length data \<or> BrokenPipe fd \<in> set log"
    "bytes_written cs = []" "\<And>f. count_list cs (CloseFd f) = (if f = fd then 1 else 0)"
  shows "feed_ok data input None sent (log @ cs)"
  using assms by (auto simp: feed_ok_def)

lemma feed_ok_writes:
  assumes ok: "feed_ok data input (Some fd) sent log" and fits: "writes_fit xk"
    and wrote: "write_chunk (xk_write xk n) data sent = Inr (again, sent')"
  shows "feed_ok data input (Some fd) sent' (log @ write_calls (xk_write xk n) fd data sent) \<and>
    (again \<or> sent' = length data \<or> BrokenPipe fd \<in> set (write_calls (xk_write xk n) fd data sent))"
proof (cases "sent = length data")
  case True
  then show ?thesis using ok wrote by (simp add: write_chunk_def write_calls_def)
next
  case False
  let ?want = "min (length data - sent) FILE_CHUNK"
  have room: "sent < length data" "?want \<noteq> 0"
    using False ok by (simp_all add: feed_ok_def FILE_CHUNK_def)
  show ?thesis
  proof (cases "xk_write xk n ?want")
    case (Inr put)
    then have "put \<le> ?want" using fits unfolding writes_fit_def by blast
    then have "sent + put \<le> length data" using room by linarith
    then show ?thesis
      using ok wrote room Inr
      by (auto simp: write_chunk_def write_calls_def Let_def feed_ok_def take_add simp del: min_less_iff_conj)
  next
    case (Inl e)
    then show ?thesis
      using ok wrote room
      by (auto simp: write_chunk_def write_calls_def Let_def feed_ok_def split: if_split_asm)
  qed
qed

lemma feed_ok_write_fails:
  assumes "feed_ok data input (Some fd) sent log" "write_chunk (xk_write xk n) data sent = Inl e"
  shows "feed_ok data input (Some fd) sent (log @ write_calls (xk_write xk n) fd data sent)"
  using assms by (auto simp: write_chunk_def write_calls_def Let_def split: if_split_asm sum.split_asm)

lemma exchange_ok_feeds:
  assumes "exchange_ok ends data input xs" "\<And>fd. bytes_read fd cs = []"
    "feed_ok data input (xs_end xs') (xs_sent xs') (xs_log xs @ cs)"
    "xs_open xs' = xs_open xs" "xs_found xs' = xs_found xs" "xs_log xs' = xs_log xs @ cs"
  shows "exchange_ok ends data input xs'"
  using assms by (simp add: exchange_ok_def stream_ok_more)

lemma ok_feed_push:
  assumes ok: "exchange_ok ends data input xs" and fits: "writes_fit xk"
  shows "exchange_ok ends data input (snd (feed_push xk queue data xs))"
proof (cases "xs_end xs")
  case None
  then show ?thesis using ok by (simp add: feed_push_def)
next
  case (Some fd)
  let ?cs = "write_calls (xk_write xk (xs_calls xs)) fd data (xs_sent xs)"
  let ?wrote = "write_chunk (xk_write xk (xs_calls xs)) data (xs_sent xs)"
  let ?off = "[WatchOff queue (usize_of fd) EVFILT_WRITE, CloseFd fd]"
  have feed: "feed_ok data input (Some fd) (xs_sent xs) (xs_log xs)"
    using ok Some by (simp add: exchange_ok_def)
  show ?thesis
  proof (cases ?wrote)
    case (Inl e)
    then show ?thesis
      using Some feed_ok_write_fails [OF feed Inl]
      by (intro exchange_ok_feeds [OF ok, of ?cs]) (simp_all add: feed_push_def)
  next
    case (Inr w)
    obtain again sent' where w: "w = (again, sent')" by fastforce
    note wrote = feed_ok_writes [OF feed fits Inr [unfolded w]]
    show ?thesis
    proof (cases again)
      case True
      then show ?thesis
        using Some Inr w wrote by (intro exchange_ok_feeds [OF ok, of ?cs]) (simp_all add: feed_push_def)
    next
      case False
      then have "feed_ok data input None sent' ((xs_log xs @ ?cs) @ ?off)"
        using wrote by (intro feed_ok_closes) auto
      then show ?thesis
        using Some Inr w False
        by (intro exchange_ok_feeds [OF ok, of "?cs @ ?off"]) (simp_all add: feed_push_def feed_finish_def)
    qed
  qed
qed

lemma ok_poll_write:
  assumes ok: "exchange_ok ends data input xs" and fits: "writes_fit xk" and Some: "xs_end xs = Some fd"
  shows "exchange_ok ends data input (snd (poll_write xk data xs))"
proof -
  let ?cs = "write_calls (xk_write xk (xs_calls xs)) fd data (xs_sent xs)"
  let ?wrote = "write_chunk (xk_write xk (xs_calls xs)) data (xs_sent xs)"
  have feed: "feed_ok data input (Some fd) (xs_sent xs) (xs_log xs)"
    using ok Some by (simp add: exchange_ok_def)
  show ?thesis
  proof (cases ?wrote)
    case (Inl e)
    then show ?thesis
      using Some feed_ok_write_fails [OF feed Inl]
      by (intro exchange_ok_feeds [OF ok, of ?cs]) (simp_all add: poll_write_def)
  next
    case (Inr w)
    obtain again sent' where w: "w = (again, sent')" by fastforce
    note wrote = feed_ok_writes [OF feed fits Inr [unfolded w]]
    show ?thesis
    proof (cases again)
      case True
      then show ?thesis
        using Some Inr w wrote by (intro exchange_ok_feeds [OF ok, of ?cs]) (simp_all add: poll_write_def)
    next
      case False
      then have "feed_ok data input None sent' ((xs_log xs @ ?cs) @ [CloseFd fd])"
        using wrote by (intro feed_ok_closes) auto
      then show ?thesis
        using Some Inr w False
        by (intro exchange_ok_feeds [OF ok, of "?cs @ [CloseFd fd]"]) (simp_all add: poll_write_def)
    qed
  qed
qed

lemma slot_of_Some: "slot_of ends i = Some k \<Longrightarrow> k < length ends"
  by (auto simp: slot_of_def find_Some_iff)

lemma ok_pump_event:
  assumes "exchange_ok ends data input xs" "writes_fit xk" "ends_apart ends"
  shows "exchange_ok ends data input (snd (pump_event xk queue ends data ev xs))"
  using assms ok_feed_push [OF assms(1,2)] slot_of_Some [of ends "ke_ident ev"]
  by (auto simp: pump_event_def ends_apart_def intro!: ok_read_slot split: option.split)

lemma ok_pump_events:
  "exchange_ok ends data input xs \<Longrightarrow> writes_fit xk \<Longrightarrow> ends_apart ends
    \<Longrightarrow> exchange_ok ends data input (snd (pump_events xk queue ends data evs xs))"
proof (induction evs arbitrary: xs)
  case (Cons ev evs)
  then show ?case
    using ok_pump_event [OF Cons.prems, of queue ev]
    by (cases "pump_event xk queue ends data ev xs") (auto split: sum.split)
qed simp

lemma ok_pump:
  assumes "pump xk queue ends data n xs = Some r" "exchange_ok ends data input xs" "writes_fit xk" "ends_apart ends"
  shows "exchange_ok ends data input (snd r) \<and> (\<forall>u. fst r = Inr u \<longrightarrow> \<not> pump_wanted (snd r))"
proof -
  have "exchange_ok ends data input xs \<longrightarrow> writes_fit xk \<longrightarrow> ends_apart ends \<longrightarrow>
    exchange_ok ends data input (snd r) \<and> (\<forall>u. fst r = Inr u \<longrightarrow> \<not> pump_wanted (snd r))"
    using assms(1)
  proof (rule pump.raw_induct [where P = "\<lambda>xk queue ends data n xs r.
      exchange_ok ends data input xs \<longrightarrow> writes_fit xk \<longrightarrow> ends_apart ends \<longrightarrow>
      exchange_ok ends data input (snd r) \<and> (\<forall>u. fst r = Inr u \<longrightarrow> \<not> pump_wanted (snd r))", rotated], goal_cases)
    case (1 rec xk queue ends data n xs r)
    note IH = 1(1)
    show ?case
    proof (cases "xk_events xk n")
      case (Inl e)
      with 1(2) show ?thesis by (auto split: if_split_asm dest: IH)
    next
      case (Inr evs)
      obtain res xs1 where res: "pump_events xk queue ends data evs xs = (res, xs1)" by fastforce
      then have "exchange_ok ends data input xs \<Longrightarrow> writes_fit xk \<Longrightarrow> ends_apart ends
        \<Longrightarrow> exchange_ok ends data input xs1"
        using ok_pump_events [of ends data input xs xk queue evs] by simp
      with 1(2) Inr res show ?thesis by (cases res; cases r) (auto split: if_split_asm dest: IH)
    qed
  qed
  with assms(2-4) show ?thesis by blast
qed

lemma ok_poll_reads:
  "exchange_ok ends data input xs \<Longrightarrow> ends_apart ends \<Longrightarrow> set ks \<subseteq> {..<2}
    \<Longrightarrow> exchange_ok ends data input (snd (poll_reads xk ends revents ks xs))"
proof (induction ks arbitrary: xs)
  case (Cons k ks)
  then show ?case
    using ok_read_slot [OF Cons.prems(1,2), of k xk None]
    by (cases "read_slot xk None ends k xs") (auto split: sum.split)
qed simp

lemma poll_reads_end [simp]: "xs_end (snd (poll_reads xk ends revents ks xs)) = xs_end xs"
proof (induction ks arbitrary: xs)
  case (Cons k ks)
  have "xs_end (snd (read_slot xk None ends k xs)) = xs_end xs"
    by (simp add: read_slot_def Let_def split: sum.split)
  with Cons.IH [of "snd (read_slot xk None ends k xs)"] Cons.IH [of xs] show ?case
    by (cases "read_slot xk None ends k xs") (simp split: sum.split)
qed simp

text \<open>\<open>poll\<close> says nothing of a descriptor that is no descriptor.\<close>

definition polls_fit :: "exchange_kernel \<Rightarrow> bool" where
  "polls_fit xk \<longleftrightarrow>
     (\<forall>n fds ready revents. xk_poll xk n fds = Inr (ready, revents) \<longrightarrow> fds ! 2 = IGNORED \<longrightarrow> \<not> revents ! 2)"

lemma ok_poll_lap:
  assumes "exchange_ok ends data input xs" "writes_fit xk" "ends_apart ends" "polls_fit xk"
    and "xk_poll xk n (poll_fds ends xs) = Inr (ready, revents)"
    and "poll_reads xk ends revents [0..<length ends] xs = (a, xs1)"
  shows "exchange_ok ends data input xs1"
    "exchange_ok ends data input (snd (if revents ! 2 then poll_write xk data xs1 else (Inr (), xs1)))"
proof -
  show ok1: "exchange_ok ends data input xs1"
    using ok_poll_reads [OF assms(1,3), of "[0..<length ends]" xk revents] assms(3,6)
    by (simp add: ends_apart_def atLeast0LessThan)
  have "xs_end xs1 = xs_end xs" using poll_reads_end [of xk ends revents "[0..<length ends]" xs] assms(6) by simp
  moreover have "xs_end xs = None \<Longrightarrow> \<not> revents ! 2"
    using assms(4,5) by (auto simp: polls_fit_def poll_fds_def)
  ultimately show "exchange_ok ends data input (snd (if revents ! 2 then poll_write xk data xs1 else (Inr (), xs1)))"
    using ok1 ok_poll_write [OF ok1 assms(2)] by (cases "xs_end xs") auto
qed

lemma ok_poll_loop:
  assumes "poll_loop xk ends data n xs = Some r" "exchange_ok ends data input xs" "writes_fit xk" "ends_apart ends"
    "polls_fit xk"
  shows "exchange_ok ends data input (snd r) \<and> (\<forall>u. fst r = Inr u \<longrightarrow> \<not> pump_wanted (snd r))"
proof -
  have "exchange_ok ends data input xs \<longrightarrow> writes_fit xk \<longrightarrow> ends_apart ends \<longrightarrow> polls_fit xk \<longrightarrow>
    exchange_ok ends data input (snd r) \<and> (\<forall>u. fst r = Inr u \<longrightarrow> \<not> pump_wanted (snd r))"
    using assms(1)
  proof (rule poll_loop.raw_induct [where P = "\<lambda>xk ends data n xs r.
      exchange_ok ends data input xs \<longrightarrow> writes_fit xk \<longrightarrow> ends_apart ends \<longrightarrow> polls_fit xk \<longrightarrow>
      exchange_ok ends data input (snd r) \<and> (\<forall>u. fst r = Inr u \<longrightarrow> \<not> pump_wanted (snd r))", rotated], goal_cases)
    case (1 rec xk ends data n xs r)
    note IH = 1(1)
    show ?case
    proof (cases "xk_poll xk n (poll_fds ends xs)")
      case (Inl e)
      with 1(2) show ?thesis by (auto split: if_split_asm dest: IH)
    next
      case (Inr answer)
      obtain ready revents where answer: "answer = (ready, revents)" by fastforce
      obtain a xs1 where lap: "poll_reads xk ends revents [0..<length ends] xs = (a, xs1)" by fastforce
      obtain b xs2 where wrote: "(if revents ! 2 then poll_write xk data xs1 else (Inr (), xs1)) = (b, xs2)"
        by fastforce
      have "exchange_ok ends data input xs1 \<and> exchange_ok ends data input xs2"
        if "exchange_ok ends data input xs" "writes_fit xk" "ends_apart ends" "polls_fit xk"
        using ok_poll_lap [OF that Inr [unfolded answer] lap] wrote by simp
      with 1(2) Inr answer lap wrote show ?thesis
        by (cases a; cases b; cases r) (auto split: if_split_asm dest: IH)
    qed
  qed
  with assms(2-5) show ?thesis by blast
qed

section \<open>Waiting for the child\<close>

text \<open>
  Whether the child has been waited for by the end of some calls, and whether no signal was sent
  to it after that.
\<close>

fun child_gone :: "int \<Rightarrow> bool \<Rightarrow> proc_call list \<Rightarrow> bool" where
  "child_gone pid gone [] = gone"
| "child_gone pid gone (WaitCall p a # cs) = child_gone pid (gone \<or> p = pid \<and> a \<noteq> StillRunning) cs"
| "child_gone pid gone (_ # cs) = child_gone pid gone cs"

fun kills_fit :: "int \<Rightarrow> bool \<Rightarrow> proc_call list \<Rightarrow> bool" where
  "kills_fit pid gone [] = True"
| "kills_fit pid gone (KillCall p sig # cs) = (\<not> gone \<and> (p = pid \<or> p = - pid) \<and> kills_fit pid gone cs)"
| "kills_fit pid gone (WaitCall p a # cs) = kills_fit pid (gone \<or> p = pid \<and> a \<noteq> StillRunning) cs"
| "kills_fit pid gone (_ # cs) = kills_fit pid gone cs"

lemma child_gone_append [simp]: "child_gone pid gone (a @ b) = child_gone pid (child_gone pid gone a) b"
  by (induction pid gone a rule: child_gone.induct) auto

lemma kills_fit_append [simp]:
  "kills_fit pid gone (a @ b) \<longleftrightarrow> kills_fit pid gone a \<and> kills_fit pid (child_gone pid gone a) b"
  by (induction pid gone a rule: kills_fit.induct) auto

lemma still_running [simp]:
  "child_gone pid gone (replicate k (WaitCall p StillRunning)) = gone"
  "kills_fit pid gone (replicate k (WaitCall p StillRunning))"
  by (induction k) auto

lemma try_reap_log:
  assumes "try_reap wk pid ws = Some (r, ws')"
  shows "ws_log ws' = ws_log ws @
    [WaitCall pid (case r of Inl _ \<Rightarrow> CantWait | Inr None \<Rightarrow> StillRunning | Inr (Some s) \<Rightarrow> ReapedWith s)]"
proof -
  have "ws_log (snd x) = ws_log ws @
    [WaitCall pid (case fst x of Inl _ \<Rightarrow> CantWait | Inr None \<Rightarrow> StillRunning | Inr (Some s) \<Rightarrow> ReapedWith s)]"
    if "try_reap wk pid ws = Some x" for x
    using that
  proof (rule try_reap.raw_induct [where P = "\<lambda>wk pid ws x. ws_log (snd x) = ws_log ws @
      [WaitCall pid (case fst x of Inl _ \<Rightarrow> CantWait | Inr None \<Rightarrow> StillRunning | Inr (Some s) \<Rightarrow> ReapedWith s)]",
      rotated], goal_cases)
    case (1 f wk pid ws x)
    note IH = 1(1)
    from 1(2) show ?case
      by (cases x) (auto simp: Let_def split: if_split_asm prod.split_asm sum.split_asm dest!: IH)
  qed
  from this [OF assms] show ?thesis by simp
qed

lemma reap_child_log:
  assumes "reap_child wk pid ws = Some (r, ws')"
  shows "ws_log ws' = ws_log ws @ [WaitCall pid (case r of Inl _ \<Rightarrow> CantWait | Inr s \<Rightarrow> ReapedWith s)]"
proof -
  have "ws_log (snd x) = ws_log ws @ [WaitCall pid (case fst x of Inl _ \<Rightarrow> CantWait | Inr s \<Rightarrow> ReapedWith s)]"
    if "reap_child wk pid ws = Some x" for x
    using that
  proof (rule reap_child.raw_induct [where P = "\<lambda>wk pid ws x. ws_log (snd x) = ws_log ws @
      [WaitCall pid (case fst x of Inl _ \<Rightarrow> CantWait | Inr s \<Rightarrow> ReapedWith s)]", rotated], goal_cases)
    case (1 f wk pid ws x)
    note IH = 1(1)
    from 1(2) show ?case
      by (cases x) (auto simp: Let_def split: if_split_asm prod.split_asm sum.split_asm dest!: IH)
  qed
  from this [OF assms] show ?thesis by simp
qed

definition laps_then :: "int \<Rightarrow> wait_state \<Rightarrow> proc_call list \<Rightarrow> wait_state \<Rightarrow> bool" where
  "laps_then pid ws cs ws' \<longleftrightarrow> (\<exists>k. ws_log ws' = ws_log ws @ replicate k (WaitCall pid StillRunning) @ cs)"

lemma laps_then_step:
  "laps_then pid ws1 cs ws' \<Longrightarrow> ws_log ws1 = ws_log ws @ [WaitCall pid StillRunning] \<Longrightarrow> laps_then pid ws cs ws'"
  unfolding laps_then_def by (metis append.assoc append_Cons append_Nil replicate_Suc)

lemma laps_then_now: "ws_log ws' = ws_log ws @ cs \<Longrightarrow> laps_then pid ws cs ws'"
  unfolding laps_then_def by (rule exI [of _ 0]) simp

definition exit_fits :: "child \<Rightarrow> wait_state \<Rightarrow> i32 res \<times> child \<times> wait_state \<Rightarrow> bool" where
  "exit_fits ch ws x \<longleftrightarrow>
     (case x of
        (Inr s, ch', ws') \<Rightarrow> ch' = reaped ch \<and> laps_then (ch_pid ch) ws [WaitCall (ch_pid ch) (ReapedWith s)] ws'
      | (Inl e, ch', ws') \<Rightarrow>
          ch' = reaped ch \<and> laps_then (ch_pid ch) ws [WaitCall (ch_pid ch) CantWait] ws'
          \<or> ch' = ch \<and> laps_then (ch_pid ch) ws [] ws')"

lemma poll_exit_fits:
  assumes "poll_exit wk n ch ws = Some x"
  shows "exit_fits ch ws x"
  using assms
proof (rule poll_exit.raw_induct [where P = "\<lambda>wk n ch ws x. exit_fits ch ws x", rotated], goal_cases)
  case (1 f wk n ch ws x)
  note IH = 1(1)
  from 1(2) obtain r ws1 where r: "try_reap wk (ch_pid ch) ws = Some (r, ws1)" by (auto elim!: bind_SomeE)
  note log = try_reap_log [OF r]
  show ?case
  proof (cases r)
    case (Inl e)
    with 1(2) r log show ?thesis by (auto simp: exit_fits_def laps_then_now)
  next
    case (Inr found)
    show ?thesis
    proof (cases found)
      case None
      have "exit_fits ch ws x" if "exit_fits ch ws1 x"
        using that log Inr None laps_then_step [of "ch_pid ch" ws1 _ _ ws]
        by (cases x; cases "fst x") (auto simp: exit_fits_def)
      moreover have "exit_fits ch ws (Inl ECancelled, ch, ws1)"
        using log Inr None laps_then_step [of "ch_pid ch" ws1 "[]" ws1 ws] by (simp add: exit_fits_def laps_then_now)
      ultimately show ?thesis
        using 1(2) r Inr None by (auto split: if_split_asm dest: IH)
    next
      case (Some s)
      with 1(2) r Inr log show ?thesis by (auto simp: exit_fits_def laps_then_now)
    qed
  qed
qed

text \<open>A cancel was seen by some lap of the wait, and the queue had not failed before it.\<close>

definition cancel_seen :: "wait_kernel \<Rightarrow> nat \<Rightarrow> bool" where
  "cancel_seen wk n \<longleftrightarrow>
     (\<exists>m\<ge>n. (wk_laps wk m = WaitCancelled \<or> wk_cancelled wk m) \<and> (\<forall>j<m. n \<le> j \<longrightarrow> wk_laps wk j \<noteq> WaitFailed))"

lemma cancel_seen_now: "wk_laps wk n = WaitCancelled \<or> wk_cancelled wk n \<Longrightarrow> cancel_seen wk n"
  unfolding cancel_seen_def by (rule exI [of _ n]) simp

lemma cancel_seen_later:
  assumes "cancel_seen wk (n + 1)" "wk_laps wk n \<noteq> WaitFailed"
  shows "cancel_seen wk n"
proof -
  obtain m where m: "n + 1 \<le> m" "wk_laps wk m = WaitCancelled \<or> wk_cancelled wk m"
    "\<And>j. j < m \<Longrightarrow> n + 1 \<le> j \<Longrightarrow> wk_laps wk j \<noteq> WaitFailed"
    using assms(1) by (auto simp: cancel_seen_def)
  have "wk_laps wk j \<noteq> WaitFailed" if "j < m" "n \<le> j" for j
    using m(3) [of j] that assms(2) by (cases "j = n") auto
  with m(1,2) show ?thesis unfolding cancel_seen_def by (intro exI [of _ m]) auto
qed

definition laps_fit :: "wait_kernel \<Rightarrow> int \<Rightarrow> wait_state \<Rightarrow> nat \<Rightarrow> i32 res option \<times> nat \<times> wait_state \<Rightarrow> bool" where
  "laps_fit wk pid ws n x \<longleftrightarrow>
     (case x of
        (Some (Inr s), _, ws') \<Rightarrow> laps_then pid ws [WaitCall pid (ReapedWith s)] ws'
      | (Some (Inl e), _, ws') \<Rightarrow>
          laps_then pid ws [WaitCall pid CantWait] ws'
          \<or> laps_then pid ws [] ws' \<and> cancel_seen wk n
      | (None, _, ws') \<Rightarrow> laps_then pid ws [] ws')"

lemma wait_laps_fits:
  assumes "wait_laps wk pid n ws = Some x"
  shows "laps_fit wk pid ws n x"
  using assms
proof (rule wait_laps.raw_induct [where P = "\<lambda>wk pid n ws x. laps_fit wk pid ws n x", rotated], goal_cases)
  case (1 f wk pid n ws x)
  note IH = 1(1)
  from 1(2) obtain r ws1 where r: "try_reap wk pid ws = Some (r, ws1)" by (auto simp: Let_def elim!: bind_SomeE)
  note log = try_reap_log [OF r]
  show ?case
  proof (cases r)
    case (Inl e)
    with 1(2) r log show ?thesis by (auto simp: laps_fit_def laps_then_now)
  next
    case (Inr found)
    show ?thesis
    proof (cases found)
      case None
      have now: "laps_then pid ws [] ws1"
        using log Inr None laps_then_step [of pid ws1 "[]" ws1 ws] by (simp add: laps_then_now)
      have later: "laps_fit wk pid ws n x" if "laps_fit wk pid ws1 (n + 1) x" "wk_laps wk n \<noteq> WaitFailed"
      proof -
        have earlier: "laps_then pid ws1 cs ws' \<Longrightarrow> laps_then pid ws cs ws'" for cs ws'
          using log Inr None laps_then_step [of pid ws1 cs ws' ws] by simp
        obtain res n' ws' where x: "x = (res, n', ws')" by (cases x)
        show ?thesis
        proof (cases res)
          case None
          with that(1) x earlier show ?thesis by (simp add: laps_fit_def)
        next
          case (Some ended)
          with that(1) x earlier show ?thesis
            using cancel_seen_later [OF _ that(2)] by (cases ended) (auto simp: laps_fit_def)
        qed
      qed
      show ?thesis
      proof (cases "wk_laps wk n = WaitCancelled \<or> wk_cancelled wk n")
        case True
        with 1(2) r Inr None now show ?thesis by (auto simp: laps_fit_def cancel_seen_now)
      next
        case False
        show ?thesis
        proof (cases "wk_laps wk n = WaitFailed")
          case True
          with 1(2) r Inr None now False show ?thesis by (auto simp: laps_fit_def)
        next
          case going: False
          with 1(2) r Inr None False have "f wk pid (n + 1) ws1 = Some x" by simp
          from later [OF IH [OF this] going] show ?thesis .
        qed
      qed
    next
      case (Some s)
      with 1(2) r Inr log show ?thesis by (auto simp: laps_fit_def laps_then_now)
    qed
  qed
qed

definition no_kills :: "proc_call list \<Rightarrow> bool" where
  "no_kills made \<longleftrightarrow> (\<forall>c\<in>set made. case c of KillCall _ _ \<Rightarrow> False | _ \<Rightarrow> True)"

lemma no_kills_simps [simp]:
  "no_kills []" "no_kills (c # cs) \<longleftrightarrow> (case c of KillCall _ _ \<Rightarrow> False | _ \<Rightarrow> True) \<and> no_kills cs"
  "no_kills (a @ b) \<longleftrightarrow> no_kills a \<and> no_kills b" "no_kills (replicate k (WaitCall p a'))"
  by (auto simp: no_kills_def)

lemma no_kills_fit: "no_kills made \<Longrightarrow> kills_fit pid gone made"
  by (induction pid gone made rule: kills_fit.induct) auto

text \<open>
  A wait sends no signal. It either knows that the child is gone or leaves the guard armed, and
  with a wait that was not cancelled an armed guard means a child that is still there.
\<close>

definition wait_fits :: "bool \<Rightarrow> child \<Rightarrow> wait_state \<Rightarrow> i32 res \<times> child \<times> wait_state \<Rightarrow> bool" where
  "wait_fits sure ch ws x \<longleftrightarrow>
     (case x of (r, ch', ws') \<Rightarrow>
        \<exists>made. ws_log ws' = ws_log ws @ made \<and> no_kills made \<and>
          (if ch_pid ch' = NO_CHILD then child_gone (ch_pid ch) False made
           else ch_pid ch' = ch_pid ch \<and> (sure \<longrightarrow> \<not> child_gone (ch_pid ch) False made)) \<and>
          (\<forall>s. r = Inr s \<longrightarrow> ch_pid ch' = NO_CHILD \<and> WaitCall (ch_pid ch) (ReapedWith s) \<in> set made))"

lemma wait_fitsI:
  assumes "ws_log ws' = ws_log ws @ made" "no_kills made"
    "if ch_pid ch' = NO_CHILD then child_gone (ch_pid ch) False made
     else ch_pid ch' = ch_pid ch \<and> (sure \<longrightarrow> \<not> child_gone (ch_pid ch) False made)"
    "\<And>s. r = Inr s \<Longrightarrow> ch_pid ch' = NO_CHILD \<and> WaitCall (ch_pid ch) (ReapedWith s) \<in> set made"
  shows "wait_fits sure ch ws (r, ch', ws')"
  using assms unfolding wait_fits_def by auto

lemma reaped_pid [simp]: "ch_pid (reaped ch) = NO_CHILD"
  by (simp add: reaped_def)

lemma exit_fits_wait:
  assumes "exit_fits ch ws x" "ch_pid ch \<noteq> NO_CHILD"
  shows "wait_fits sure ch ws x"
proof -
  obtain r ch' ws' where x: "x = (r, ch', ws')" by (cases x)
  show ?thesis
  proof (cases r)
    case (Inr s)
    with assms x show ?thesis
      by (auto simp: exit_fits_def laps_then_def intro!: wait_fitsI)
  next
    case (Inl e)
    with assms x show ?thesis
      by (auto simp: exit_fits_def laps_then_def intro!: wait_fitsI)
  qed
qed

lemma wait_fits_after:
  assumes "wait_fits sure ch1 ws1 x" "ws_log ws1 = ws_log ws @ made" "no_kills made"
    "\<not> child_gone (ch_pid ch) False made" "ch_pid ch1 = ch_pid ch"
  shows "wait_fits sure ch ws x"
proof -
  obtain r ch' ws' where x: "x = (r, ch', ws')" by (cases x)
  then obtain rest where "ws_log ws' = ws_log ws1 @ rest" "no_kills rest"
    "if ch_pid ch' = NO_CHILD then child_gone (ch_pid ch1) False rest
     else ch_pid ch' = ch_pid ch1 \<and> (sure \<longrightarrow> \<not> child_gone (ch_pid ch1) False rest)"
    "\<And>s. r = Inr s \<Longrightarrow> ch_pid ch' = NO_CHILD \<and> WaitCall (ch_pid ch1) (ReapedWith s) \<in> set rest"
    using assms(1) by (auto simp: wait_fits_def)
  with assms(2-5) show ?thesis unfolding x
    by (intro wait_fitsI [where made = "made @ rest"]) (auto split: if_split_asm)
qed

definition cancel_stays :: "wait_kernel \<Rightarrow> bool" where
  "cancel_stays wk \<longleftrightarrow> (cancel_seen wk 0 \<longrightarrow> \<not> wk_stopped_waiting wk)"

lemma unwatch_log [simp]:
  "ws_log (unwatch_proc q pid ws) = ws_log ws @ [WatchOff q (usize_of pid) EVFILT_PROC]"
  by (simp add: unwatch_proc_def)

lemma wait_laps_exit:
  assumes laps: "wait_laps wk (pid) 0 ws = Some (outcome, n, ws2)" and stays: "cancel_stays wk"
    and there: "pid \<noteq> NO_CHILD" and pid: "ch_pid ch = pid"
    and x: "(case outcome of
        None \<Rightarrow> poll_exit wk n ch (unwatch_proc q (pid) ws2)
      | Some r \<Rightarrow>
          if \<not> wk_stopped_waiting wk then Some (Inl ECancelled, ch, unwatch_proc q (pid) ws2)
          else Some (r, reaped ch, unwatch_proc q (pid) ws2)) = Some x"
  shows "wait_fits (wk_stopped_waiting wk) ch ws x"
proof (cases outcome)
  case None
  have exit: "wait_fits (wk_stopped_waiting wk) ch (unwatch_proc q (ch_pid ch) ws2) x"
    using x None there pid by (auto intro: exit_fits_wait poll_exit_fits)
  obtain k where "ws_log ws2 = ws_log ws @ replicate k (WaitCall (ch_pid ch) StillRunning)"
    using wait_laps_fits [OF laps] None pid by (auto simp: laps_fit_def laps_then_def)
  then show ?thesis
    by (intro wait_fits_after [OF exit, where made = "replicate k (WaitCall (ch_pid ch) StillRunning)
        @ [WatchOff q (usize_of (ch_pid ch)) EVFILT_PROC]"]) (simp_all add: pid)
next
  case (Some r)
  show ?thesis
  proof (cases "wk_stopped_waiting wk")
    case True
    then show ?thesis
      using wait_laps_fits [OF laps] Some x stays pid
      by (cases r) (auto simp: laps_fit_def laps_then_def cancel_stays_def intro!: wait_fitsI)
  next
    case False
    then have "x = (Inl ECancelled, ch, unwatch_proc q (ch_pid ch) ws2)" using x Some pid by simp
    then show ?thesis
      using wait_laps_fits [OF laps] Some False there pid
      by (cases r) (auto simp: laps_fit_def laps_then_def intro!: wait_fitsI)
  qed
qed

lemma wait_exit_fits:
  assumes x: "wait_exit wk queue ch ws = Some x" and stays: "cancel_stays wk" and there: "ch_pid ch \<noteq> NO_CHILD"
  shows "wait_fits (wk_stopped_waiting wk) ch ws x"
proof (cases "queue = None \<or> \<not> wk_watch wk")
  case True
  then have "poll_exit wk 0 ch ws = Some x" using x by (auto simp: wait_exit_def split: option.split_asm)
  then show ?thesis using there by (intro exit_fits_wait poll_exit_fits)
next
  case False
  then obtain q where q: "queue = Some q" "wk_watch wk" by auto
  obtain r ws1 where r: "try_reap wk (ch_pid ch) ws = Some (r, ws1)"
    using x q by (auto simp: wait_exit_def Let_def elim!: bind_SomeE)
  note log = try_reap_log [OF r]
  consider (failed) e where "r = Inl e" | (ended) s where "r = Inr (Some s)" | (going) "r = Inr None"
    by (metis sum.exhaust option.exhaust)
  then show ?thesis
  proof cases
    case failed
    with x q r log show ?thesis by (auto simp: wait_exit_def Let_def intro!: wait_fitsI)
  next
    case ended
    with x q r log show ?thesis by (auto simp: wait_exit_def Let_def intro!: wait_fitsI)
  next
    case going
    show ?thesis
    proof (cases "wk_waiting_on wk")
      case False
      with x q r log going there show ?thesis by (auto simp: wait_exit_def Let_def intro!: wait_fitsI)
    next
      case True
      then have "wait_fits (wk_stopped_waiting wk) (ch\<lparr>ch_queue := Some q\<rparr>) ws1 x"
        using x q r going there stays
        by (auto simp: wait_exit_def Let_def elim!: bind_SomeE)
          (rule wait_laps_exit [where ch = "ch\<lparr>ch_queue := Some q\<rparr>" and q = q], auto)
      from wait_fits_after [OF this log, of ch] going show ?thesis by simp
    qed
  qed
qed

lemma drop_child_log:
  assumes "drop_child wk ch ws = Some ws'"
  shows "ch_pid ch = NO_CHILD \<and> ws' = ws \<or>
    ch_pid ch \<noteq> NO_CHILD \<and> (\<exists>made a. ws_log ws' = ws_log ws @ made @
       [KillCall (- ch_pid ch) SIGKILL, KillCall (ch_pid ch) SIGKILL, WaitCall (ch_pid ch) a] \<and>
       a \<noteq> StillRunning \<and> made \<in> {[], [WatchOff (the (ch_queue ch)) (usize_of (ch_pid ch)) EVFILT_PROC]})"
proof (cases "ch_pid ch = NO_CHILD")
  case True
  then show ?thesis using assms by (simp add: drop_child_def)
next
  case False
  then show ?thesis
    using assms
    by (cases "ch_queue ch")
      (auto simp: drop_child_def kill_and_reap_def elim!: bind_SomeE dest!: reap_child_log split: sum.split)
qed

lemma wait_fits_then_drop:
  assumes fits: "wait_fits sure ch ws (r, ch', ws1)" and drop: "drop_child wk ch' ws1 = Some ws'"
    and "ch_pid ch \<noteq> NO_CHILD"
  shows "\<exists>made. ws_log ws' = ws_log ws @ made \<and> child_gone (ch_pid ch) False made \<and>
    (sure \<longrightarrow> kills_fit (ch_pid ch) False made) \<and>
    (\<forall>s. r = Inr s \<longrightarrow> no_kills made \<and> WaitCall (ch_pid ch) (ReapedWith s) \<in> set made)"
proof -
  obtain made where made: "ws_log ws1 = ws_log ws @ made" "no_kills made"
    "if ch_pid ch' = NO_CHILD then child_gone (ch_pid ch) False made
     else ch_pid ch' = ch_pid ch \<and> (sure \<longrightarrow> \<not> child_gone (ch_pid ch) False made)"
    "\<And>s. r = Inr s \<Longrightarrow> ch_pid ch' = NO_CHILD \<and> WaitCall (ch_pid ch) (ReapedWith s) \<in> set made"
    using fits by (auto simp: wait_fits_def)
  show ?thesis
  proof (cases "ch_pid ch' = NO_CHILD")
    case True
    with made drop_child_log [OF drop] show ?thesis by (auto intro!: exI [of _ made] no_kills_fit)
  next
    case False
    with drop_child_log [OF drop] obtain off a where off: "ws_log ws' = ws_log ws1 @ off @
       [KillCall (- ch_pid ch') SIGKILL, KillCall (ch_pid ch') SIGKILL, WaitCall (ch_pid ch') a]"
       "a \<noteq> StillRunning" "off \<in> {[], [WatchOff (the (ch_queue ch')) (usize_of (ch_pid ch')) EVFILT_PROC]}"
      by auto
    have none: "\<And>s. r \<noteq> Inr s" using made(4) False by auto
    have "ch_pid ch' = ch_pid ch" "sure \<Longrightarrow> \<not> child_gone (ch_pid ch) False made" using made(3) False by simp_all
    with none made(1,2) off show ?thesis
      by (intro exI [of _ "made @ off @
          [KillCall (- ch_pid ch) SIGKILL, KillCall (ch_pid ch) SIGKILL, WaitCall (ch_pid ch) a]"])
        (auto intro: no_kills_fit)
  qed
qed

text \<open>
  C32: however a task that started a child leaves it (\<open>child_tail\<close> with any outcome of the
  exchange, any answers of the kernel and a cancel at any lap), the child has been waited for by
  the end, so none is left behind as a zombie. A task that returns a status returns the one the
  kernel gave for that child and sent it no signal. And unless the wait was cancelled, no signal
  is sent after the child is known to be gone, so none reaches a process that took its number.
\<close>
theorem every_child_is_waited_for:
  assumes "child_tail wk queue pid exchanged ws = Some (r, ws')" "pid \<noteq> NO_CHILD" "cancel_stays wk"
  shows "\<exists>made. ws_log ws' = ws_log ws @ made \<and> child_gone pid False made \<and>
    (wk_stopped_waiting wk \<longrightarrow> kills_fit pid False made) \<and>
    (\<forall>x s. r = Inr (x, s) \<longrightarrow> no_kills made \<and> WaitCall pid (ReapedWith s) \<in> set made)"
proof (cases exchanged)
  case (Inl e)
  then have r: "r = Inl e" and drop: "drop_child wk (child_new pid) ws = Some ws'"
    using assms(1) by (auto simp: child_tail_def elim!: bind_SomeE)
  have "wait_fits True (child_new pid) ws (Inl e, child_new pid, ws)"
    using assms(2) by (intro wait_fitsI [where made = "[]"]) (simp_all add: child_new_def)
  from wait_fits_then_drop [OF this drop] assms(2) show ?thesis using r by (auto simp: child_new_def)
next
  case (Inr x)
  then obtain r1 ch ws1 where steps: "wait_exit wk queue (child_new pid) ws = Some (r1, ch, ws1)"
    "drop_child wk ch ws1 = Some ws'" "r = (case r1 of Inl e \<Rightarrow> Inl e | Inr status \<Rightarrow> Inr (x, status))"
    using assms(1) by (auto simp: child_tail_def elim!: bind_SomeE)
  have "wait_fits (wk_stopped_waiting wk) (child_new pid) ws (r1, ch, ws1)"
    using wait_exit_fits [OF steps(1) assms(3)] assms(2) by (simp add: child_new_def)
  from wait_fits_then_drop [OF this steps(2)] assms(2) steps(3) show ?thesis
    by (auto simp: child_new_def split: sum.split_asm)
qed

text \<open>A kernel whose child is running when first asked and has ended with status 1 after one wake.\<close>

definition ends_with_one :: wait_kernel where
  "ends_with_one =
     \<lparr>wk_waitpid = (\<lambda>n. if n = 0 then (Inr 0, 0) else (Inr 77, 256)), wk_watch = True, wk_waiting_on = True,
      wk_laps = (\<lambda>_. Arrived), wk_cancelled = (\<lambda>_. False), wk_stopped_waiting = True\<rparr>"

theorem every_child_is_waited_for_witness:
  "\<exists>made. [WaitCall 77 StillRunning, WaitCall 77 (ReapedWith 256), WatchOff 5 77 EVFILT_PROC] = [] @ made \<and>
    child_gone 77 False made \<and> (wk_stopped_waiting ends_with_one \<longrightarrow> kills_fit 77 False made) \<and>
    (\<forall>x s. (Inr ((), 256) :: (unit \<times> i32) res) = Inr (x, s) \<longrightarrow> no_kills made \<and> WaitCall 77 (ReapedWith s) \<in> set made)"
proof -
  have run: "child_tail ends_with_one (Some 5) 77 (Inr () :: unit res) \<lparr>ws_calls = 0, ws_log = []\<rparr> =
    Some (Inr ((), 256), \<lparr>ws_calls = 2,
      ws_log = [WaitCall 77 StillRunning, WaitCall 77 (ReapedWith 256), WatchOff 5 77 EVFILT_PROC]\<rparr>)"
    by code_simp
  have "cancel_stays ends_with_one" by (simp add: cancel_stays_def cancel_seen_def ends_with_one_def)
  from every_child_is_waited_for [OF run _ this] show ?thesis by (simp add: NO_CHILD_def)
qed

text \<open>
  C40: a cancel that lands while the last lap of the wait is asking makes the task signal a number
  it has given back. The lap reaps the child, \<open>stopped_waiting\<close> then says the task was cancelled,
  and \<open>wait_exit\<close> returns before it marks the child as reaped. The guard's drop sends \<open>SIGKILL\<close> to
  the group and the process of that number and waits for it again, although the number may be
  another process's by then.
\<close>
theorem late_cancel_signals_a_reaped_child:
  "case child_tail (ends_with_one\<lparr>wk_stopped_waiting := False\<rparr>) (Some 5) 77 (Inr () :: unit res)
      \<lparr>ws_calls = 0, ws_log = []\<rparr> of
     Some (r, ws') \<Rightarrow> r = Inl ECancelled \<and> cancel_stays (ends_with_one\<lparr>wk_stopped_waiting := False\<rparr>) \<and>
       ws_log ws' = [WaitCall 77 StillRunning, WaitCall 77 (ReapedWith 256), WatchOff 5 77 EVFILT_PROC,
         WatchOff 5 77 EVFILT_PROC, KillCall (- 77) SIGKILL, KillCall 77 SIGKILL, WaitCall 77 (ReapedWith 256)] \<and>
       \<not> kills_fit 77 False (ws_log ws')
   | None \<Rightarrow> False"
proof -
  have "child_tail (ends_with_one\<lparr>wk_stopped_waiting := False\<rparr>) (Some 5) 77 (Inr () :: unit res)
      \<lparr>ws_calls = 0, ws_log = []\<rparr> =
    Some (Inl ECancelled, \<lparr>ws_calls = 3, ws_log = [WaitCall 77 StillRunning, WaitCall 77 (ReapedWith 256),
      WatchOff 5 77 EVFILT_PROC, WatchOff 5 77 EVFILT_PROC, KillCall (- 77) SIGKILL, KillCall 77 SIGKILL,
      WaitCall 77 (ReapedWith 256)]\<rparr>)"
    by code_simp
  then show ?thesis by (simp add: cancel_stays_def)
qed

section \<open>What reads back\<close>

lemma small_word: "unat c < 2 ^ n \<Longrightarrow> take_bit n (c :: i32) = c"
  by (simp add: word_eq_iff_unsigned [where 'a = nat] unsigned_take_bit_eq take_bit_nat_eq_self)

text \<open>
  C34: a status reads back as what the child did. A child that called exit with a code below 256,
  which the kernel shifts up by eight, has that code and no signal. One ended by a signal below
  127, core dumped or not, has that signal and no code. No status has both, and it is a success
  exactly when the code is 0.
\<close>
theorem exit_status_reads_back:
  "(\<forall>c::i32. c < 256 \<longrightarrow> exit_code (push_bit 8 c) = Some c \<and> exit_signal (push_bit 8 c) = None \<and>
      (exit_success (push_bit 8 c) \<longleftrightarrow> c = 0)) \<and>
   (\<forall>sig::i32. 0 < sig \<and> sig < 127 \<longrightarrow> (\<forall>core\<in>{0, 128}.
      exit_signal (sig OR core) = Some sig \<and> exit_code (sig OR core) = None \<and> \<not> exit_success (sig OR core))) \<and>
   (\<forall>raw. exit_code raw = None \<or> exit_signal raw = None)"
proof (intro conjI allI impI ballI)
  fix c :: i32 assume c: "c < 256"
  then have code: "exit_code (push_bit 8 c) = Some c" by (simp add: code_shifted small_word word_less_nat_alt)
  then show "exit_code (push_bit 8 c) = Some c" .
  then show "exit_signal (push_bit 8 c) = None" by (simp add: exit_code_def exit_signal_def Let_def split: if_split_asm)
  show "exit_success (push_bit 8 c) \<longleftrightarrow> c = 0" using code by (simp add: exit_success_def)
next
  fix sig core :: i32 assume sig: "0 < sig \<and> sig < 127" and core: "core \<in> {0, 128}"
  have "take_bit 7 (sig OR core) = sig"
    using core sig small_word [of sig 7] by (auto simp: take_bit_or word_less_nat_alt)
  then have *: "(sig OR core) AND STATUS_MASK = sig" by (simp add: mask_values take_bit_eq_mask)
  have "sig \<noteq> 0" "sig \<noteq> STATUS_STOPPED" using sig by (auto simp: STATUS_STOPPED_def)
  with * show "exit_signal (sig OR core) = Some sig" "exit_code (sig OR core) = None" "\<not> exit_success (sig OR core)"
    by (simp_all add: exit_signal_def exit_code_def exit_success_def Let_def)
next
  fix raw show "exit_code raw = None \<or> exit_signal raw = None"
    by (simp add: exit_code_def exit_signal_def)
qed

theorem exit_status_reads_back_witness:
  "exit_code (push_bit 8 3) = Some 3 \<and> exit_signal (9 OR 128) = Some 9"
proof
  show "exit_code (push_bit 8 3) = Some 3"
    using conjunct1 [OF exit_status_reads_back, rule_format, of 3] by simp
  show "exit_signal (9 OR 128) = Some 9"
    using conjunct1 [OF conjunct2 [OF exit_status_reads_back], rule_format, of 9 128] by simp
qed

lemma over_flat:
  assumes "map (\<lambda>(name, val). as_c_var name val) vars = map Some vs"
  shows "vs = map (\<lambda>(name, val). name @ ''='' @ val) vars"
  using assms
proof (induction vars arbitrary: vs)
  case (Cons var vars)
  obtain v vs' where vs: "vs = v # vs'" using Cons.prems by (cases vs) auto
  then have "as_c_var (fst var) (snd var) = Some v" using Cons.prems by (simp add: case_prod_beta)
  then have "v = fst var @ ''='' @ snd var" by (auto simp: as_c_var_def as_c_arg_def split: if_split_asm)
  then show ?case using Cons.IH [of vs'] Cons.prems vs by (simp add: case_prod_beta)
qed simp

lemma filter_key_over:
  assumes "map (\<lambda>(name, val). as_c_var name val) vars = map Some vs"
  shows "filter (\<lambda>e. env_key e = n) vs = map (\<lambda>(name, val). name @ ''='' @ val) (filter (\<lambda>(name, val). name = n) vars)"
  using assms
proof (induction vars arbitrary: vs)
  case (Cons var vars)
  obtain v vs' where vs: "vs = v # vs'" using Cons.prems by (cases vs) auto
  then have v: "as_c_var (fst var) (snd var) = Some v" using Cons.prems by (simp add: case_prod_beta)
  have "v = fst var @ ''='' @ snd var" using over_flat [OF Cons.prems] vs by (simp add: case_prod_beta)
  then show ?case using Cons.IH [of vs'] Cons.prems vs key_of_var [OF v] by (auto simp: case_prod_beta)
qed simp

lemma over_keys:
  assumes "map (\<lambda>(name, val). as_c_var name val) vars = map Some vs"
  shows "env_key ` set vs = fst ` set vars"
  using assms
proof (induction vars arbitrary: vs)
  case (Cons var vars)
  obtain v vs' where vs: "vs = v # vs'" using Cons.prems by (cases vs) auto
  then show ?case using Cons.IH [of vs'] Cons.prems key_of_var [of "fst var" "snd var" v]
    by (auto simp: case_prod_beta)
qed simp

text \<open>
  C35: a child's environment is the overlay over this process's own. Of a name the task set, the
  child's entries are exactly what the task gave it, in order. Of any other, they are the
  inherited ones, in order. With only the task's variables nothing is inherited, and one variable
  the kernel could not take (an empty name, a name with an equals sign, a zero byte) fails
  the spawn rather than being left out.
\<close>
theorem child_environment_is_overlay:
  assumes "as_env vars EnvOver \<noteq> EnvBad"
  shows "\<exists>es. envp own (as_env vars EnvOver) = Inr (Some (map Some es @ [None])) \<and>
      (\<forall>n. filter (\<lambda>e. env_key e = n) es =
        (if n \<in> fst ` set vars
         then map (\<lambda>(name, val). name @ ''='' @ val) (filter (\<lambda>(name, val). name = n) vars)
         else filter (\<lambda>e. env_key e = n) own)) \<and>
      envp own (as_env vars EnvOnly) =
        Inr (Some (map Some (map (\<lambda>(name, val). name @ ''='' @ val) vars) @ [None])) \<and>
      (\<forall>name val. as_c_var name val = None \<longrightarrow> envp own (as_env (vars @ [(name, val)]) EnvOver) = Inl BadVariable)"
proof -
  obtain vs where vs: "map (\<lambda>(name, val). as_c_var name val) vars = map Some vs"
    using assms by (auto simp: as_env_def those_Some_iff split: option.split_asm)
  have those: "those (map (\<lambda>(name, val). as_c_var name val) vars) = Some vs" using vs by (simp add: those_Some_iff)
  note flat = over_flat [OF vs]
  have bad: "those (map (\<lambda>(name, val). as_c_var name val) (vars @ [(name, val)])) = None" if "as_c_var name val = None"
    for name val
    using that by (cases "those (map (\<lambda>(name, val). as_c_var name val) (vars @ [(name, val)]))")
      (auto simp: those_Some_iff append_eq_map_conv)
  let ?es = "filter (\<lambda>e. \<not> (\<exists>v\<in>set vs. env_key v = env_key e)) own @ vs"
  have named: "filter (\<lambda>e. env_key e = n) ?es = (if n \<in> fst ` set vars
      then map (\<lambda>(name, val). name @ ''='' @ val) (filter (\<lambda>(name, val). name = n) vars)
      else filter (\<lambda>e. env_key e = n) own)" for n
  proof (cases "n \<in> fst ` set vars")
    case True
    then have "filter (\<lambda>e. env_key e = n) (filter (\<lambda>e. \<not> (\<exists>v\<in>set vs. env_key v = env_key e)) own) = []"
      unfolding over_keys [OF vs, symmetric] by (fastforce simp: filter_empty_conv)
    with True show ?thesis using filter_key_over [OF vs, of n] by simp
  next
    case False
    then have "filter (\<lambda>e. env_key e = n) vs = []" "\<And>v. v \<in> set vs \<Longrightarrow> env_key v \<noteq> n"
      using over_keys [OF vs] by (auto simp: filter_empty_conv)
    then have "filter (\<lambda>e. env_key e = n) (filter (\<lambda>e. \<not> (\<exists>v\<in>set vs. env_key v = env_key e)) own) =
      filter (\<lambda>e. env_key e = n) own"
      by (auto intro: filter_cong)
    with False \<open>filter (\<lambda>e. env_key e = n) vs = []\<close> show ?thesis by simp
  qed
  have "envp own (as_env vars EnvOver) = Inr (Some (map Some ?es @ [None]))"
    by (simp add: as_env_def those envp_def env_merge_def)
  moreover have "envp own (as_env vars EnvOnly) = Inr (Some (map Some vs @ [None]))"
    by (simp add: as_env_def those envp_def)
  moreover have "envp own (as_env (vars @ [(name, val)]) EnvOver) = Inl BadVariable" if "as_c_var name val = None"
    for name val
    using bad [OF that] by (simp only: as_env_def envp_def option.case child_env.case)
  ultimately show ?thesis using named flat by (intro exI [of _ ?es]) simp
qed

theorem child_environment_is_overlay_witness:
  "\<exists>es. envp [''PATH=/bin'', ''HOME=/root''] (as_env [(''PATH'', ''/usr/bin'')] EnvOver) = Inr (Some (map Some es @ [None])) \<and>
    filter (\<lambda>e. env_key e = ''PATH'') es = [''PATH=/usr/bin''] \<and> filter (\<lambda>e. env_key e = ''HOME'') es = [''HOME=/root'']"
proof -
  have "as_env [(''PATH'', ''/usr/bin'')] EnvOver \<noteq> EnvBad" by code_simp
  from child_environment_is_overlay [OF this, of "[''PATH=/bin'', ''HOME=/root'']"] obtain es where
    es: "envp [''PATH=/bin'', ''HOME=/root''] (as_env [(''PATH'', ''/usr/bin'')] EnvOver) = Inr (Some (map Some es @ [None]))"
    "\<And>n. filter (\<lambda>e. env_key e = n) es = (if n \<in> fst ` set [(''PATH'', ''/usr/bin'')]
      then map (\<lambda>(name, val). name @ ''='' @ val) (filter (\<lambda>(name, val). name = n) [(''PATH'', ''/usr/bin'')])
      else filter (\<lambda>e. env_key e = n) [''PATH=/bin'', ''HOME=/root''])"
    by blast
  with es(2) [of "''PATH''"] es(2) [of "''HOME''"] show ?thesis by (auto simp: env_key_def)
qed

section \<open>The whole exchange\<close>

lemma watch_reads_all:
  "watch_reads xk [a, b] [0, 1] [False, False] = (Inr u, opens) \<Longrightarrow> opens = [a \<noteq> IGNORED, b \<noteq> IGNORED]"
  by (auto split: if_split_asm sum.split_asm)

definition exchange_begin :: "int list \<Rightarrow> int option \<Rightarrow> exchange_state" where
  "exchange_begin ends input =
     \<lparr>xs_open = map (\<lambda>fd. fd \<noteq> IGNORED) ends, xs_found = [[], []], xs_end = input, xs_sent = 0, xs_calls = 0, xs_log = []\<rparr>"

lemma ok_begin: "length ends = 2 \<Longrightarrow> exchange_ok ends data input (exchange_begin ends input)"
  by (auto simp: exchange_ok_def exchange_begin_def stream_ok_def feed_ok_def less_Suc_eq numeral_2_eq_2)

lemma ok_finished:
  assumes "exchange_ok [a, b] data input xs" "\<not> pump_wanted xs" "a \<noteq> IGNORED" "b \<noteq> IGNORED"
  shows "xs_found xs ! 0 = bytes_read a (xs_log xs) \<and> xs_found xs ! 1 = bytes_read b (xs_log xs) \<and>
    ReadCall a [] \<in> set (xs_log xs) \<and> ReadCall b [] \<in> set (xs_log xs) \<and>
    bytes_written (xs_log xs) = take (xs_sent xs) data \<and>
    (\<forall>fd. input = Some fd \<longrightarrow> count_list (xs_log xs) (CloseFd fd) = 1 \<and>
      (xs_sent xs = length data \<or> BrokenPipe fd \<in> set (xs_log xs)))"
proof -
  have len: "length (xs_open xs) = 2"
    and streams: "\<And>k. k < 2 \<Longrightarrow> stream_ok ([a, b] ! k) (xs_open xs ! k) (xs_found xs ! k) (xs_log xs)"
    and feed: "feed_ok data input (xs_end xs) (xs_sent xs) (xs_log xs)"
    using assms(1) by (simp_all add: exchange_ok_def)
  have shut: "\<not> xs_open xs ! k" if "k < 2" for k
    using nth_mem [of k "xs_open xs", unfolded len, OF that] assms(2) unfolding pump_wanted_def by blast
  have no_end: "xs_end xs = None" using assms(2) unfolding pump_wanted_def by blast
  have "xs_found xs ! 0 = bytes_read a (xs_log xs) \<and> ReadCall a [] \<in> set (xs_log xs)"
    using streams [of 0] shut [of 0] assms(3) by (simp add: stream_ok_def)
  moreover have "xs_found xs ! 1 = bytes_read b (xs_log xs) \<and> ReadCall b [] \<in> set (xs_log xs)"
    using streams [of 1] shut [of 1] assms(4) by (simp add: stream_ok_def)
  moreover have "\<forall>fd. input = Some fd \<longrightarrow> count_list (xs_log xs) (CloseFd fd) = 1 \<and>
      (xs_sent xs = length data \<or> BrokenPipe fd \<in> set (xs_log xs))"
    using feed no_end by (simp add: feed_ok_def) auto
  ultimately show ?thesis using feed by (simp add: feed_ok_def)
qed

lemma exchange_finished:
  assumes "exchange_io xk queue input data (Some a) (Some b) = Some (Inr (found_out, found_err), xs)"
    "a \<noteq> IGNORED" "b \<noteq> IGNORED"
  obtains xs1 where "pump xk queue [a, b] data 0 (exchange_begin [a, b] input) = Some (Inr (), xs1)"
    "found_out = xs_found xs1 ! 0" "found_err = xs_found xs1 ! 1"
    "xs = feed_finish queue (drop_reads queue [a, b] xs1)"
proof -
  obtain watched opens where w: "watch_reads xk [a, b] [0, 1] [False, False] = (watched, opens)" by fastforce
  show thesis
  proof (cases watched)
    case (Inl e)
    with assms(1) w show thesis by (simp add: exchange_io_def Let_def)
  next
    case (Inr u)
    with watch_reads_all [of xk a b u opens] w
    have start: "\<lparr>xs_open = opens, xs_found = [[], []], xs_end = input, xs_sent = 0, xs_calls = 0, xs_log = []\<rparr> =
      exchange_begin [a, b] input" by (simp add: exchange_begin_def)
    obtain y where y: "pump xk queue [a, b] data 0 (exchange_begin [a, b] input) = Some y"
      "fst y = Inr ()" "xs = feed_finish queue (drop_reads queue [a, b] (snd y))"
      "found_out = xs_found xs ! 0" "found_err = xs_found xs ! 1"
      using assms(1) w Inr start
      by (auto simp: exchange_io_def Let_def elim!: bind_SomeE split: if_split_asm sum.split_asm)
    have "xs_found xs = xs_found (snd y)"
      unfolding y(3) by (simp add: feed_finish_def drop_reads_def split: option.split)
    with y show thesis by (intro that [of "snd y"]) (auto simp: prod_eq_iff)
  qed
qed

lemma poll_exchange_finished:
  assumes "poll_exchange xk input data (Some a) (Some b) = Some (Inr (found_out, found_err), xs)"
  shows "poll_loop xk [a, b] data 0 (exchange_begin [a, b] input) = Some (Inr (), xs) \<and>
    found_out = xs_found xs ! 0 \<and> found_err = xs_found xs ! 1"
  using assms
  by (auto simp: poll_exchange_def exchange_begin_def Let_def elim!: bind_SomeE split: sum.split_asm)

lemma closing_log:
  assumes "xs_end xs = None"
  shows "\<exists>offs. xs_log (feed_finish queue (drop_reads queue ends xs)) = xs_log xs @ offs \<and>
    (\<forall>c\<in>set offs. \<exists>q i f. c = WatchOff q i f)"
  using assms by (auto simp: feed_finish_def drop_reads_def)

lemma watch_offs:
  "\<forall>c\<in>set offs. \<exists>q i f. c = WatchOff q i f \<Longrightarrow>
    bytes_read fd offs = [] \<and> bytes_written offs = [] \<and> count_list offs (CloseFd f') = 0"
  by (induction offs) auto

text \<open>
  C33: an exchange with a child loses nothing. When it ends well, on the thread's queue or by
  polling, what it returns as each stream is every byte read from that stream in order, and each
  stream was read to its end. What was written is a prefix of the data, all of it unless the child
  stopped reading, and the child's input was closed exactly once, which tells it so. This holds
  for every interleaving of reads, writes, partial writes, interrupted calls and stray events.
\<close>
theorem exchange_loses_nothing:
  assumes "exchange_io xk queue input data (Some a) (Some b) = Some (Inr (found_out, found_err), xs) \<or>
      polls_fit xk \<and> poll_exchange xk input data (Some a) (Some b) = Some (Inr (found_out, found_err), xs)"
    "writes_fit xk" "a \<noteq> b" "a \<noteq> IGNORED" "b \<noteq> IGNORED"
  shows "found_out = bytes_read a (xs_log xs) \<and> found_err = bytes_read b (xs_log xs) \<and>
    ReadCall a [] \<in> set (xs_log xs) \<and> ReadCall b [] \<in> set (xs_log xs) \<and>
    bytes_written (xs_log xs) = take (xs_sent xs) data \<and>
    (\<forall>fd. input = Some fd \<longrightarrow> count_list (xs_log xs) (CloseFd fd) = 1 \<and>
      (xs_sent xs = length data \<or> BrokenPipe fd \<in> set (xs_log xs)))"
proof -
  have apart: "ends_apart [a, b]" using assms(3) by (simp add: ends_apart_def)
  have start: "exchange_ok [a, b] data input (exchange_begin [a, b] input)" by (rule ok_begin) simp
  from assms(1) show ?thesis
  proof
    assume "exchange_io xk queue input data (Some a) (Some b) = Some (Inr (found_out, found_err), xs)"
    then obtain xs1 where xs1: "pump xk queue [a, b] data 0 (exchange_begin [a, b] input) = Some (Inr (), xs1)"
      "found_out = xs_found xs1 ! 0" "found_err = xs_found xs1 ! 1"
      "xs = feed_finish queue (drop_reads queue [a, b] xs1)"
      using assms(4,5) by (rule exchange_finished)
    have ok: "exchange_ok [a, b] data input xs1" "\<not> pump_wanted xs1"
      using ok_pump [OF xs1(1) start assms(2) apart] by simp_all
    then have "xs_end xs1 = None" by (simp add: pump_wanted_def)
    then obtain offs where offs: "xs_log xs = xs_log xs1 @ offs" "\<forall>c\<in>set offs. \<exists>q i f. c = WatchOff q i f"
      using closing_log [of xs1 queue "[a, b]"] xs1(4) by auto
    have "xs_sent xs = xs_sent xs1" unfolding xs1(4) by (simp add: feed_finish_def drop_reads_def split: option.split)
    with ok_finished [OF ok assms(4,5)] watch_offs [OF offs(2)] offs(1) xs1(2,3) show ?thesis by auto
  next
    assume poll: "polls_fit xk \<and> poll_exchange xk input data (Some a) (Some b) = Some (Inr (found_out, found_err), xs)"
    note loop = poll_exchange_finished [OF conjunct2 [OF poll]]
    have ok: "exchange_ok [a, b] data input xs" "\<not> pump_wanted xs"
      using ok_poll_loop [OF conjunct1 [OF loop] start assms(2) apart] poll by simp_all
    from ok_finished [OF ok assms(4,5)] loop show ?thesis by simp
  qed
qed

text \<open>A child that echoes what it is given: two bytes in, one read of each, and both streams end.\<close>

definition echoes :: exchange_kernel where
  "echoes =
     (let ev = (\<lambda>fd filt. \<lparr>ke_ident = fd, ke_filter = filt, ke_flags = 0, ke_fflags = 0, ke_data = 0, ke_udata = 0\<rparr>) in
      \<lparr>xk_read = (\<lambda>n fd. Inr (if n = 1 then ''hi'' else [])), xk_write = (\<lambda>_ want. Inr want),
       xk_events = (\<lambda>n. if n = 0 then Inr [ev 4 EVFILT_WRITE, ev 3 EVFILT_READ] else Inr [ev 5 EVFILT_READ, ev 3 EVFILT_READ]),
       xk_poll = (\<lambda>_ _. Inr (0, [])), xk_cancelled = (\<lambda>_. False), xk_watch = (\<lambda>_. Inr ()),
       xk_waiting_on = True, xk_stopped_waiting = True\<rparr>)"

theorem exchange_loses_nothing_witness:
  "case exchange_io echoes 9 (Some 4) ''hi'' (Some 3) (Some 5) of
     Some (Inr (found_out, found_err), xs) \<Rightarrow>
       found_out = ''hi'' \<and> found_out = bytes_read 3 (xs_log xs) \<and> found_err = bytes_read 5 (xs_log xs) \<and>
       count_list (xs_log xs) (CloseFd 4) = 1 \<and> (xs_sent xs = 2 \<or> BrokenPipe 4 \<in> set (xs_log xs))
   | _ \<Rightarrow> False"
proof -
  have run: "exchange_io echoes 9 (Some 4) ''hi'' (Some 3) (Some 5) = Some (Inr (''hi'', []),
    \<lparr>xs_open = [False, False], xs_found = [''hi'', []], xs_end = None, xs_sent = 2, xs_calls = 4,
     xs_log = [WriteCall 4 ''hi'', WatchOff 9 4 EVFILT_WRITE, CloseFd 4, ReadCall 3 ''hi'', ReadCall 5 [],
       WatchOff 9 5 EVFILT_READ, ReadCall 3 [], WatchOff 9 3 EVFILT_READ]\<rparr>)"
    by (simp add: exchange_io_def echoes_def pump.simps [of _ _ _ _ 0]
        pump.simps [of _ _ _ _ "Suc 0"] pump.simps [of _ _ _ _ "Suc (Suc 0)"] pump_wanted_def pump_event_def feed_is_def feed_push_def
        feed_finish_def write_chunk_def write_calls_def read_slot_def read_chunk_def read_calls_def slot_of_def
        drop_reads_def usize_of_def IGNORED_def EVFILT_READ_def EVFILT_WRITE_def EV_ERROR_def FILE_CHUNK_def
        Let_def ex_bool_eq)
  have "writes_fit echoes" by (simp add: writes_fit_def echoes_def Let_def)
  from exchange_loses_nothing [OF disjI1 [OF run] this] show ?thesis unfolding run by (simp add: IGNORED_def)
qed

end
