(* ===== verification/Spec2Isabelle.thy ===== *)
theory Spec2Isabelle
  imports Gate_Race Read_Take_Race Park_Race Executor_Cells Waiting_Facts Channel Gather_Race Process_Facts
begin

text \<open>
  A verification development for atap, an asynchronous runtime for macOS written in Rust. File
  names below are under \<open>src/src\<close>.

  \<^bold>\<open>The program.\<close> A user spawns tasks and gets handles. A task lives in a slot of the task table
  (\<open>modules/task_table.rs\<close>), whose header (\<open>modules/task_data.rs\<close>) has its state, who still
  holds it, where it is queued and its output. The executor (\<open>executor.rs\<close>) makes, starts,
  runs, parks and ends tasks. Runnable ids go into the injector (\<open>modules/injector.rs\<close>) or a
  worker's own ring (\<open>modules/worker.rs\<close>), and the worker pool (\<open>modules/worker_pool.rs\<close>)
  starts, wakes, balances and stops the threads that run them. The manager thread of the executor
  listens on a kernel queue for timers and parked tasks, and a supervisor restarts it. Outputs
  go to other tasks through registrations (\<open>modules/receivers.rs\<close>), gates (\<open>modules/gate.rs\<close>) and
  gathers (\<open>modules/gather.rs\<close>). The tasks themselves are users' closures and the ones under
  \<open>futures\<close>.

  \<^bold>\<open>How code becomes definitions.\<close> A struct is a record, an enum a datatype, and each function or
  method one definition that takes the state and returns the new one, with an early return or an
  error as a branch and an error value in \<open>res\<close>. Words that wrap in the source are words or have
  their \<open>mod\<close> written out. A loop that may not end is a \<open>partial_function (option)\<close>, where
  \<open>None\<close> means that it never returns; there is no fuel anywhere, and where the code is meant to
  return this is proved. What is not the crate's own, namely the kernel's answers, a
  user's code and what other threads do between two steps, is an argument: a function from the
  number of the call to the answer, or a record of such functions (\<open>env\<close>, \<open>machine\<close>,
  \<open>exchange_kernel\<close>, \<open>wait_kernel\<close>). An operation on atomics is modelled as one undisturbed step,
  which \<open>Atap_Prelude.cas_loop_linearizable\<close> justifies for compare and exchange loops; where
  correctness depends on the order of single memory accesses of several threads, a step relation
  with one step per access models the same code again.

  \<^bold>\<open>Theories, from the bottom up.\<close>

  \<^item> \<open>Atap_Prelude\<close>, \<open>Atap_Constants\<close>, \<open>Atap_States\<close>: machine integers, compare and exchange,
    shared lemmas and collections; \<open>constants.rs\<close>; the enums, errors and setups of
    \<open>modules/task_state.rs\<close>, \<open>worker_state.rs\<close>, \<open>task_kind.rs\<close>, \<open>errors.rs\<close>, \<open>join_policy.rs\<close>
    and \<open>task_setup.rs\<close>.
  \<^item> \<open>Queue_Spec\<close>: the interface \<open>fifo\<close> of a first in first out queue and what follows for every
    history of it. It is interpreted on a band of the injector, on a worker's ring and on a
    channel.
  \<^item> \<open>Gate\<close> and \<open>Gate_Race\<close>: \<open>modules/gate.rs\<close>. The interface \<open>closing_gate\<close> says that a finished
    gate takes nothing more. The race theory has one step per access and shows that a give has
    one owner and none is left behind, and how the count of gives can be passed.
  \<^item> \<open>Receivers\<close>: \<open>modules/receivers.rs\<close>. Every registration is told of every output once.
  \<^item> \<open>Task_Data\<close> and \<open>Read_Take_Race\<close>: \<open>modules/task_data.rs\<close> and \<open>extras.rs\<close>. The interface
    \<open>one_winner\<close> is what every claim of a slot promises. The race theory shows that readers, a
    taker and a run never use the output at once, and where a repeat breaks that.
  \<^item> \<open>Task_Table\<close>: \<open>modules/task_table.rs\<close>. The free list is a stack of ids that are not live, the
    interface \<open>id_pool\<close> is interpreted on it, and trimming gives back only pages of free slots.
  \<^item> \<open>Injector\<close>: \<open>modules/injector.rs\<close>. The lists in the slots' links refine one queue per band.
  \<^item> \<open>Thread_Slots\<close> and \<open>Park_Race\<close>: \<open>modules/thread_slot.rs\<close>. A wake is never lost between a
    worker that parks and a submit.
  \<^item> \<open>Workers\<close>, \<open>Pool\<close>, \<open>Pool_Frame\<close>: \<open>modules/worker.rs\<close>, \<open>sleep_thread.rs\<close>, \<open>exit_guard.rs\<close>,
    \<open>worker_pool.rs\<close>, \<open>tuning.rs\<close>. Rings, stealing, finding work, recovery of dead threads, growing
    and reaping, and what all of it leaves alone in a slot.
  \<^item> \<open>Kernel_Events\<close>: \<open>modules/event_desc.rs\<close>, \<open>kevent.rs\<close>, \<open>kqueue.rs\<close>, \<open>int_check.rs\<close>,
    \<open>retried.rs\<close>, \<open>wake_target.rs\<close>, \<open>park.rs\<close> and the step loop of \<open>futures/net/step.rs\<close>.
  \<^item> \<open>Executor\<close>, \<open>Executor_Facts\<close>, \<open>Executor_Cells\<close>, \<open>Executor_Ends\<close>: \<open>executor.rs\<close> with
    \<open>modules/series.rs\<close>, \<open>gated.rs\<close>, \<open>erased_task.rs\<close> and \<open>handle_kind.rs\<close>. The state of everything
    is the record \<open>world\<close>. The facts: the executor's reference is given back once, a run settles
    its task, an ended task never runs, an output is taken once, and under every sequence of
    operations (\<open>exec_step\<close>) a slot that says it has an output has one.
  \<^item> \<open>Manager\<close>, \<open>Manager_Facts\<close>, \<open>Lifecycle\<close>: the manager's loop, the supervisor, start and
    shutdown in \<open>executor.rs\<close>, \<open>runtime.rs\<close> and \<open>reactor.rs\<close>.
  \<^item> \<open>Waiting\<close>, \<open>Waiting_Facts\<close>: \<open>modules/help.rs\<close>, the waits of \<open>executor.rs\<close> and the calls of
    \<open>modules/task_handle.rs\<close>. A wait answers truly and returns.
  \<^item> \<open>Gather\<close>, \<open>Gather_Race\<close>: \<open>modules/handle_set.rs\<close>, \<open>gather.rs\<close>, \<open>receive_all\<close> and
    \<open>receive_any\<close>. Rounds are complete and given once, the target is let go when no more can come,
    and one interleaving loses a round.
  \<^item> \<open>Channel\<close>: \<open>futures/channel\<close>. Values come out in the order they went in, the bells say whether
    there is something to take and room to put, and a receive returns.
  \<^item> \<open>Process\<close>, \<open>Process_Facts\<close>: \<open>futures/process/process_task.rs\<close> and \<open>exit_status.rs\<close>. What is
    put to the kernel to start a child, the exchange of bytes with it and the wait for it, with a
    log of the calls. Nothing is lost, every child is waited for, and one interleaving signals a
    number that has been given back.

  \<^bold>\<open>Hypotheses.\<close> Properties with an argument for code that is not here state what they need of it:
  that the kernel takes no more bytes than offered (\<open>writes_fit\<close>), that \<open>poll\<close> says nothing of a
  descriptor that is no descriptor (\<open>polls_fit\<close>), that a task found cancelled stays so
  (\<open>cancel_stays\<close>), that fresh pages are zero. Each such property has a witness with a concrete
  kernel.

  \<^bold>\<open>Not modelled.\<close> The tasks on sockets, files, TLS and signals under \<open>futures\<close>, which are, like
  a user's closures, the parameter of the executor that stands for a task's code; the builders of
  \<open>modules/builder\<close>, whose work is done in types; weak memory orders, since every race theory
  interleaves single accesses; sizes of allocations and the layout of a slot in bytes beyond what
  \<open>Task_Data\<close> says of the payload; logging, and the test and benchmark code.
\<close>

end
